(* ===== verification/Prelude.thy ===== *)
theory Prelude
  imports Main "HOL-Library.Word" "HOL-Library.Signed_Division"
begin

text \<open>
  Shared vocabulary of the development: the machine integer types of \<^verbatim>\<open>kcp/ikcp.h\<close>
  (lines 20 to 128), the reading of a C \<^verbatim>\<open>int\<close>, the collections of facts the components
  put their lemmas in, and generic lemmas on words and lists.

  The integer widths are those of the 64-bit platforms the repository ships libraries for:
  \<^verbatim>\<open>unsigned int\<close> has 32 bits and \<^verbatim>\<open>long\<close> 64. Unsigned values are words, whose
  operations wrap around as C's do. A signed 32-bit value is an \<^typ>\<open>int\<close> that every
  conversion passes through \<open>i32\<close>; where the C standard leaves a signed overflow undefined,
  the model takes the two's complement result that the supported compilers produce, and
  the lemmas say under which bounds no overflow happens.
\<close>

section \<open>Machine integers\<close>

type_synonym u8 = "8 word"    \<comment> \<open>\<^verbatim>\<open>IUINT8\<close>\<close>
type_synonym u16 = "16 word"  \<comment> \<open>\<^verbatim>\<open>IUINT16\<close>\<close>
type_synonym u32 = "32 word"  \<comment> \<open>\<^verbatim>\<open>IUINT32\<close>\<close>

definition i32 :: "int \<Rightarrow> int" where
  "i32 x = signed_take_bit 31 x"

type_synonym addr = nat  \<comment> \<open>a pointer, \<open>0\<close> is \<^verbatim>\<open>NULL\<close>\<close>

named_theorems kcp_frame \<open>fields an operation leaves alone\<close>
named_theorems kcp_inv \<open>operations that keep an invariant\<close>

lemma i32_id: "- (2 ^ 31) \<le> x \<Longrightarrow> x < 2 ^ 31 \<Longrightarrow> i32 x = x"
  unfolding i32_def by (rule signed_take_bit_int_eq_self) simp_all

lemma i32_range: "- (2 ^ 31) \<le> i32 x \<and> i32 x < 2 ^ 31"
  unfolding i32_def
  using signed_take_bit_int_greater_eq_minus_exp[of 31 x] signed_take_bit_int_less_exp[of 31 x]
  by simp

lemma sdiv_nonneg: "0 \<le> a \<Longrightarrow> 0 < b \<Longrightarrow> a sdiv b = a div (b::int)"
  by (cases "a = 0") (simp_all add: signed_divide_int_def)

section \<open>Words\<close>

lemma unat_less_32 [simp]: "unat (x :: u32) < 4294967296"
  by (rule order.strict_trans2 [OF unsigned_less]) simp

lemma unat_nat_uint: "unat (x :: u32) = nat (uint x)"
  by simp

lemma sint_32: "sint (x :: u32) = (if unat x < 2 ^ 31 then int (unat x) else int (unat x) - 2 ^ 32)"
proof -
  define u where "u = uint x"
  have u: "0 \<le> u" "u < 2 ^ 32" "int (unat x) = u"
    using uint_lt2p [of x] by (simp_all add: u_def)
  have "sint x = signed_take_bit 31 u"
    by (simp add: sint_uint u_def)
  also have "\<dots> = take_bit 32 (u + 2 ^ 31) - 2 ^ 31"
    by (simp add: signed_take_bit_eq_take_bit_shift)
  also have "\<dots> = (u + 2 ^ 31) mod 2 ^ 32 - 2 ^ 31"
    by (simp add: take_bit_eq_mod)
  also have "\<dots> = (if u < 2 ^ 31 then u else u - 2 ^ 32)"
  proof (cases "u < 2 ^ 31")
    case True
    then have "(u + 2 ^ 31) mod 2 ^ 32 = u + 2 ^ 31"
      using u(1) by (intro mod_pos_pos_trivial) simp_all
    with True show ?thesis by simp
  next
    case False
    then have "(u + 2 ^ 31) mod 2 ^ 32 = (u - 2 ^ 31) mod 2 ^ 32"
      using mod_add_self2 [of "u - 2 ^ 31" "2 ^ 32"] by (simp add: add.commute)
    also have "\<dots> = u - 2 ^ 31"
      using False u(2) by (intro mod_pos_pos_trivial) simp_all
    finally show ?thesis using False by simp
  qed
  finally have "sint x = (if int (unat x) < 2 ^ 31 then int (unat x) else int (unat x) - 2 ^ 32)"
    by (simp only: u(3))
  moreover have "int (unat x) < 2 ^ 31 \<longleftrightarrow> unat x < 2 ^ 31"
    by (metis of_nat_less_iff of_nat_numeral of_nat_power)
  ultimately show ?thesis
    by (simp only:)
qed

lemma sint_neg_32: "sint (x :: u32) < 0 \<longleftrightarrow> 2 ^ 31 \<le> unat x"
proof -
  have "int (unat x) < 2 ^ 32"
    by (rule order.strict_trans2 [of _ "int 4294967296"]) (simp_all only: of_nat_less_iff unat_less_32, simp)
  then show ?thesis
    by (simp only: sint_32 split: if_splits) linarith
qed

lemma sint_pos_32: "0 < sint (x :: u32) \<longleftrightarrow> 0 < unat x \<and> unat x < 2 ^ 31"
proof (cases "unat x < 2 ^ 31")
  case True
  then have "sint x = int (unat x)" by (simp only: sint_32 if_True)
  with True show ?thesis by linarith
next
  case False
  then show ?thesis using sint_neg_32 [of x] by linarith
qed

lemma mask_255: "(255 :: 'a::len word) = mask 8"
  by (simp add: mask_eq_exp_minus_1)

lemma unat_diff_32: "unat ((x :: u32) - y) = (if unat y \<le> unat x then unat x - unat y
     else unat x + 4294967296 - unat y)"
  using unat_sub_if' [of x y] by simp

lemma unat_plus_32: "unat ((x :: u32) + y) = (if unat x + unat y < 4294967296 then unat x + unat y
     else unat x + unat y - 4294967296)"
  using unat_plus_if' [of x y] by simp

lemma unat_Suc_32: "unat (x :: u32) < 4294967295 \<Longrightarrow> unat (x + 1) = Suc (unat x)"
  by (simp add: unat_plus_32)

lemma unat_pred_32: "0 < unat (x :: u32) \<Longrightarrow> unat (x - 1) = unat x - 1"
  by (simp add: unat_diff_32)

lemma word_of_nat_eq_32: "n < 4294967296 \<Longrightarrow> unat (word_of_nat n :: u32) = n"
  by (simp add: unat_of_nat)

section \<open>Lists\<close>

lemma concat_snoc [simp]: "concat (xs @ [x]) = concat xs @ x"
  by simp

lemma sorted_wrt_rev_iff: "sorted_wrt P (rev xs) = sorted_wrt (\<lambda>x y. P y x) xs"
  by (rule sorted_wrt_rev)

end
