(* ===== verification/Iqueue.thy ===== *)
theory Iqueue
  imports Prelude
begin

text \<open>
  The intrusive queues of \<^verbatim>\<open>kcp/ikcp.h\<close> (lines 131 to 215) at pointer level. A heap gives the
  \<^verbatim>\<open>next\<close> and \<^verbatim>\<open>prev\<close> field of every address; each macro is the sequence of its assignments,
  in the order of the source. \<open>qlist h q xs\<close> says that the nodes \<open>xs\<close>, in this order, form the
  doubly linked ring of the head \<open>q\<close>.

  The locale \<open>intrusive_queue\<close> is the contract the rest of the program relies on: the
  operations behave as list operations and leave every other queue alone. Its clients' loops
  (moving the first entry of one queue to the end of another, as \<^verbatim>\<open>ikcp_recv\<close>, \<^verbatim>\<open>ikcp_parse_data\<close>
  and \<^verbatim>\<open>ikcp_flush\<close> do; emptying a queue, as \<^verbatim>\<open>ikcp_release\<close> does) are verified once against it,
  and the macros are an interpretation of it. This is why the other theories may use lists.
\<close>

section \<open>The macros\<close>

record qheap =
  q_next :: "addr \<Rightarrow> addr"
  q_prev :: "addr \<Rightarrow> addr"

definition set_next :: "addr \<Rightarrow> addr \<Rightarrow> qheap \<Rightarrow> qheap" where
  "set_next a v h = h\<lparr>q_next := (q_next h)(a := v)\<rparr>"

definition set_prev :: "addr \<Rightarrow> addr \<Rightarrow> qheap \<Rightarrow> qheap" where
  "set_prev a v h = h\<lparr>q_prev := (q_prev h)(a := v)\<rparr>"

definition IQUEUE_INIT :: "addr \<Rightarrow> qheap \<Rightarrow> qheap" where
  "IQUEUE_INIT ptr h = set_prev ptr ptr (set_next ptr ptr h)"

definition IQUEUE_ADD :: "addr \<Rightarrow> addr \<Rightarrow> qheap \<Rightarrow> qheap" where
  "IQUEUE_ADD node head h =
     (let h = set_prev node head h;
          h = set_next node (q_next h head) h;
          h = set_prev (q_next h head) node h
      in set_next head node h)"

definition IQUEUE_ADD_TAIL :: "addr \<Rightarrow> addr \<Rightarrow> qheap \<Rightarrow> qheap" where
  "IQUEUE_ADD_TAIL node head h =
     (let h = set_prev node (q_prev h head) h;
          h = set_next node head h;
          h = set_next (q_prev h head) node h
      in set_prev head node h)"

definition IQUEUE_DEL_BETWEEN :: "addr \<Rightarrow> addr \<Rightarrow> qheap \<Rightarrow> qheap" where
  "IQUEUE_DEL_BETWEEN p n h = set_next p n (set_prev n p h)"

definition IQUEUE_DEL :: "addr \<Rightarrow> qheap \<Rightarrow> qheap" where
  "IQUEUE_DEL entry h =
     (let h = set_prev (q_next h entry) (q_prev h entry) h;
          h = set_next (q_prev h entry) (q_next h entry) h;
          h = set_next entry 0 h
      in set_prev entry 0 h)"

definition IQUEUE_DEL_INIT :: "addr \<Rightarrow> qheap \<Rightarrow> qheap" where
  "IQUEUE_DEL_INIT entry h = IQUEUE_INIT entry (IQUEUE_DEL entry h)"

definition IQUEUE_IS_EMPTY :: "addr \<Rightarrow> qheap \<Rightarrow> bool" where
  "IQUEUE_IS_EMPTY entry h \<longleftrightarrow> entry = q_next h entry"

definition iqueue_splice :: "addr \<Rightarrow> addr \<Rightarrow> qheap \<Rightarrow> qheap" where
  "iqueue_splice lst head h =
     (if IQUEUE_IS_EMPTY lst h then h
      else let lfirst = q_next h lst; llast = q_prev h lst; at = q_next h head;
               h = set_prev lfirst head h;
               h = set_next head lfirst h;
               h = set_next llast at h
           in set_prev at llast h)"

definition iqueue_splice_init :: "addr \<Rightarrow> addr \<Rightarrow> qheap \<Rightarrow> qheap" where
  "iqueue_splice_init lst head h = IQUEUE_INIT lst (iqueue_splice lst head h)"

text \<open>
  \<^verbatim>\<open>iqueue_foreach_entry\<close> visits the nodes from \<^verbatim>\<open>head->next\<close> on until it is back at the head.
  On a broken ring it runs forever, so it has fuel; \<open>None\<close> means that the fuel ran out.
\<close>

fun iqueue_foreach_from :: "nat \<Rightarrow> qheap \<Rightarrow> addr \<Rightarrow> addr \<Rightarrow> addr list option" where
  "iqueue_foreach_from 0 h pos head = None"
| "iqueue_foreach_from (Suc fuel) h pos head =
     (if pos = head then Some []
      else map_option (Cons pos) (iqueue_foreach_from fuel h (q_next h pos) head))"

definition iqueue_foreach_entry :: "nat \<Rightarrow> qheap \<Rightarrow> addr \<Rightarrow> addr list option" where
  "iqueue_foreach_entry fuel h head = iqueue_foreach_from fuel h (q_next h head) head"

text \<open>
  The client loops: the body of the loops that move the first entry of one queue to the tail of
  another, and the loop of \<^verbatim>\<open>ikcp_release\<close> that deletes entries until its queue is empty and
  yields them in the order they are freed.
\<close>

definition iqueue_move_first :: "addr \<Rightarrow> addr \<Rightarrow> qheap \<Rightarrow> qheap" where
  "iqueue_move_first from to h =
     (let node = q_next h from in IQUEUE_ADD_TAIL node to (IQUEUE_DEL node h))"

fun iqueue_drain :: "nat \<Rightarrow> addr \<Rightarrow> qheap \<Rightarrow> (addr list \<times> qheap) option" where
  "iqueue_drain 0 head h = None"
| "iqueue_drain (Suc fuel) head h =
     (if IQUEUE_IS_EMPTY head h then Some ([], h)
      else let node = q_next h head
           in map_option (\<lambda>(freed, h'). (node # freed, h'))
                (iqueue_drain fuel head (IQUEUE_DEL node h)))"

section \<open>Rings\<close>

fun qseg :: "qheap \<Rightarrow> addr \<Rightarrow> addr list \<Rightarrow> addr \<Rightarrow> bool" where
  "qseg h a [] b \<longleftrightarrow> q_next h a = b \<and> q_prev h b = a"
| "qseg h a (x # xs) b \<longleftrightarrow> q_next h a = x \<and> q_prev h x = a \<and> qseg h x xs b"

definition qlist :: "qheap \<Rightarrow> addr \<Rightarrow> addr list \<Rightarrow> bool" where
  "qlist h q xs \<longleftrightarrow> distinct (q # xs) \<and> qseg h q xs q"

lemma q_sel [simp]:
  "q_next (set_next a v h) = (q_next h)(a := v)"
  "q_prev (set_next a v h) = q_prev h"
  "q_next (set_prev a v h) = q_next h"
  "q_prev (set_prev a v h) = (q_prev h)(a := v)"
  by (simp_all add: set_next_def set_prev_def)

lemma qseg_append: "qseg h a (xs @ y # ys) b \<longleftrightarrow> qseg h a xs y \<and> qseg h y ys b"
  by (induction xs arbitrary: a) auto

lemma qseg_frame:
  "qseg h a xs b \<Longrightarrow> (\<And>x. x = a \<or> x \<in> set xs \<Longrightarrow> q_next h' x = q_next h x) \<Longrightarrow>
   (\<And>x. x = b \<or> x \<in> set xs \<Longrightarrow> q_prev h' x = q_prev h x) \<Longrightarrow> qseg h' a xs b"
  by (induction xs arbitrary: a) auto

lemma qseg_first: "qseg h a xs b \<Longrightarrow> q_next h a = (case xs of [] \<Rightarrow> b | x # _ \<Rightarrow> x)"
  by (cases xs) auto

lemma qseg_last: "qseg h a xs b \<Longrightarrow> q_prev h b = (if xs = [] then a else last xs)"
  by (induction xs arbitrary: a) auto

lemma qlist_frame:
  "qlist h q xs \<Longrightarrow> (\<And>x. x \<in> set (q # xs) \<Longrightarrow> q_next h' x = q_next h x) \<Longrightarrow>
   (\<And>x. x \<in> set (q # xs) \<Longrightarrow> q_prev h' x = q_prev h x) \<Longrightarrow> qlist h' q xs"
  unfolding qlist_def by (auto elim!: qseg_frame)

lemma qlist_init: "qlist (IQUEUE_INIT q h) q []"
  by (simp add: qlist_def IQUEUE_INIT_def)

lemma qseg_insert:
  assumes "qseg h a [] b" "n \<noteq> a" "n \<noteq> b"
  shows "qseg (IQUEUE_ADD n a h) a [n] b"
  using assms by (auto simp: IQUEUE_ADD_def Let_def)

lemma IQUEUE_ADD_sel:
  assumes "n \<noteq> a" 
  shows "q_next (IQUEUE_ADD n a h) = (q_next h)(n := q_next h a, a := n)"
    "q_prev (IQUEUE_ADD n a h) = (q_prev h)(n := a, q_next h a := n)"
  using assms by (auto simp: IQUEUE_ADD_def Let_def)

lemma IQUEUE_ADD_TAIL_sel:
  assumes "n \<noteq> a" 
  shows "q_next (IQUEUE_ADD_TAIL n a h) = (q_next h)(n := a, q_prev h a := n)"
    "q_prev (IQUEUE_ADD_TAIL n a h) = (q_prev h)(n := q_prev h a, a := n)"
  using assms by (auto simp: IQUEUE_ADD_TAIL_def Let_def)

lemma IQUEUE_DEL_sel:
  assumes "q_next h x \<noteq> x" 
  shows "q_next (IQUEUE_DEL x h) = (q_next h)(q_prev h x := q_next h x, x := 0)"
    "q_prev (IQUEUE_DEL x h) = (q_prev h)(q_next h x := q_prev h x, x := 0)"
  using assms by (auto simp: IQUEUE_DEL_def Let_def)

lemma qlist_add_after:
  assumes "qlist h q (xs @ ys)" "n \<notin> set (q # xs @ ys)" "p = last (q # xs)"
  shows "qlist (IQUEUE_ADD n p h) q (xs @ n # ys)"
proof -
  let ?h = "IQUEUE_ADD n p h"
  have np: "n \<noteq> p"
    using assms(2,3) by (auto split: if_splits)
  show ?thesis
  proof (cases xs rule: rev_cases)
    case Nil
    with assms np show ?thesis
      by (cases ys) (auto simp: qlist_def IQUEUE_ADD_sel elim!: qseg_frame)
  next
    case (snoc zs z)
    with assms(3) have p: "p = z" by simp
    have d: "distinct (q # zs @ z # ys)" and s: "qseg h q zs z" "qseg h z ys q"
      using assms(1) snoc by (auto simp: qlist_def qseg_append)
    have nin: "n \<notin> set (q # zs @ z # ys)"
      using assms(2) snoc by auto
    have "qseg ?h q zs z"
      by (rule qseg_frame [OF s(1)]) (use d nin s(2) p in \<open>cases ys; auto simp: IQUEUE_ADD_sel\<close>)+
    moreover have "qseg ?h z (n # ys) q"
      using s(2) d nin p by (cases ys) (auto simp: IQUEUE_ADD_sel elim!: qseg_frame)
    ultimately show ?thesis
      using d nin snoc by (auto simp: qlist_def qseg_append)
  qed
qed

lemma qlist_add_tail:
  assumes "qlist h q xs" "n \<notin> set (q # xs)"
  shows "qlist (IQUEUE_ADD_TAIL n q h) q (xs @ [n])"
proof -
  have hdp: "q_prev h q = last (q # xs)" "q_next h (last (q # xs)) = q"
    using assms(1) qseg_last[of h q xs q]
    by (auto simp: qlist_def)
     (induction xs rule: rev_induct, auto simp: qseg_append)
  have nh: "n \<noteq> q" "n \<noteq> last (q # xs)" 
    using assms(2) by (auto split: if_splits)
  have "IQUEUE_ADD_TAIL n q h = IQUEUE_ADD n (last (q # xs)) h"
    using nh hdp by (auto simp: qheap.equality IQUEUE_ADD_sel IQUEUE_ADD_TAIL_sel fun_eq_iff
       intro!: qheap.equality)
  then show ?thesis
    using qlist_add_after [of h q xs "[]" n] assms by simp
qed

lemma qlist_del:
  assumes "qlist h q (xs @ x # ys)"
  shows "qlist (IQUEUE_DEL x h) q (xs @ ys)"
proof -
  let ?h = "IQUEUE_DEL x h"
  have d: "distinct (q # xs @ x # ys)" and s: "qseg h q xs x" "qseg h x ys q"
    using assms by (auto simp: qlist_def qseg_append)
  have nx: "q_next h x \<noteq> x"
    using d s(2) by (cases ys) auto
  note sel = IQUEUE_DEL_sel [OF nx]
  have prv: "q_prev h x = last (q # xs)" using qseg_last [OF s(1)] by simp
  have nxt: "q_next h x = (case ys of [] \<Rightarrow> q | y # _ \<Rightarrow> y)" using qseg_first [OF s(2)] .
  show ?thesis
  proof (cases xs rule: rev_cases)
    case Nil
    with d s nx show ?thesis
      by (cases ys) (auto simp: qlist_def IQUEUE_DEL_sel elim!: qseg_frame)
  next
    case (snoc zs z)
    have s': "qseg h q zs z" "q_next h z = x" "q_prev h x = z"
      using s(1) snoc by (auto simp: qseg_append)
    have "qseg ?h q zs z"
      by (rule qseg_frame [OF s'(1)]) (use d snoc nxt s' in \<open>auto simp: sel split: list.splits\<close>)
    moreover have "qseg ?h z ys q"
      using s(2) s' d snoc nx by (cases ys) (auto simp: IQUEUE_DEL_sel elim!: qseg_frame)
    ultimately show ?thesis
      using d snoc by (auto simp: qlist_def qseg_append)
  qed
qed

section \<open>The contract of the queues, and its clients\<close>

text \<open>
  \<open>ring h q xs\<close>: in heap \<open>h\<close>, the queue of head \<open>q\<close> holds the entries \<open>xs\<close>. The last two laws say
  that an operation on one queue leaves every disjoint queue as it is.
\<close>

locale intrusive_queue =
  fixes ring :: "'h \<Rightarrow> 'a \<Rightarrow> 'a list \<Rightarrow> bool"
    and add_tail :: "'a \<Rightarrow> 'a \<Rightarrow> 'h \<Rightarrow> 'h"
    and del :: "'a \<Rightarrow> 'h \<Rightarrow> 'h"
    and is_empty :: "'a \<Rightarrow> 'h \<Rightarrow> bool"
    and first :: "'a \<Rightarrow> 'h \<Rightarrow> 'a"
  assumes ring_distinct: "ring h q xs \<Longrightarrow> distinct (q # xs)"
    and ring_empty: "ring h q xs \<Longrightarrow> is_empty q h \<longleftrightarrow> xs = []"
    and ring_first: "ring h q (x # xs) \<Longrightarrow> first q h = x"
    and ring_add: "ring h q xs \<Longrightarrow> n \<notin> set (q # xs) \<Longrightarrow> ring (add_tail n q h) q (xs @ [n])"
    and ring_del: "ring h q (xs @ x # ys) \<Longrightarrow> ring (del x h) q (xs @ ys)"
    and frame_add: "ring h q xs \<Longrightarrow> ring h p ys \<Longrightarrow> set (q # xs) \<inter> set (p # ys) = {} \<Longrightarrow>
      n \<notin> set (p # ys) \<Longrightarrow> n \<notin> set (q # xs) \<Longrightarrow> ring (add_tail n q h) p ys"
    and frame_del: "ring h q (xs @ x # ys) \<Longrightarrow> ring h p zs \<Longrightarrow>
      set (q # xs @ x # ys) \<inter> set (p # zs) = {} \<Longrightarrow> ring (del x h) p zs"
begin

lemma pop_first:
  assumes "ring h q (x # xs)"
  shows "ring (del (first q h) h) q xs"
  using ring_del [of h q "[]" x xs] assms by (simp add: ring_first)

lemma move_first:
  assumes "ring h p (x # xs)" "ring h q ys" "set (p # x # xs) \<inter> set (q # ys) = {}"
  shows "ring (add_tail (first p h) q (del (first p h) h)) p xs"
    and "ring (add_tail (first p h) q (del (first p h) h)) q (ys @ [x])"
proof -
  have x: "first p h = x" using assms(1) by (rule ring_first)
  have d: "distinct (p # x # xs)" using assms(1) by (rule ring_distinct)
  have p: "ring (del x h) p xs" using pop_first [OF assms(1)] x by simp
  have q: "ring (del x h) q ys" using frame_del [of h p "[]" x xs q ys] assms by simp
  show "ring (add_tail (first p h) q (del (first p h) h)) p xs"
    unfolding x by (rule frame_add [OF q p]) (use assms(3) d in auto)
  show "ring (add_tail (first p h) q (del (first p h) h)) q (ys @ [x])"
    unfolding x by (rule ring_add [OF q]) (use assms(3) in auto)
qed

lemma move_first_frame:
  assumes "ring h p (x # xs)" "ring h q ys" "ring h r zs"
    and "set (p # x # xs) \<inter> set (q # ys) = {}" "set (r # zs) \<inter> set (p # x # xs @ q # ys) = {}"
  shows "ring (add_tail (first p h) q (del (first p h) h)) r zs"
proof -
  have x: "first p h = x" using assms(1) by (rule ring_first)
  have q: "ring (del x h) q ys" using frame_del [of h p "[]" x xs q ys] assms by simp
  have r: "ring (del x h) r zs" using frame_del [of h p "[]" x xs r zs] assms by auto
  show ?thesis
    unfolding x by (rule frame_add [OF q r]) (use assms(4,5) in auto)
qed

lemma pop_many:
  "ring h q xs \<Longrightarrow> k \<le> length xs \<Longrightarrow> ring (((\<lambda>h. del (first q h) h) ^^ k) h) q (drop k xs)"
proof (induction k arbitrary: h xs)
  case (Suc k)
  then obtain x xs' where xs: "xs = x # xs'" by (cases xs) auto
  have "ring (del (first q h) h) q xs'" using Suc.prems(1) xs by (auto intro: pop_first)
  then show ?case
    using Suc.IH [of "del (first q h) h" xs'] Suc.prems(2) xs
    by (simp del: funpow.simps add: funpow_Suc_right)
qed simp

lemma move_many:
  assumes "ring h p xs" "ring h q ys" "set (p # xs) \<inter> set (q # ys) = {}" "k \<le> length xs"
  shows "ring (((\<lambda>h. add_tail (first p h) q (del (first p h) h)) ^^ k) h) p (drop k xs) \<and>
    ring (((\<lambda>h. add_tail (first p h) q (del (first p h) h)) ^^ k) h) q (ys @ take k xs)"
  using assms
proof (induction k arbitrary: h xs ys)
  case (Suc k)
  then obtain x xs' where xs: "xs = x # xs'" by (cases xs) auto
  let ?h = "add_tail (first p h) q (del (first p h) h)"
  have d: "set (p # xs') \<inter> set (q # ys @ [x]) = {}"
    using Suc.prems(3) ring_distinct [OF Suc.prems(1)] xs by auto
  have "ring ?h p xs'" "ring ?h q (ys @ [x])"
    using move_first [of h p x xs' q ys] Suc.prems(1,2,3) xs by auto
  from Suc.IH [OF this d] Suc.prems(4) xs show ?case
    by (simp del: funpow.simps add: funpow_Suc_right)
qed simp

end

section \<open>The macros keep the contract\<close>

lemma qlist_disjoint_add:
  assumes "qlist h q xs" "qlist h p ys" "set (q # xs) \<inter> set (p # ys) = {}" "n \<notin> set (p # ys)"
    and "n \<notin> set (q # xs)"
  shows "qlist (IQUEUE_ADD_TAIL n q h) p ys"
proof -
  have "q_prev h q \<in> set (q # xs)" using qseg_last [of h q xs q] assms(1) by (auto simp: qlist_def)
  with assms show ?thesis
    by (intro qlist_frame [OF assms(2)]) (auto simp: IQUEUE_ADD_TAIL_sel)
qed

lemma qlist_disjoint_del:
  assumes "qlist h q (xs @ x # ys)" "qlist h p zs" "set (q # xs @ x # ys) \<inter> set (p # zs) = {}"
  shows "qlist (IQUEUE_DEL x h) p zs"
proof -
  have s: "qseg h q xs x" "qseg h x ys q" and d: "distinct (q # xs @ x # ys)"
    using assms(1) by (auto simp: qlist_def qseg_append)
  have nx: "q_next h x \<noteq> x" using d s(2) by (cases ys) auto
  have "q_next h x \<in> set (q # ys)" "q_prev h x \<in> set (q # xs)"
    using qseg_first [OF s(2)] qseg_last [OF s(1)] by (auto split: list.splits)
  with assms(3) nx show ?thesis
    by (intro qlist_frame [OF assms(2)]) (auto simp: IQUEUE_DEL_sel)
qed

interpretation iq: intrusive_queue qlist IQUEUE_ADD_TAIL IQUEUE_DEL IQUEUE_IS_EMPTY
  "\<lambda>q h. q_next h q"
proof
  show "distinct (q # xs)" if "qlist h q xs" for h q xs
    using that by (simp add: qlist_def)
  show "IQUEUE_IS_EMPTY q h \<longleftrightarrow> xs = []" if "qlist h q xs" for h q xs
    using that by (cases xs) (auto simp: qlist_def IQUEUE_IS_EMPTY_def)
  show "q_next h q = x" if "qlist h q (x # xs)" for h q x xs
    using that by (simp add: qlist_def)
qed (rule qlist_add_tail qlist_del qlist_disjoint_add qlist_disjoint_del; assumption)+

section \<open>Client loops\<close>

lemma qlist_foreach_from:
  "qseg h a xs q \<Longrightarrow> q \<notin> set xs \<Longrightarrow> length xs < fuel \<Longrightarrow>
   iqueue_foreach_from fuel h (q_next h a) q = Some xs"
proof (induction xs arbitrary: a fuel)
  case Nil
  then show ?case by (cases fuel) auto
next
  case (Cons x xs)
  then obtain f where "fuel = Suc f" by (cases fuel) auto
  with Cons show ?case by auto
qed

lemma iqueue_foreach_qlist:
  "qlist h q xs \<Longrightarrow> length xs < fuel \<Longrightarrow> iqueue_foreach_entry fuel h q = Some xs"
  unfolding iqueue_foreach_entry_def qlist_def by (auto intro: qlist_foreach_from)

lemma iqueue_drain_qlist:
  "qlist h q xs \<Longrightarrow> length xs < fuel \<Longrightarrow>
   \<exists>h'. iqueue_drain fuel q h = Some (xs, h') \<and> qlist h' q []"
proof (induction fuel arbitrary: h xs)
  case (Suc fuel)
  show ?case
  proof (cases xs)
    case Nil
    with Suc.prems show ?thesis by (simp add: iq.ring_empty)
  next
    case (Cons x xs')
    have "qlist (IQUEUE_DEL (q_next h q) h) q xs'"
      using iq.pop_first [of h q x xs'] Suc.prems(1) Cons by simp
    from Suc.IH [OF this] Suc.prems Cons show ?thesis
      using iq.ring_empty [OF Suc.prems(1)] iq.ring_first [of h q x xs'] by auto
  qed
qed simp

lemma last_notin_butlast: "distinct xs \<Longrightarrow> xs \<noteq> [] \<Longrightarrow> last xs \<notin> set (butlast xs)"
  by (cases xs rule: rev_cases) auto

lemma hd_notin_tl: "distinct xs \<Longrightarrow> xs \<noteq> [] \<Longrightarrow> hd xs \<notin> set (tl xs)"
  by (cases xs) auto

lemma qseg_relink:
  assumes "qseg h a xs b" "xs \<noteq> []" "distinct xs"
    and "\<And>x. x \<in> set (butlast xs) \<Longrightarrow> q_next h' x = q_next h x"
    and "\<And>x. x \<in> set (tl xs) \<Longrightarrow> q_prev h' x = q_prev h x"
    and "q_next h' a' = hd xs" "q_prev h' (hd xs) = a'" "q_next h' (last xs) = b'"
    and "q_prev h' b' = last xs"
  shows "qseg h' a' xs b'"
  using assms
proof (induction xs arbitrary: a a')
  case (Cons x xs)
  show ?case
  proof (cases xs)
    case Nil
    with Cons.prems show ?thesis by simp
  next
    case (Cons y ys)
    have n: "q_next h' x = y"
      using Cons.prems(4) [of x] Cons.prems(1) \<open>xs = y # ys\<close> by simp
    have p: "q_prev h' y = x"
      using Cons.prems(5) [of y] Cons.prems(1) \<open>xs = y # ys\<close> by simp
    have "qseg h' x xs b'"
    proof (rule Cons.IH [of x])
      show "qseg h x xs b" "distinct xs" "xs \<noteq> []"
        using Cons.prems(1,3) \<open>xs = y # ys\<close> by simp_all
      show "q_next h' (last xs) = b'" "q_prev h' b' = last xs"
        using Cons.prems(8,9) \<open>xs = y # ys\<close> by simp_all
      show "q_next h' x = hd xs" "q_prev h' (hd xs) = x"
        using n p \<open>xs = y # ys\<close> by simp_all
      show "q_next h' z = q_next h z" if "z \<in> set (butlast xs)" for z
        using Cons.prems(4) [of z] that \<open>xs = y # ys\<close> by simp
      show "q_prev h' z = q_prev h z" if "z \<in> set (tl xs)" for z
        using Cons.prems(5) [of z] that \<open>xs = y # ys\<close> by simp
    qed
    with Cons.prems(6,7) n p \<open>xs = y # ys\<close> show ?thesis by simp
  qed
qed simp

lemma iqueue_splice_init_sel:
  assumes "qlist h l xs" "qlist h q ys" "set (l # xs) \<inter> set (q # ys) = {}" "xs \<noteq> []"
  shows "q_next (iqueue_splice_init l q h) = (q_next h)(q := hd xs, last xs := q_next h q, l := l)"
    and "q_prev (iqueue_splice_init l q h) = (q_prev h)(hd xs := q, q_next h q := last xs, l := l)"
proof -
  have s: "qseg h l xs l" "qseg h q ys q" using assms(1,2) by (auto simp: qlist_def)
  have "q_prev h l = last xs" "q_next h l = hd xs"
    using qseg_last [OF s(1)] qseg_first [OF s(1)] assms(4) by (auto split: list.splits)
  moreover have "\<not> IQUEUE_IS_EMPTY l h" using iq.ring_empty [OF assms(1)] assms(4) by simp
  ultimately show "q_next (iqueue_splice_init l q h) = (q_next h)(q := hd xs, last xs := q_next h q, l := l)"
    and "q_prev (iqueue_splice_init l q h) = (q_prev h)(hd xs := q, q_next h q := last xs, l := l)"
    using assms(3,4) by (auto simp: iqueue_splice_init_def iqueue_splice_def IQUEUE_INIT_def Let_def)
qed

lemma qlist_splice:
  assumes "qlist h l xs" "qlist h q ys" "set (l # xs) \<inter> set (q # ys) = {}"
  shows "qlist (iqueue_splice_init l q h) q (xs @ ys)"
proof (cases "xs = []")
  case True
  then have "iqueue_splice l q h = h"
    using iq.ring_empty [OF assms(1)] by (simp add: iqueue_splice_def)
  with True assms(2,3) show ?thesis
    by (auto simp: iqueue_splice_init_def IQUEUE_INIT_def intro!: qlist_frame [OF assms(2)])
next
  case False
  let ?h = "iqueue_splice_init l q h"
  have d: "distinct (l # xs)" "distinct (q # ys)" and s: "qseg h l xs l" "qseg h q ys q"
    using assms(1,2) by (auto simp: qlist_def)
  note sel = iqueue_splice_init_sel [OF assms False]
  have ends: "hd xs \<in> set xs" "last xs \<in> set xs" "last xs \<notin> set (butlast xs)" "hd xs \<notin> set (tl xs)"
    using False d(1) by (simp_all add: last_notin_butlast hd_notin_tl)
  have w: "q_next h q = (case ys of [] \<Rightarrow> q | y # _ \<Rightarrow> y)" by (rule qseg_first [OF s(2)])
  have inb: "x \<in> set xs" if "x \<in> set (butlast xs) \<or> x \<in> set (tl xs)" for x
    using that by (auto dest: in_set_butlastD list.set_sel(2) [OF False])
  have wn: "q_next h q \<notin> set (l # xs)"
    using w assms(3) by (auto split: list.splits)
  have lq: "l \<noteq> q" "l \<notin> set xs" "q \<notin> set xs"
    using assms(3) d(1) by auto
  have link: "qseg ?h q xs (q_next h q)"
  proof (rule qseg_relink [OF s(1) False])
    show "distinct xs" using d(1) by simp
    show "q_next ?h x = q_next h x" if "x \<in> set (butlast xs)" for x
      using that inb [of x] ends(3) lq by (simp only: sel) (simp, metis)
    show "q_prev ?h x = q_prev h x" if "x \<in> set (tl xs)" for x
      using that inb [of x] ends(4) lq wn by (simp only: sel) (simp, metis)
    show "q_next ?h q = hd xs" "q_next ?h (last xs) = q_next h q"
      using lq ends(1,2) by (simp_all only: sel) (simp, metis)+
    show "q_prev ?h (hd xs) = q" "q_prev ?h (q_next h q) = last xs"
      using lq ends(1,2) wn by (auto simp: sel)
  qed
  show ?thesis
  proof (cases ys)
    case Nil
    with link w d assms(3) show ?thesis by (simp add: qlist_def)
  next
    case (Cons y ys')
    have y: "qseg h y ys' q" "q_next h q = y" using s(2) Cons by simp_all
    have "qseg ?h y ys' q"
    proof (rule qseg_frame [OF y(1)])
      show "q_next ?h z = q_next h z" if "z = y \<or> z \<in> set ys'" for z
        using that d(2) lq ends(2) assms(3) Cons unfolding sel by auto
      show "q_prev ?h z = q_prev h z" if "z = q \<or> z \<in> set ys'" for z
        using that d(2) lq ends(1) assms(3) Cons unfolding sel y(2) by auto
    qed
    with link w Cons d assms(3) show ?thesis by (auto simp: qlist_def qseg_append)
  qed
qed

section \<open>A concrete heap\<close>

definition demo_heap :: qheap where
  "demo_heap = IQUEUE_ADD_TAIL 5 1 (IQUEUE_ADD_TAIL 4 1 (IQUEUE_ADD_TAIL 3 1 (IQUEUE_INIT 2 (IQUEUE_INIT 1
     \<lparr>q_next = (\<lambda>_. 0), q_prev = (\<lambda>_. 0)\<rparr>))))"

lemma demo_heap_lists: "qlist demo_heap 1 [3, 4, 5]" "qlist demo_heap 2 []"
  by (simp_all add: demo_heap_def qlist_def IQUEUE_ADD_TAIL_def IQUEUE_INIT_def Let_def)

end
