(* ===== verification/Ikcp_Types.thy ===== *)
theory Ikcp_Types
  imports Prelude
begin

text \<open>
  The data of \<^verbatim>\<open>kcp/ikcp.h\<close> and \<^verbatim>\<open>kcp/ikcp.c\<close>: the protocol constants, the segment
  \<^verbatim>\<open>IKCPSEG\<close>, the control block \<^verbatim>\<open>IKCPCB\<close>, its creation, its configuration calls and its
  release. Field names are the source's with the prefix \<open>s_\<close> (segment) or \<open>k_\<close> (control block).

  The four intrusive queues are lists of segments here, first element first; the theory
  \<open>Iqueue\<close> models the pointer macros and shows that they implement these lists.
  The payload bytes that follow a segment are its \<open>s_data\<close>. What the code reads from
  memory that \<^verbatim>\<open>malloc\<close> just returned is arbitrary, so it comes in as an argument
  (\<open>fresh_mem\<close>), and whether \<^verbatim>\<open>malloc\<close> succeeds is an argument too.
\<close>

section \<open>Constants\<close>

definition IKCP_RTO_NDL :: u32 where "IKCP_RTO_NDL = 30"
definition IKCP_RTO_MIN :: u32 where "IKCP_RTO_MIN = 100"
definition IKCP_RTO_DEF :: u32 where "IKCP_RTO_DEF = 200"
definition IKCP_RTO_MAX :: u32 where "IKCP_RTO_MAX = 60000"
definition IKCP_CMD_PUSH :: u32 where "IKCP_CMD_PUSH = 81"
definition IKCP_CMD_ACK :: u32 where "IKCP_CMD_ACK = 82"
definition IKCP_CMD_WASK :: u32 where "IKCP_CMD_WASK = 83"
definition IKCP_CMD_WINS :: u32 where "IKCP_CMD_WINS = 84"
definition IKCP_ASK_SEND :: u32 where "IKCP_ASK_SEND = 1"
definition IKCP_ASK_TELL :: u32 where "IKCP_ASK_TELL = 2"
definition IKCP_WND_SND :: u32 where "IKCP_WND_SND = 32"
definition IKCP_WND_RCV :: u32 where "IKCP_WND_RCV = 32"
definition IKCP_MTU_DEF :: u32 where "IKCP_MTU_DEF = 1400"
definition IKCP_INTERVAL :: u32 where "IKCP_INTERVAL = 100"
definition IKCP_OVERHEAD :: u32 where "IKCP_OVERHEAD = 24"
definition IKCP_DEADLINK :: u32 where "IKCP_DEADLINK = 10"
definition IKCP_THRESH_INIT :: u32 where "IKCP_THRESH_INIT = 2"
definition IKCP_THRESH_MIN :: u32 where "IKCP_THRESH_MIN = 2"
definition IKCP_PROBE_INIT :: u32 where "IKCP_PROBE_INIT = 7000"
definition IKCP_PROBE_LIMIT :: u32 where "IKCP_PROBE_LIMIT = 120000"

lemmas ikcp_consts = IKCP_RTO_NDL_def IKCP_RTO_MIN_def IKCP_RTO_DEF_def IKCP_RTO_MAX_def
  IKCP_CMD_PUSH_def IKCP_CMD_ACK_def IKCP_CMD_WASK_def IKCP_CMD_WINS_def
  IKCP_ASK_SEND_def IKCP_ASK_TELL_def IKCP_WND_SND_def IKCP_WND_RCV_def IKCP_MTU_DEF_def
  IKCP_INTERVAL_def IKCP_OVERHEAD_def IKCP_DEADLINK_def IKCP_THRESH_INIT_def
  IKCP_THRESH_MIN_def IKCP_PROBE_INIT_def IKCP_PROBE_LIMIT_def

section \<open>Segments and control block\<close>

record iseg =
  s_conv :: u32
  s_cmd :: u32
  s_frg :: u32
  s_wnd :: u32
  s_ts :: u32
  s_sn :: u32
  s_una :: u32
  s_len :: u32
  s_resendts :: u32
  s_rto :: u32
  s_fastack :: u32
  s_xmit :: u32
  s_data :: "u8 list"

text \<open>
  \<open>k_acklist\<close> is the flat array the code allocates (\<open>None\<close>: a null pointer), \<open>k_buffer\<close>
  the number of bytes allocated for the output buffer, \<open>k_user\<close> the opaque pointer, and
  \<open>k_output\<close> and \<open>k_writelog\<close> say whether the callback is set.
\<close>

record ikcpcb =
  k_conv :: u32
  k_mtu :: u32
  k_mss :: u32
  k_state :: u32
  k_snd_una :: u32
  k_snd_nxt :: u32
  k_rcv_nxt :: u32
  k_ts_recent :: u32
  k_ts_lastack :: u32
  k_ssthresh :: u32
  k_rx_rttval :: int
  k_rx_srtt :: int
  k_rx_rto :: int
  k_rx_minrto :: int
  k_snd_wnd :: u32
  k_rcv_wnd :: u32
  k_rmt_wnd :: u32
  k_cwnd :: u32
  k_probe :: u32
  k_current :: u32
  k_interval :: u32
  k_ts_flush :: u32
  k_xmit :: u32
  k_nrcv_buf :: u32
  k_nsnd_buf :: u32
  k_nrcv_que :: u32
  k_nsnd_que :: u32
  k_nodelay :: u32
  k_updated :: u32
  k_ts_probe :: u32
  k_probe_wait :: u32
  k_dead_link :: u32
  k_incr :: u32
  k_snd_queue :: "iseg list"
  k_rcv_queue :: "iseg list"
  k_snd_buf :: "iseg list"
  k_rcv_buf :: "iseg list"
  k_acklist :: "u32 list option"
  k_ackcount :: u32
  k_ackblock :: u32
  k_user :: nat
  k_buffer :: "nat option"
  k_fastresend :: int
  k_nocwnd :: int
  k_logmask :: int
  k_output :: bool
  k_writelog :: bool

end
