(* ===== verification/Ikcp_Codec.thy ===== *)
theory Ikcp_Codec
  imports Ikcp_Types
begin

text \<open>
  The byte level of \<^verbatim>\<open>kcp/ikcp.c\<close>: the integer encoders and decoders (lines 48 to 113), the
  unsigned helpers and the time difference (115 to 129), the segment header (847 to 860 and
  the decoding steps of \<^verbatim>\<open>ikcp_input\<close>, 727 to 737) and the packet accessors
  \<^verbatim>\<open>ikcp_get_conv\<close> and \<^verbatim>\<open>ikcp_set_conv\<close> (1261 to 1276).

  An encoder returns the bytes it stores at \<^verbatim>\<open>p\<close>; a decoder takes the bytes from \<^verbatim>\<open>p\<close> on and
  returns the value and the bytes from the advanced pointer on. The code has one branch for
  big-endian hosts, which picks the bytes with shifts, and one that stores the integer as the
  host does; both are here (the second on a little-endian host), and they produce the same
  bytes. The interface the rest of the development uses is the locale \<open>codec\<close>: a fixed
  width, and decoding what was encoded gives the value back.
\<close>

unbundle bit_operations_syntax

section \<open>Integer encoding\<close>

definition host_store :: "nat \<Rightarrow> 'a::len word \<Rightarrow> u8 list" where
  "host_store n w = map (\<lambda>i. ucast (drop_bit (8 * i) w)) [0..<n]"

definition host_load :: "u8 list \<Rightarrow> 'a::len word" where
  "host_load bs = foldr (\<lambda>b v. ucast b OR push_bit 8 v) bs 0"

definition ikcp_encode8u :: "u8 \<Rightarrow> u8 list" where
  "ikcp_encode8u c = [c]"

definition ikcp_decode8u :: "u8 list \<Rightarrow> u8 \<times> u8 list" where
  "ikcp_decode8u p = (hd p, tl p)"

definition ikcp_encode16u :: "u16 \<Rightarrow> u8 list" where
  "ikcp_encode16u w = host_store 2 w"

definition ikcp_encode16u_big :: "u16 \<Rightarrow> u8 list" where
  "ikcp_encode16u_big w = [ucast (w AND 255), ucast (drop_bit 8 w)]"

definition ikcp_decode16u :: "u8 list \<Rightarrow> u16 \<times> u8 list" where
  "ikcp_decode16u p = (host_load (take 2 p), drop 2 p)"

definition ikcp_decode16u_big :: "u8 list \<Rightarrow> u16 \<times> u8 list" where
  "ikcp_decode16u_big p =
     (let w = ucast (p ! 1) :: u16; w = ucast (p ! 0) + push_bit 8 w in (w, drop 2 p))"

definition ikcp_encode32u :: "u32 \<Rightarrow> u8 list" where
  "ikcp_encode32u l = host_store 4 l"

definition ikcp_encode32u_big :: "u32 \<Rightarrow> u8 list" where
  "ikcp_encode32u_big l =
     [ucast (drop_bit 0 l AND 0xff), ucast (drop_bit 8 l AND 0xff),
      ucast (drop_bit 16 l AND 0xff), ucast (drop_bit 24 l AND 0xff)]"

definition ikcp_decode32u :: "u8 list \<Rightarrow> u32 \<times> u8 list" where
  "ikcp_decode32u p = (host_load (take 4 p), drop 4 p)"

definition ikcp_decode32u_big :: "u8 list \<Rightarrow> u32 \<times> u8 list" where
  "ikcp_decode32u_big p =
     (let l = ucast (p ! 3) :: u32;
          l = ucast (p ! 2) + push_bit 8 l;
          l = ucast (p ! 1) + push_bit 8 l;
          l = ucast (p ! 0) + push_bit 8 l
      in (l, drop 4 p))"

section \<open>Comparisons and time differences\<close>

definition imin :: "u32 \<Rightarrow> u32 \<Rightarrow> u32" where
  "imin a b = (if a \<le> b then a else b)"

definition imax :: "u32 \<Rightarrow> u32 \<Rightarrow> u32" where
  "imax a b = (if b \<le> a then a else b)"

definition ibound :: "u32 \<Rightarrow> u32 \<Rightarrow> u32 \<Rightarrow> u32" where
  "ibound lower middle upper = imin (imax lower middle) upper"

definition itimediff :: "u32 \<Rightarrow> u32 \<Rightarrow> int" where
  "itimediff later earlier = sint (later - earlier)"

section \<open>The segment header\<close>

record wire_hdr =
  h_conv :: u32
  h_cmd :: u8
  h_frg :: u8
  h_wnd :: u16
  h_ts :: u32
  h_sn :: u32
  h_una :: u32
  h_len :: u32

definition ikcp_encode_seg :: "iseg \<Rightarrow> u8 list" where
  "ikcp_encode_seg seg =
     ikcp_encode32u (s_conv seg) @
     ikcp_encode8u (ucast (s_cmd seg)) @
     ikcp_encode8u (ucast (s_frg seg)) @
     ikcp_encode16u (ucast (s_wnd seg)) @
     ikcp_encode32u (s_ts seg) @
     ikcp_encode32u (s_sn seg) @
     ikcp_encode32u (s_una seg) @
     ikcp_encode32u (s_len seg)"

definition decode_hdr :: "u8 list \<Rightarrow> wire_hdr \<times> u8 list" where
  "decode_hdr data =
     (let (conv, data) = ikcp_decode32u data;
          (cmd, data) = ikcp_decode8u data;
          (frg, data) = ikcp_decode8u data;
          (wnd, data) = ikcp_decode16u data;
          (ts, data) = ikcp_decode32u data;
          (sn, data) = ikcp_decode32u data;
          (una, data) = ikcp_decode32u data;
          (len, data) = ikcp_decode32u data
      in (\<lparr>h_conv = conv, h_cmd = cmd, h_frg = frg, h_wnd = wnd,
           h_ts = ts, h_sn = sn, h_una = una, h_len = len\<rparr>, data))"

definition hdr_of_seg :: "iseg \<Rightarrow> wire_hdr" where
  "hdr_of_seg seg =
     \<lparr>h_conv = s_conv seg, h_cmd = ucast (s_cmd seg), h_frg = ucast (s_frg seg),
      h_wnd = ucast (s_wnd seg), h_ts = s_ts seg, h_sn = s_sn seg, h_una = s_una seg,
      h_len = s_len seg\<rparr>"

definition encode_hdr :: "wire_hdr \<Rightarrow> u8 list" where
  "encode_hdr h =
     ikcp_encode32u (h_conv h) @ ikcp_encode8u (h_cmd h) @ ikcp_encode8u (h_frg h) @
     ikcp_encode16u (h_wnd h) @ ikcp_encode32u (h_ts h) @ ikcp_encode32u (h_sn h) @
     ikcp_encode32u (h_una h) @ ikcp_encode32u (h_len h)"

section \<open>Packet accessors\<close>

text \<open>
  \<^verbatim>\<open>ikcp_get_conv\<close> and \<^verbatim>\<open>ikcp_set_conv\<close>: \<open>None\<close> is a null \<^verbatim>\<open>data\<close> pointer, and \<open>size\<close> the number
  of bytes. The comparison \<^verbatim>\<open>size < sizeof(...)\<close> is unsigned, so a negative size passes it; a
  list has no negative length, and the callers in \<^verbatim>\<open>src/\<close> pass the length of the datagram.
\<close>

definition ikcp_get_conv :: "u8 list option \<Rightarrow> int \<times> u32 option" where
  "ikcp_get_conv data =
     (case data of
        None \<Rightarrow> (-1, None)
      | Some d \<Rightarrow> if length d < 4 then (-1, None) else (0, Some (fst (ikcp_decode32u d))))"

definition ikcp_set_conv :: "u8 list option \<Rightarrow> u32 \<Rightarrow> int \<times> u8 list option" where
  "ikcp_set_conv data conv =
     (case data of
        None \<Rightarrow> (-1, None)
      | Some d \<Rightarrow> if length d < 4 then (-1, Some d)
                  else (0, Some (ikcp_encode32u conv @ drop 4 d)))"

section \<open>The codec interface\<close>

locale codec =
  fixes enc :: "'a \<Rightarrow> u8 list"
    and dec :: "u8 list \<Rightarrow> 'a \<times> u8 list"
    and width :: nat
  assumes enc_length: "length (enc x) = width"
    and dec_enc: "dec (enc x @ rest) = (x, rest)"
begin

lemma enc_inject: "enc x = enc y \<Longrightarrow> x = y"
  using dec_enc [of x "[]"] dec_enc [of y "[]"] by simp

lemma enc_append_inject: "enc x @ r = enc y @ s \<Longrightarrow> x = y \<and> r = s"
  by (metis dec_enc prod.inject)

lemma drop_enc: "drop width (enc x @ rest) = rest"
  by (simp add: enc_length)

lemma length_enc_concat: "length (concat (map enc xs)) = width * length xs"
  by (induction xs) (simp_all add: enc_length)

end

section \<open>The integer codecs\<close>

lemma length_host_store [simp]: "length (host_store n w) = n"
  by (simp add: host_store_def)

lemma host_load_store_16: "host_load (host_store 2 w) = (w :: u16)"
  by (rule bit_word_eqI) (auto simp: host_load_def host_store_def bit_simps upt_rec)

lemma host_load_store_32: "host_load (host_store 4 l) = (l :: u32)"
proof (rule bit_word_eqI)
  fix n assume "n < LENGTH(32)"
  then consider "n < 8" | "8 \<le> n" "n < 16" | "16 \<le> n" "n < 24" | "24 \<le> n" "n < 32"
    by fastforce
  then show "bit (host_load (host_store 4 l) :: u32) n = bit l n"
    by cases (auto simp: host_load_def host_store_def bit_simps upt_rec)
qed

interpretation c8: codec ikcp_encode8u ikcp_decode8u 1
  by unfold_locales (simp_all add: ikcp_encode8u_def ikcp_decode8u_def)

interpretation c16: codec ikcp_encode16u ikcp_decode16u 2
  by unfold_locales (simp_all add: ikcp_encode16u_def ikcp_decode16u_def host_load_store_16)

interpretation c32: codec ikcp_encode32u ikcp_decode32u 4
  by unfold_locales (simp_all add: ikcp_encode32u_def ikcp_decode32u_def host_load_store_32)

interpretation chdr: codec encode_hdr decode_hdr 24
proof
  show "length (encode_hdr h) = 24" for h
    by (simp add: encode_hdr_def c8.enc_length c16.enc_length c32.enc_length)
  show "decode_hdr (encode_hdr h @ rest) = (h, rest)" for h rest
    by (simp add: encode_hdr_def decode_hdr_def c8.dec_enc c16.dec_enc c32.dec_enc)
qed

lemma encode_seg_hdr: "ikcp_encode_seg seg = encode_hdr (hdr_of_seg seg)"
  by (simp add: ikcp_encode_seg_def encode_hdr_def hdr_of_seg_def)

lemma length_encode_seg [simp]: "length (ikcp_encode_seg seg) = 24"
  by (simp add: encode_seg_hdr chdr.enc_length)

lemma decode_encode_seg: "decode_hdr (ikcp_encode_seg seg @ rest) = (hdr_of_seg seg, rest)"
  by (simp add: encode_seg_hdr chdr.dec_enc)

lemma snd_decode_hdr [simp]: "snd (decode_hdr data) = drop 24 data"
  by (simp add: decode_hdr_def ikcp_decode32u_def ikcp_decode8u_def ikcp_decode16u_def
      split_beta Let_def drop_Suc [symmetric] drop_drop flip: drop_Suc)

section \<open>The two byte orders\<close>

lemma encode16u_big_eq: "ikcp_encode16u_big w = ikcp_encode16u w"
  by (auto simp: ikcp_encode16u_big_def ikcp_encode16u_def host_store_def upt_rec mask_255
      intro!: bit_word_eqI) (auto simp: bit_simps)

lemma encode32u_big_eq: "ikcp_encode32u_big w = ikcp_encode32u w"
  by (auto simp: ikcp_encode32u_big_def ikcp_encode32u_def host_store_def upt_rec mask_255
      intro!: bit_word_eqI) (auto simp: bit_simps)

lemma word_plus_shift_or:
  "(ucast (b :: u8) :: 'a::len word) + push_bit 8 v = ucast b OR push_bit 8 v"
  by (rule disjunctive_add) (auto simp: bit_simps dest: bit_imp_le_length)

lemma decode16u_big_eq: "2 \<le> length p \<Longrightarrow> ikcp_decode16u_big p = ikcp_decode16u p"
  by (cases p; cases "tl p")
    (auto simp: ikcp_decode16u_big_def ikcp_decode16u_def host_load_def word_plus_shift_or)

lemma list_of_length_4: "4 \<le> length p \<Longrightarrow> \<exists>a b c d q. p = a # b # c # d # q"
  by (auto simp: Suc_le_length_iff numeral_eq_Suc)

lemma decode32u_big_eq:
  assumes "4 \<le> length p"
  shows "ikcp_decode32u_big p = ikcp_decode32u p"
proof -
  from assms obtain a b c d q where p: "p = a # b # c # d # q"
    using list_of_length_4 by blast
  have "ikcp_decode32u_big p =
      (ucast a + push_bit 8 (ucast b + push_bit 8 (ucast c + push_bit 8 (ucast d))), q)"
    by (simp add: p ikcp_decode32u_big_def Let_def)
  also have "\<dots> = (ucast a OR push_bit 8 (ucast b OR push_bit 8 (ucast c OR push_bit 8 (ucast d))), q)"
    by (simp only: word_plus_shift_or)
  also have "\<dots> = ikcp_decode32u p"
    by (simp add: p ikcp_decode32u_def host_load_def)
  finally show ?thesis .
qed

section \<open>Helpers\<close>

lemma itimediff_self [simp]: "itimediff t t = 0"
  by (simp add: itimediff_def)

lemma unat_imin: "unat (imin a b) = min (unat a) (unat b)"
  by (simp add: imin_def word_le_nat_alt min_def)

lemma unat_imax: "unat (imax a b) = max (unat a) (unat b)"
  by (simp add: imax_def word_le_nat_alt max_def)

lemma unat_ibound: "unat (ibound lo m hi) = min (max (unat lo) (unat m)) (unat hi)"
  by (simp add: ibound_def unat_imin unat_imax)

lemma itimediff_neg: "itimediff a b < 0 \<longleftrightarrow> 2 ^ 31 \<le> unat (a - b)"
  by (simp only: itimediff_def sint_neg_32)

lemma itimediff_nonneg: "0 \<le> itimediff a b \<longleftrightarrow> unat (a - b) < 2 ^ 31"
  using itimediff_neg [of a b] by linarith

lemma itimediff_pos: "0 < itimediff a b \<longleftrightarrow> 0 < unat (a - b) \<and> unat (a - b) < 2 ^ 31"
  by (simp only: itimediff_def sint_pos_32)

lemma itimediff_eq: "unat (a - b) < 2 ^ 31 \<Longrightarrow> itimediff a b = int (unat (a - b))"
  by (simp only: itimediff_def sint_32 if_True)

end
