(* ===== verification/Ikcp_Cb.thy ===== *)
theory Ikcp_Cb
  imports Ikcp_Codec
begin

text \<open>
  The life cycle and the settings of a control block: \<^verbatim>\<open>ikcp_create\<close>, \<^verbatim>\<open>ikcp_release\<close>,
  \<^verbatim>\<open>ikcp_setmtu\<close>, \<^verbatim>\<open>ikcp_interval\<close>, \<^verbatim>\<open>ikcp_nodelay\<close>, \<^verbatim>\<open>ikcp_wndsize\<close>, \<^verbatim>\<open>ikcp_waitsnd\<close>, with the
  logging guard \<^verbatim>\<open>ikcp_canlog\<close> and the output step \<^verbatim>\<open>ikcp_output\<close>. Calls of the output callback
  are the list of datagrams handed to it, in order; its result is not used by the code.
\<close>

unbundle bit_operations_syntax

section \<open>Logging and output\<close>

definition ikcp_canlog :: "ikcpcb \<Rightarrow> int \<Rightarrow> bool" where
  "ikcp_canlog kcp msk = (\<not> (msk AND k_logmask kcp = 0 \<or> \<not> k_writelog kcp))"

definition ikcp_output :: "u8 list list \<Rightarrow> u8 list \<Rightarrow> u8 list list" where
  "ikcp_output sent data = (if length data = 0 then sent else sent @ [data])"

section \<open>Memory\<close>

text \<open>
  The allocator hooks (136 to 161) are the one global state of the file. \<open>'m\<close> is the state of the memory, \<open>'p\<close> its
  pointers; \<^verbatim>\<open>malloc\<close> and \<^verbatim>\<open>free\<close> are arguments. Elsewhere the model only needs the outcome of an
  allocation, and the list of what a call frees.
\<close>

record ('p, 'm) alloc_hooks =
  ikcp_malloc_hook :: "(nat \<Rightarrow> 'm \<Rightarrow> 'p \<times> 'm) option"
  ikcp_free_hook :: "('p \<Rightarrow> 'm \<Rightarrow> 'm) option"

definition ikcp_malloc :: "(nat \<Rightarrow> 'm \<Rightarrow> 'p \<times> 'm) \<Rightarrow> ('p, 'm) alloc_hooks \<Rightarrow> nat \<Rightarrow> 'm \<Rightarrow> 'p \<times> 'm" where
  "ikcp_malloc malloc hooks sz =
     (case ikcp_malloc_hook hooks of Some hook \<Rightarrow> hook sz | None \<Rightarrow> malloc sz)"

definition ikcp_free :: "('p \<Rightarrow> 'm \<Rightarrow> 'm) \<Rightarrow> ('p, 'm) alloc_hooks \<Rightarrow> 'p \<Rightarrow> 'm \<Rightarrow> 'm" where
  "ikcp_free free hooks ptr = (case ikcp_free_hook hooks of Some hook \<Rightarrow> hook ptr | None \<Rightarrow> free ptr)"

definition ikcp_allocator :: "(nat \<Rightarrow> 'm \<Rightarrow> 'p \<times> 'm) option \<Rightarrow> ('p \<Rightarrow> 'm \<Rightarrow> 'm) option
    \<Rightarrow> ('p, 'm) alloc_hooks \<Rightarrow> ('p, 'm) alloc_hooks" where
  "ikcp_allocator new_malloc new_free hooks =
     hooks\<lparr>ikcp_malloc_hook := new_malloc, ikcp_free_hook := new_free\<rparr>"

definition ikcp_segment_delete :: "('p \<Rightarrow> 'm \<Rightarrow> 'm) \<Rightarrow> ('p, 'm) alloc_hooks \<Rightarrow> 'p \<Rightarrow> 'm \<Rightarrow> 'm" where
  "ikcp_segment_delete free hooks seg = ikcp_free free hooks seg"

text \<open>
  A block is undone by the hooks in force when it is freed: when a pair of hooks undoes its own allocations, a
  segment that is allocated and deleted leaves the memory as it was, unless the hooks change in between.
\<close>

lemma alloc_delete:
  assumes "\<And>sz m p m'. malloc sz m = (p, m') \<Longrightarrow> free p m' = m"
    and "\<And>f g. ikcp_malloc_hook hooks = Some f \<Longrightarrow> ikcp_free_hook hooks = Some g \<Longrightarrow>
      (\<forall>sz m p m'. f sz m = (p, m') \<longrightarrow> g p m' = m)"
    and "(ikcp_malloc_hook hooks = None) = (ikcp_free_hook hooks = None)"
    and "ikcp_malloc malloc hooks sz m = (p, m')"
  shows "ikcp_segment_delete free hooks p m' = m"
  using assms by (auto simp: ikcp_malloc_def ikcp_free_def ikcp_segment_delete_def split: option.splits)

section \<open>Creation\<close>

text \<open>
  The two \<^verbatim>\<open>bool\<close> arguments say whether the allocation of the block and that of its buffer
  succeed.
\<close>

definition ikcp_create :: "bool \<Rightarrow> bool \<Rightarrow> u32 \<Rightarrow> nat \<Rightarrow> ikcpcb option" where
  "ikcp_create alloc_kcp alloc_buffer conv user =
     (if \<not> alloc_kcp then None
      else if \<not> alloc_buffer then None
      else Some
       \<lparr>k_conv = conv,
        k_mtu = IKCP_MTU_DEF,
        k_mss = IKCP_MTU_DEF - IKCP_OVERHEAD,
        k_state = 0,
        k_snd_una = 0,
        k_snd_nxt = 0,
        k_rcv_nxt = 0,
        k_ts_recent = 0,
        k_ts_lastack = 0,
        k_ssthresh = IKCP_THRESH_INIT,
        k_rx_rttval = 0,
        k_rx_srtt = 0,
        k_rx_rto = uint IKCP_RTO_DEF,
        k_rx_minrto = uint IKCP_RTO_MIN,
        k_snd_wnd = IKCP_WND_SND,
        k_rcv_wnd = IKCP_WND_RCV,
        k_rmt_wnd = IKCP_WND_RCV,
        k_cwnd = 0,
        k_probe = 0,
        k_current = 0,
        k_interval = IKCP_INTERVAL,
        k_ts_flush = IKCP_INTERVAL,
        k_xmit = 0,
        k_nrcv_buf = 0,
        k_nsnd_buf = 0,
        k_nrcv_que = 0,
        k_nsnd_que = 0,
        k_nodelay = 0,
        k_updated = 0,
        k_ts_probe = 0,
        k_probe_wait = 0,
        k_dead_link = IKCP_DEADLINK,
        k_incr = 0,
        k_snd_queue = [],
        k_rcv_queue = [],
        k_snd_buf = [],
        k_rcv_buf = [],
        k_acklist = None,
        k_ackcount = 0,
        k_ackblock = 0,
        k_user = user,
        k_buffer = Some (unat ((IKCP_MTU_DEF + IKCP_OVERHEAD) * 3)),
        k_fastresend = 0,
        k_nocwnd = 0,
        k_logmask = 0,
        k_output = False,
        k_writelog = False\<rparr>)"

section \<open>Release\<close>

text \<open>
  \<^verbatim>\<open>ikcp_release\<close> as the sequence of blocks it passes to \<^verbatim>\<open>ikcp_free\<close>, and the control block as
  it is when it is freed last. Each loop pops the first segment of its queue.
\<close>

datatype mem_block = Seg_block iseg | Buffer_block | Acklist_block | Kcp_block

fun release_queue :: "iseg list \<Rightarrow> mem_block list \<Rightarrow> mem_block list" where
  "release_queue [] freed = freed"
| "release_queue (seg # q) freed = release_queue q (freed @ [Seg_block seg])"

definition ikcp_release :: "ikcpcb \<Rightarrow> ikcpcb \<times> mem_block list" where
  "ikcp_release kcp =
     (let freed = release_queue (k_snd_buf kcp) [];
          freed = release_queue (k_rcv_buf kcp) freed;
          freed = release_queue (k_snd_queue kcp) freed;
          freed = release_queue (k_rcv_queue kcp) freed;
          freed = (if k_buffer kcp \<noteq> None then freed @ [Buffer_block] else freed);
          freed = (if k_acklist kcp \<noteq> None then freed @ [Acklist_block] else freed)
      in (kcp\<lparr>k_snd_buf := [], k_rcv_buf := [], k_snd_queue := [], k_rcv_queue := [],
              k_nrcv_buf := 0, k_nsnd_buf := 0, k_nrcv_que := 0, k_nsnd_que := 0,
              k_ackcount := 0, k_buffer := None, k_acklist := None\<rparr>,
          freed @ [Kcp_block]))"

section \<open>Settings\<close>

definition ikcp_setmtu :: "bool \<Rightarrow> ikcpcb \<Rightarrow> int \<Rightarrow> int \<times> ikcpcb" where
  "ikcp_setmtu alloc_ok kcp mtu =
     (if mtu < 50 \<or> mtu < sint IKCP_OVERHEAD then (-1, kcp)
      else if \<not> alloc_ok then (-2, kcp)
      else (0, kcp\<lparr>k_mtu := word_of_int mtu,
                   k_mss := word_of_int mtu - IKCP_OVERHEAD,
                   k_buffer := Some (unat ((word_of_int mtu + IKCP_OVERHEAD) * 3))\<rparr>))"

definition clamp_interval :: "int \<Rightarrow> int" where
  "clamp_interval interval =
     (if interval > 5000 then 5000 else if interval < 10 then 10 else interval)"

definition ikcp_interval :: "ikcpcb \<Rightarrow> int \<Rightarrow> int \<times> ikcpcb" where
  "ikcp_interval kcp interval =
     (0, kcp\<lparr>k_interval := word_of_int (clamp_interval interval)\<rparr>)"

definition ikcp_nodelay :: "ikcpcb \<Rightarrow> int \<Rightarrow> int \<Rightarrow> int \<Rightarrow> int \<Rightarrow> int \<times> ikcpcb" where
  "ikcp_nodelay kcp nodelay interval resend nc =
     (let kcp = (if nodelay \<ge> 0
                 then kcp\<lparr>k_nodelay := word_of_int nodelay,
                          k_rx_minrto := (if nodelay \<noteq> 0 then uint IKCP_RTO_NDL
                                          else uint IKCP_RTO_MIN)\<rparr>
                 else kcp);
          kcp = (if interval \<ge> 0
                 then kcp\<lparr>k_interval := word_of_int (clamp_interval interval)\<rparr> else kcp);
          kcp = (if resend \<ge> 0 then kcp\<lparr>k_fastresend := resend\<rparr> else kcp);
          kcp = (if nc \<ge> 0 then kcp\<lparr>k_nocwnd := nc\<rparr> else kcp)
      in (0, kcp))"

text \<open>\<^verbatim>\<open>ikcp_wndsize\<close> accepts a null pointer, here \<open>None\<close>.\<close>

definition ikcp_wndsize :: "ikcpcb option \<Rightarrow> int \<Rightarrow> int \<Rightarrow> int \<times> ikcpcb option" where
  "ikcp_wndsize kcp sndwnd rcvwnd =
     (0, map_option
           (\<lambda>kcp. let kcp = (if sndwnd > 0 then kcp\<lparr>k_snd_wnd := word_of_int sndwnd\<rparr> else kcp)
                 in (if rcvwnd > 0 then kcp\<lparr>k_rcv_wnd := word_of_int rcvwnd\<rparr> else kcp))
           kcp)"

definition ikcp_waitsnd :: "ikcpcb \<Rightarrow> int" where
  "ikcp_waitsnd kcp = sint (k_nsnd_buf kcp + k_nsnd_que kcp)"

lemma release_queue_map: "release_queue q freed = freed @ map Seg_block q"
  by (induction q freed rule: release_queue.induct) simp_all

end
