(* ===== verification/Window.thy ===== *)
theory Window
  imports Ikcp_Types Ikcp_Codec
begin

text \<open>
  Sequence number arithmetic. Sequence numbers wrap around, so "before" and "after" only make
  sense relative to a base: \<open>woff b x\<close> is the distance from \<open>b\<close> forward to \<open>x\<close>. Within half
  of the number space \<^verbatim>\<open>_itimediff\<close> is the difference of the distances, which is what every
  window test of \<^verbatim>\<open>kcp/ikcp.c\<close> relies on. \<open>ordered b segs\<close> says that the segments' numbers
  increase from the base on; it is the shape of \<^verbatim>\<open>snd_buf\<close> (base \<^verbatim>\<open>snd_una\<close>) and of \<^verbatim>\<open>rcv_buf\<close>
  (base \<^verbatim>\<open>rcv_nxt\<close>).
\<close>

section \<open>Segments and payload\<close>

text \<open>
  \<open>seg_bytes\<close> is what \<^verbatim>\<open>memcpy(..., seg->data, seg->len)\<close> copies; \<open>seg_ok\<close> says that the length field
  is the number of payload bytes, so that the copy stays inside the block. The fragment number
  and the bytes are the \<open>payload\<close>; a \<open>stream\<close> is the list of the payloads a sender has accepted since
  the start of the connection, so a position in it counts segments without wrapping.
\<close>

definition seg_bytes :: "iseg \<Rightarrow> u8 list" where
  "seg_bytes seg = take (unat (s_len seg)) (s_data seg)"

definition seg_ok :: "iseg \<Rightarrow> bool" where
  "seg_ok s \<longleftrightarrow> unat (s_len s) = length (s_data s)"

type_synonym stream = "(u32 \<times> u8 list) list"

definition payload :: "iseg \<Rightarrow> u32 \<times> u8 list" where
  "payload s = (s_frg s, s_data s)"

lemma seg_bytes_ok [simp]: "seg_ok s \<Longrightarrow> seg_bytes s = s_data s"
  by (simp add: seg_ok_def seg_bytes_def)

section \<open>Window offsets\<close>

definition woff :: "u32 \<Rightarrow> u32 \<Rightarrow> nat" where
  "woff b x = unat (x - b)"

definition offs :: "u32 \<Rightarrow> iseg list \<Rightarrow> nat list" where
  "offs b segs = map (\<lambda>s. woff b (s_sn s)) segs"

definition ordered :: "u32 \<Rightarrow> iseg list \<Rightarrow> bool" where
  "ordered b segs \<longleftrightarrow> sorted_wrt (<) (offs b segs)"

section \<open>Distances\<close>

lemma woff_self [simp]: "woff b b = 0"
  by (simp add: woff_def)

lemma woff_less [simp]: "woff b x < 4294967296"
  by (simp add: woff_def)

lemma woff_eq_iff [simp]: "woff b x = woff b y \<longleftrightarrow> x = y"
  unfolding woff_def by (metis add_diff_cancel diff_add_cancel unsigned_word_eqI)

lemma woff_eq_0_iff [simp]: "woff b x = 0 \<longleftrightarrow> x = b"
  using woff_eq_iff [of b x b] by simp

lemma woff_shift: "woff b c \<le> woff b x \<Longrightarrow> woff c x = woff b x - woff b c"
proof -
  assume le: "woff b c \<le> woff b x"
  have "x - c = (x - b) - (c - b)" by simp
  then show ?thesis using le by (simp only: woff_def unat_diff_32 if_True)
qed

lemma woff_Suc: "woff b x < 4294967295 \<Longrightarrow> woff b (x + 1) = Suc (woff b x)"
proof -
  assume "woff b x < 4294967295"
  moreover have "x + 1 - b = (x - b) + 1" by simp
  ultimately show ?thesis by (simp only: woff_def unat_Suc_32)
qed

lemma woff_plus: "woff b (b + x) = unat x"
  by (simp add: woff_def)

lemma woff_recover: "b + word_of_nat (woff b x) = x"
  by (simp add: woff_def)

lemma itimediff_woff:
  assumes "woff b x < 2 ^ 31 + woff b y" "woff b y < 2 ^ 31 + woff b x"
  shows "itimediff x y = int (woff b x) - int (woff b y)"
proof -
  have e: "x - y = (x - b) - (y - b)" by simp
  have "unat (x - y) = (if woff b y \<le> woff b x then woff b x - woff b y
      else woff b x + 4294967296 - woff b y)"
    by (simp only: e unat_diff_32 woff_def)
  with assms show ?thesis
    by (cases "woff b y \<le> woff b x") (auto simp: itimediff_def sint_32)
qed

section \<open>Ordered segment lists\<close>

lemma ordered_Nil [simp]: "ordered b []"
  by (simp add: ordered_def offs_def)

lemma ordered_Cons: "ordered b (s # segs) \<longleftrightarrow>
    (\<forall>t \<in> set segs. woff b (s_sn s) < woff b (s_sn t)) \<and> ordered b segs"
  by (simp add: ordered_def offs_def)

lemma ordered_append: "ordered b (xs @ ys) \<longleftrightarrow> ordered b xs \<and> ordered b ys \<and>
    (\<forall>s \<in> set xs. \<forall>t \<in> set ys. woff b (s_sn s) < woff b (s_sn t))"
  by (simp add: ordered_def offs_def sorted_wrt_append)

lemma ordered_rebase:
  assumes "ordered b segs" "\<And>s. s \<in> set segs \<Longrightarrow> woff b c \<le> woff b (s_sn s)"
  shows "ordered c segs"
  using assms
proof (induction segs)
  case (Cons s segs)
  have sh: "woff c (s_sn t) = woff b (s_sn t) - woff b c" if "t \<in> set (s # segs)" for t
    using Cons.prems(2) that by (auto intro: woff_shift)
  have "woff c (s_sn s) < woff c (s_sn t)" if "t \<in> set segs" for t
    using sh [of s] sh [of t] Cons.prems that by (fastforce simp: ordered_Cons)
  with Cons show ?case by (simp add: ordered_Cons)
qed simp

lemma ordered_map: "(\<And>s. s_sn (f s) = s_sn s) \<Longrightarrow> ordered b (map f segs) = ordered b segs"
  by (simp add: ordered_def offs_def comp_def)

lemma ordered_distinct_sn: "ordered b segs \<Longrightarrow> distinct (map s_sn segs)"
  by (induction segs) (auto simp: ordered_Cons)

lemma ordered_length:
  assumes "ordered b segs" "\<And>s. s \<in> set segs \<Longrightarrow> woff b (s_sn s) < n"
  shows "length segs \<le> n"
proof -
  have "distinct (offs b segs)"
    using assms(1) by (simp add: ordered_def strict_sorted_iff)
  moreover have "set (offs b segs) \<subseteq> {..<n}"
    using assms(2) by (auto simp: offs_def)
  ultimately have "length (offs b segs) \<le> card {..<n}"
    by (metis card_mono distinct_card finite_lessThan)
  then show ?thesis by (simp add: offs_def)
qed

section \<open>Segments on the wire\<close>

text \<open>
  A segment on the wire is its header followed by its payload, a datagram is a sequence of them.
\<close>

definition wire_seg :: "iseg \<Rightarrow> u8 list" where
  "wire_seg s = ikcp_encode_seg s @ seg_bytes s"

definition dgram :: "iseg list \<Rightarrow> u8 list" where
  "dgram segs = concat (map wire_seg segs)"

lemma dgram_simps [simp]:
  "dgram [] = []" "dgram (s # segs) = ikcp_encode_seg s @ seg_bytes s @ dgram segs"
  "dgram (xs @ ys) = dgram xs @ dgram ys"
  by (simp_all add: dgram_def wire_seg_def)

lemma length_seg_bytes: "seg_ok s \<Longrightarrow> length (seg_bytes s) = unat (s_len s)"
  by (simp add: seg_ok_def)

lemma dgram_eq_Nil [simp]: "dgram segs = [] \<longleftrightarrow> segs = []"
proof (cases segs)
  case (Cons s p)
  then have "24 \<le> length (dgram segs)" by simp
  with Cons show ?thesis by (metis list.simps(3) list.size(3) not_numeral_le_zero)
qed simp

lemma length_dgram: "24 * length segs \<le> length (dgram segs)"
  by (induction segs) auto

end
