(* ===== verification/Ikcp_Recv.thy ===== *)
theory Ikcp_Recv
  imports Ikcp_Cb Window
begin

text \<open>
  The receiving side of \<^verbatim>\<open>kcp/ikcp.c\<close>: \<^verbatim>\<open>ikcp_recv\<close> (349 to 427), \<^verbatim>\<open>ikcp_peeksize\<close> (433 to 456)
  and \<^verbatim>\<open>ikcp_parse_data\<close> (640 to 704). The loop that moves segments from \<^verbatim>\<open>rcv_buf\<close> to
  \<^verbatim>\<open>rcv_queue\<close> stands twice in the source, word for word, and once here.
\<close>

section \<open>Operations\<close>

fun peek_length :: "iseg list \<Rightarrow> u32 \<Rightarrow> u32" where
  "peek_length [] len = len"
| "peek_length (seg # p) len =
     (let len = len + s_len seg in if s_frg seg = 0 then len else peek_length p len)"

definition ikcp_peeksize :: "ikcpcb \<Rightarrow> int" where
  "ikcp_peeksize kcp =
     (case k_rcv_queue kcp of
        [] \<Rightarrow> -1
      | seg # _ \<Rightarrow>
          if s_frg seg = 0 then sint (s_len seg)
          else if k_nrcv_que kcp < s_frg seg + 1 then -1
          else sint (peek_length (k_rcv_queue kcp) 0))"

text \<open>
  The merge loop. \<open>p\<close> is the rest of the queue still to visit, \<open>out\<close> the bytes written to the
  caller's buffer so far and \<open>len\<close> the running length. A null buffer receives nothing.
\<close>

fun recv_merge :: "bool \<Rightarrow> bool \<Rightarrow> iseg list \<Rightarrow> ikcpcb \<Rightarrow> u8 list \<Rightarrow> u32 \<Rightarrow> ikcpcb \<times> u8 list \<times> u32" where
  "recv_merge ispeek buffer [] kcp out len = (kcp, out, len)"
| "recv_merge ispeek buffer (seg # p) kcp out len =
     (let out = (if buffer then out @ seg_bytes seg else out);
          len = len + s_len seg;
          fragment = s_frg seg;
          kcp = (if \<not> ispeek
                 then kcp\<lparr>k_rcv_queue := tl (k_rcv_queue kcp), k_nrcv_que := k_nrcv_que kcp - 1\<rparr>
                 else kcp)
      in if fragment = 0 then (kcp, out, len) else recv_merge ispeek buffer p kcp out len)"

fun rcv_move_loop :: "iseg list \<Rightarrow> ikcpcb \<Rightarrow> ikcpcb" where
  "rcv_move_loop [] kcp = kcp"
| "rcv_move_loop (seg # rest) kcp =
     (if s_sn seg = k_rcv_nxt kcp \<and> k_nrcv_que kcp < k_rcv_wnd kcp then
        rcv_move_loop rest
          (kcp\<lparr>k_rcv_buf := rest,
               k_nrcv_buf := k_nrcv_buf kcp - 1,
               k_rcv_queue := k_rcv_queue kcp @ [seg],
               k_nrcv_que := k_nrcv_que kcp + 1,
               k_rcv_nxt := k_rcv_nxt kcp + 1\<rparr>)
      else kcp)"

definition rcv_move :: "ikcpcb \<Rightarrow> ikcpcb" where
  "rcv_move kcp = rcv_move_loop (k_rcv_buf kcp) kcp"

text \<open>
  \<^verbatim>\<open>ikcp_recv\<close>: \<open>buffer\<close> says whether the buffer pointer is non-null. The result is the return
  value, the bytes written to the buffer, and the control block. Negating \<open>len\<close> is exact except
  for \<^verbatim>\<open>INT_MIN\<close>, where it stays negative.
\<close>

definition ikcp_recv :: "ikcpcb \<Rightarrow> bool \<Rightarrow> int \<Rightarrow> int \<times> u8 list \<times> ikcpcb" where
  "ikcp_recv kcp buffer len =
     (let ispeek = len < 0 in
      if k_rcv_queue kcp = [] then (-1, [], kcp)
      else
        let len = (if len < 0 then i32 (- len) else len);
            peeksize = ikcp_peeksize kcp
        in if peeksize < 0 then (-2, [], kcp)
           else if peeksize > len then (-3, [], kcp)
           else
             let recover = k_nrcv_que kcp \<ge> k_rcv_wnd kcp;
                 (kcp, out, n) = recv_merge ispeek buffer (k_rcv_queue kcp) kcp [] 0;
                 kcp = rcv_move kcp;
                 kcp = (if k_nrcv_que kcp < k_rcv_wnd kcp \<and> recover
                        then kcp\<lparr>k_probe := k_probe kcp OR IKCP_ASK_TELL\<rparr> else kcp)
             in (sint n, out, kcp))"

text \<open>
  The insertion loop of \<^verbatim>\<open>ikcp_parse_data\<close> walks \<^verbatim>\<open>rcv_buf\<close> backwards, so it is a recursion on
  the reversed list. \<open>None\<close>: a segment with the same number is there already.
\<close>

fun rcv_insert_rev :: "iseg \<Rightarrow> iseg list \<Rightarrow> iseg list option" where
  "rcv_insert_rev newseg [] = Some [newseg]"
| "rcv_insert_rev newseg (seg # prev) =
     (if s_sn seg = s_sn newseg then None
      else if itimediff (s_sn newseg) (s_sn seg) > 0 then Some (newseg # seg # prev)
      else map_option (Cons seg) (rcv_insert_rev newseg prev))"

definition ikcp_parse_data :: "ikcpcb \<Rightarrow> iseg \<Rightarrow> ikcpcb" where
  "ikcp_parse_data kcp newseg =
     (let sn = s_sn newseg in
      if itimediff sn (k_rcv_nxt kcp + k_rcv_wnd kcp) \<ge> 0 \<or> itimediff sn (k_rcv_nxt kcp) < 0
      then kcp
      else
        let kcp = (case rcv_insert_rev newseg (rev (k_rcv_buf kcp)) of
                     None \<Rightarrow> kcp
                   | Some buf \<Rightarrow> kcp\<lparr>k_rcv_buf := rev buf, k_nrcv_buf := k_nrcv_buf kcp + 1\<rparr>)
        in rcv_move kcp)"

section \<open>The receiver invariant\<close>

text \<open>
  \<open>consec n segs\<close>: the numbers are \<open>n\<close>, \<open>n + 1\<close> and so on. The invariant: \<^verbatim>\<open>rcv_buf\<close> is ordered from \<^verbatim>\<open>rcv_nxt\<close> on and inside half the
  number space, \<^verbatim>\<open>rcv_queue\<close> is the run of numbers that ends just before \<^verbatim>\<open>rcv_nxt\<close>, and the
  counters are the lengths.
\<close>

fun consec :: "u32 \<Rightarrow> iseg list \<Rightarrow> bool" where
  "consec n [] \<longleftrightarrow> True"
| "consec n (s # segs) \<longleftrightarrow> s_sn s = n \<and> consec (n + 1) segs"

definition rcv_inv :: "ikcpcb \<Rightarrow> bool" where
  "rcv_inv kcp \<longleftrightarrow>
     ordered (k_rcv_nxt kcp) (k_rcv_buf kcp) \<and>
     (\<forall>s \<in> set (k_rcv_buf kcp). woff (k_rcv_nxt kcp) (s_sn s) < 2 ^ 31) \<and>
     consec (k_rcv_nxt kcp - word_of_nat (length (k_rcv_queue kcp))) (k_rcv_queue kcp) \<and>
     k_nrcv_buf kcp = word_of_nat (length (k_rcv_buf kcp)) \<and>
     k_nrcv_que kcp = word_of_nat (length (k_rcv_queue kcp)) \<and>
     length (k_rcv_queue kcp) < 2 ^ 31 \<and>
     unat (k_rcv_wnd kcp) < 2 ^ 31 \<and>
     (\<forall>s \<in> set (k_rcv_buf kcp) \<union> set (k_rcv_queue kcp). seg_ok s)"

definition rcv_drained :: "ikcpcb \<Rightarrow> bool" where
  "rcv_drained kcp \<longleftrightarrow>
     (\<forall>s p. k_rcv_buf kcp = s # p \<longrightarrow>
        s_sn s \<noteq> k_rcv_nxt kcp \<or> \<not> k_nrcv_que kcp < k_rcv_wnd kcp)"

lemma rcv_invD:
  assumes "rcv_inv kcp"
  shows "ordered (k_rcv_nxt kcp) (k_rcv_buf kcp)"
    and "s \<in> set (k_rcv_buf kcp) \<Longrightarrow> woff (k_rcv_nxt kcp) (s_sn s) < 2 ^ 31"
    and "consec (k_rcv_nxt kcp - word_of_nat (length (k_rcv_queue kcp))) (k_rcv_queue kcp)"
    and "k_nrcv_buf kcp = word_of_nat (length (k_rcv_buf kcp))"
    and "k_nrcv_que kcp = word_of_nat (length (k_rcv_queue kcp))"
    and "length (k_rcv_queue kcp) < 2 ^ 31"
    and "unat (k_rcv_wnd kcp) < 2 ^ 31"
    and "s \<in> set (k_rcv_buf kcp) \<union> set (k_rcv_queue kcp) \<Longrightarrow> seg_ok s"
  using assms unfolding rcv_inv_def by auto

lemma consec_append: "consec n (xs @ ys) \<longleftrightarrow> consec n xs \<and> consec (n + word_of_nat (length xs)) ys"
  by (induction xs arbitrary: n) (auto simp: add.assoc)

lemma consec_nth: "consec n xs \<Longrightarrow> i < length xs \<Longrightarrow> s_sn (xs ! i) = n + word_of_nat i"
proof (induction xs arbitrary: n i)
  case (Cons s xs)
  then show ?case by (cases i) auto
qed simp

lemma consecI: "(\<And>i. i < length xs \<Longrightarrow> s_sn (xs ! i) = n + word_of_nat i) \<Longrightarrow> consec n xs"
proof (induction xs arbitrary: n)
  case (Cons s xs)
  have "consec (n + 1) xs"
  proof (rule Cons.IH)
    show "s_sn (xs ! i) = n + 1 + word_of_nat i" if "i < length xs" for i
      using Cons.prems [of "Suc i"] that by simp
  qed
  moreover have "s_sn s = n" using Cons.prems [of 0] by simp
  ultimately show ?case by simp
qed simp

section \<open>The move loop\<close>

lemma rcv_move_loop_shape:
  assumes "k_rcv_buf kcp = buf"
  shows "\<exists>m \<le> length buf.
    rcv_move_loop buf kcp = kcp\<lparr>k_rcv_buf := drop m buf,
        k_nrcv_buf := k_nrcv_buf kcp - word_of_nat m,
        k_rcv_queue := k_rcv_queue kcp @ take m buf,
        k_nrcv_que := k_nrcv_que kcp + word_of_nat m,
        k_rcv_nxt := k_rcv_nxt kcp + word_of_nat m\<rparr> \<and>
    (\<forall>i < m. s_sn (buf ! i) = k_rcv_nxt kcp + word_of_nat i \<and>
             k_nrcv_que kcp + word_of_nat i < k_rcv_wnd kcp) \<and>
    (m < length buf \<longrightarrow> s_sn (buf ! m) \<noteq> k_rcv_nxt kcp + word_of_nat m \<or>
             \<not> k_nrcv_que kcp + word_of_nat m < k_rcv_wnd kcp)"
  using assms
proof (induction buf arbitrary: kcp)
  case Nil
  then show ?case by (intro exI [of _ 0]) simp
next
  case (Cons seg rest)
  show ?case
  proof (cases "s_sn seg = k_rcv_nxt kcp \<and> k_nrcv_que kcp < k_rcv_wnd kcp")
    case False
    with Cons.prems show ?thesis by (intro exI [of _ 0]) auto
  next
    case True
    let ?k = "kcp\<lparr>k_rcv_buf := rest, k_nrcv_buf := k_nrcv_buf kcp - 1,
      k_rcv_queue := k_rcv_queue kcp @ [seg], k_nrcv_que := k_nrcv_que kcp + 1,
      k_rcv_nxt := k_rcv_nxt kcp + 1\<rparr>"
    obtain m where m: "m \<le> length rest"
      "rcv_move_loop rest ?k = ?k\<lparr>k_rcv_buf := drop m rest,
        k_nrcv_buf := k_nrcv_buf ?k - word_of_nat m,
        k_rcv_queue := k_rcv_queue ?k @ take m rest,
        k_nrcv_que := k_nrcv_que ?k + word_of_nat m,
        k_rcv_nxt := k_rcv_nxt ?k + word_of_nat m\<rparr>"
      "\<forall>i < m. s_sn (rest ! i) = k_rcv_nxt ?k + word_of_nat i \<and>
             k_nrcv_que ?k + word_of_nat i < k_rcv_wnd ?k"
      "m < length rest \<longrightarrow> s_sn (rest ! m) \<noteq> k_rcv_nxt ?k + word_of_nat m \<or>
             \<not> k_nrcv_que ?k + word_of_nat m < k_rcv_wnd ?k"
      using Cons.IH [of ?k] by auto
    have "s_sn ((seg # rest) ! i) = k_rcv_nxt kcp + word_of_nat i \<and>
        k_nrcv_que kcp + word_of_nat i < k_rcv_wnd kcp" if "i < Suc m" for i
      using m(3) True that by (cases i) (auto simp: ac_simps)
    then show ?thesis
      using m(1,2,4) True
      by (intro exI [of _ "Suc m"]) (auto simp: ac_simps diff_diff_eq)
  qed
qed

lemma rcv_move_shape:
  obtains m where "m \<le> length (k_rcv_buf kcp)"
    "rcv_move kcp = kcp\<lparr>k_rcv_buf := drop m (k_rcv_buf kcp),
        k_nrcv_buf := k_nrcv_buf kcp - word_of_nat m,
        k_rcv_queue := k_rcv_queue kcp @ take m (k_rcv_buf kcp),
        k_nrcv_que := k_nrcv_que kcp + word_of_nat m,
        k_rcv_nxt := k_rcv_nxt kcp + word_of_nat m\<rparr>"
    "\<And>i. i < m \<Longrightarrow> s_sn (k_rcv_buf kcp ! i) = k_rcv_nxt kcp + word_of_nat i"
    "\<And>i. i < m \<Longrightarrow> k_nrcv_que kcp + word_of_nat i < k_rcv_wnd kcp"
    "m < length (k_rcv_buf kcp) \<Longrightarrow> s_sn (k_rcv_buf kcp ! m) \<noteq> k_rcv_nxt kcp + word_of_nat m \<or>
             \<not> k_nrcv_que kcp + word_of_nat m < k_rcv_wnd kcp"
  using rcv_move_loop_shape [of kcp, OF refl] unfolding rcv_move_def by blast

lemma rcv_move_drained: "rcv_drained (rcv_move kcp)"
proof (rule rcv_move_shape [of kcp])
  fix m
  assume m: "rcv_move kcp = kcp\<lparr>k_rcv_buf := drop m (k_rcv_buf kcp),
        k_nrcv_buf := k_nrcv_buf kcp - word_of_nat m,
        k_rcv_queue := k_rcv_queue kcp @ take m (k_rcv_buf kcp),
        k_nrcv_que := k_nrcv_que kcp + word_of_nat m,
        k_rcv_nxt := k_rcv_nxt kcp + word_of_nat m\<rparr>"
    and stop: "m < length (k_rcv_buf kcp) \<Longrightarrow> s_sn (k_rcv_buf kcp ! m) \<noteq> k_rcv_nxt kcp + word_of_nat m \<or>
             \<not> k_nrcv_que kcp + word_of_nat m < k_rcv_wnd kcp"
  show ?thesis
  proof (cases "m < length (k_rcv_buf kcp)")
    case True
    then have "drop m (k_rcv_buf kcp) = k_rcv_buf kcp ! m # drop (Suc m) (k_rcv_buf kcp)"
      by (rule Cons_nth_drop_Suc [symmetric])
    with stop [OF True] m show ?thesis by (auto simp: rcv_drained_def)
  next
    case False
    with m show ?thesis by (simp add: rcv_drained_def)
  qed
qed

text \<open>The move loop from a state that satisfies the invariant, with what it does to distances.\<close>

lemma rcv_move_offsets:
  assumes inv: "rcv_inv kcp"
  obtains m where "m \<le> length (k_rcv_buf kcp)" "m \<le> 2 ^ 31"
    "rcv_move kcp = kcp\<lparr>k_rcv_buf := drop m (k_rcv_buf kcp),
        k_nrcv_buf := k_nrcv_buf kcp - word_of_nat m,
        k_rcv_queue := k_rcv_queue kcp @ take m (k_rcv_buf kcp),
        k_nrcv_que := k_nrcv_que kcp + word_of_nat m,
        k_rcv_nxt := k_rcv_nxt kcp + word_of_nat m\<rparr>"
    "\<And>i. i < m \<Longrightarrow> s_sn (k_rcv_buf kcp ! i) = k_rcv_nxt kcp + word_of_nat i"
    "\<And>i. i < m \<Longrightarrow> k_nrcv_que kcp + word_of_nat i < k_rcv_wnd kcp"
    "woff (k_rcv_nxt kcp) (k_rcv_nxt kcp + word_of_nat m) = m"
    "\<And>t. t \<in> set (drop m (k_rcv_buf kcp)) \<Longrightarrow> m \<le> woff (k_rcv_nxt kcp) (s_sn t)"
proof (rule rcv_move_shape [of kcp])
  fix m
  let ?nxt = "k_rcv_nxt kcp" and ?buf = "k_rcv_buf kcp"
  assume le: "m \<le> length ?buf"
    and m: "rcv_move kcp = kcp\<lparr>k_rcv_buf := drop m ?buf,
        k_nrcv_buf := k_nrcv_buf kcp - word_of_nat m,
        k_rcv_queue := k_rcv_queue kcp @ take m ?buf,
        k_nrcv_que := k_nrcv_que kcp + word_of_nat m,
        k_rcv_nxt := ?nxt + word_of_nat m\<rparr>"
    and sns: "\<And>i. i < m \<Longrightarrow> s_sn (?buf ! i) = ?nxt + word_of_nat i"
    and room: "\<And>i. i < m \<Longrightarrow> k_nrcv_que kcp + word_of_nat i < k_rcv_wnd kcp"
  note I = rcv_invD [OF inv]
  have "length ?buf \<le> 2 ^ 31" by (rule ordered_length [OF I(1) I(2)])
  with le have m31: "m \<le> 2147483648" by simp
  then have wm: "woff ?nxt (?nxt + word_of_nat m) = m"
    by (simp only: woff_plus word_of_nat_eq_32)
  have lt: "woff ?nxt (s_sn s) < woff ?nxt (s_sn t)"
    if "s \<in> set (take m ?buf)" "t \<in> set (drop m ?buf)" for s t
    using I(1) ordered_append [of ?nxt "take m ?buf" "drop m ?buf"] that by auto
  have ge: "m \<le> woff ?nxt (s_sn t)" if t: "t \<in> set (drop m ?buf)" for t
  proof (cases m)
    case (Suc n)
    have "woff ?nxt (s_sn (?buf ! n)) = n"
      using sns [of n] Suc m31 by (simp add: woff_plus word_of_nat_eq_32)
    moreover have "?buf ! n \<in> set (take m ?buf)"
      using Suc le by (auto simp: in_set_conv_nth intro!: exI [of _ n])
    ultimately show ?thesis using lt [OF _ t] Suc by fastforce
  qed simp
  show thesis
    by (rule that [OF le _ m sns room wm ge]) (use m31 in simp_all)
qed

lemma rcv_move_inv [kcp_inv]:
  assumes inv: "rcv_inv kcp"
  shows "rcv_inv (rcv_move kcp)"
proof (rule rcv_move_offsets [OF inv])
  fix m
  let ?nxt = "k_rcv_nxt kcp" and ?buf = "k_rcv_buf kcp" and ?q = "k_rcv_queue kcp"
  assume le: "m \<le> length ?buf" and m31: "m \<le> 2 ^ 31"
    and m: "rcv_move kcp = kcp\<lparr>k_rcv_buf := drop m ?buf,
        k_nrcv_buf := k_nrcv_buf kcp - word_of_nat m,
        k_rcv_queue := ?q @ take m ?buf,
        k_nrcv_que := k_nrcv_que kcp + word_of_nat m,
        k_rcv_nxt := ?nxt + word_of_nat m\<rparr>"
    and sns: "\<And>i. i < m \<Longrightarrow> s_sn (?buf ! i) = ?nxt + word_of_nat i"
    and room: "\<And>i. i < m \<Longrightarrow> k_nrcv_que kcp + word_of_nat i < k_rcv_wnd kcp"
    and wm: "woff ?nxt (?nxt + word_of_nat m) = m"
    and ge: "\<And>t. t \<in> set (drop m ?buf) \<Longrightarrow> m \<le> woff ?nxt (s_sn t)"
  note I = rcv_invD [OF inv]
  have ord: "ordered ?nxt (drop m ?buf)"
    using I(1) ordered_append [of ?nxt "take m ?buf" "drop m ?buf"] by auto
  have off: "woff (?nxt + word_of_nat m) (s_sn t) = woff ?nxt (s_sn t) - m"
    if "t \<in> set (drop m ?buf)" for t
    using woff_shift [of ?nxt "?nxt + word_of_nat m" "s_sn t"] ge [OF that] by (simp only: wm)
  have o: "ordered (?nxt + word_of_nat m) (drop m ?buf)"
    by (rule ordered_rebase [OF ord]) (simp only: wm ge)
  have b: "woff (?nxt + word_of_nat m) (s_sn t) < 2 ^ 31" if "t \<in> set (drop m ?buf)" for t
    using I(2) [of t] in_set_dropD [OF that] off [OF that] by simp
  have lq: "length ?q + m < 2 ^ 31"
  proof (cases m)
    case (Suc n)
    have "length ?q + n < 4294967296" using I(6) m31 Suc by simp
    moreover have "k_nrcv_que kcp + word_of_nat n = word_of_nat (length ?q + n)"
      using I(5) by simp
    ultimately have "unat (k_nrcv_que kcp + word_of_nat n) = length ?q + n"
      by (simp only: word_of_nat_eq_32)
    moreover have "unat (k_nrcv_que kcp + word_of_nat n) < unat (k_rcv_wnd kcp)"
      using room [of n] Suc by (simp only: word_less_nat_alt lessI)
    ultimately show ?thesis using I(7) Suc by linarith
  qed (use I(6) in simp)
  have "consec ?nxt (take m ?buf)"
    by (rule consecI) (use sns in simp)
  then have cq: "consec (?nxt + word_of_nat m - word_of_nat (length ?q + m)) (?q @ take m ?buf)"
    using I(3) by (simp add: consec_append algebra_simps)
  show ?thesis
    unfolding rcv_inv_def m
    using o b cq lq I(4,5,7,8) le
    by (auto simp: min_absorb2 of_nat_diff dest: in_set_dropD in_set_takeD)
qed

section \<open>Insertion into \<^verbatim>\<open>rcv_buf\<close>\<close>

abbreviation wkey :: "u32 \<Rightarrow> iseg \<Rightarrow> nat" where
  "wkey b s \<equiv> woff b (s_sn s)"

lemma insort_key_snoc:
  "\<forall>x \<in> set xs. f x < f y \<Longrightarrow> f z \<noteq> f y \<Longrightarrow>
   insort_key f z (xs @ [y]) = (if f y < f z then xs @ [y, z] else insort_key f z xs @ [y])"
  for f :: "'a \<Rightarrow> nat"
  by (induction xs) auto

lemma rcv_insert_rev_eq:
  assumes "ordered b buf" "\<forall>s \<in> set buf. wkey b s < 2 ^ 31" "wkey b ns < 2 ^ 31"
  shows "rcv_insert_rev ns (rev buf) =
    (if s_sn ns \<in> s_sn ` set buf then None else Some (rev (insort_key (wkey b) ns buf)))"
  using assms
proof (induction buf rule: rev_induct)
  case (snoc y xs)
  have lt: "\<forall>x \<in> set xs. wkey b x < wkey b y" and o: "ordered b xs"
    using snoc.prems(1) by (auto simp: ordered_append)
  have d: "itimediff (s_sn ns) (s_sn y) = int (wkey b ns) - int (wkey b y)"
    using snoc.prems(2,3) by (intro itimediff_woff) auto
  show ?case
  proof (cases "s_sn y = s_sn ns")
    case False
    then have ne: "wkey b ns \<noteq> wkey b y" by simp
    have nin: "s_sn ns \<notin> s_sn ` set xs" if "wkey b y < wkey b ns"
      using lt that by fastforce
    show ?thesis
      using False d nin snoc.IH [OF o] snoc.prems(2,3) insort_key_snoc [OF lt ne] by auto
  qed auto
qed simp

lemma ordered_insort:
  "ordered b buf \<Longrightarrow> s_sn ns \<notin> s_sn ` set buf \<Longrightarrow> ordered b (insort_key (wkey b) ns buf)"
proof (induction buf)
  case (Cons s buf)
  have "wkey b ns \<noteq> wkey b s" using Cons.prems(2) by auto
  with Cons show ?case by (fastforce simp: ordered_Cons set_insort_key)
qed (simp add: ordered_Cons)

text \<open>What \<^verbatim>\<open>ikcp_parse_data\<close> stores before the move loop.\<close>

definition rcv_store :: "ikcpcb \<Rightarrow> iseg \<Rightarrow> ikcpcb" where
  "rcv_store kcp newseg =
     (if s_sn newseg \<in> s_sn ` set (k_rcv_buf kcp) then kcp
      else kcp\<lparr>k_rcv_buf := insort_key (wkey (k_rcv_nxt kcp)) newseg (k_rcv_buf kcp),
               k_nrcv_buf := k_nrcv_buf kcp + 1\<rparr>)"

definition in_rcv_window :: "ikcpcb \<Rightarrow> u32 \<Rightarrow> bool" where
  "in_rcv_window kcp sn \<longleftrightarrow> woff (k_rcv_nxt kcp) sn < unat (k_rcv_wnd kcp)"

lemma in_rcv_window_iff:
  assumes "unat (k_rcv_wnd kcp) < 2 ^ 31"
  shows "in_rcv_window kcp sn \<longleftrightarrow>
    itimediff sn (k_rcv_nxt kcp) \<ge> 0 \<and> itimediff sn (k_rcv_nxt kcp + k_rcv_wnd kcp) < 0"
proof -
  let ?n = "k_rcv_nxt kcp" and ?w = "k_rcv_wnd kcp"
  have z: "itimediff sn ?n \<ge> 0 \<longleftrightarrow> woff ?n sn < 2 ^ 31"
    by (simp only: itimediff_nonneg woff_def)
  have wo: "woff ?n (?n + ?w) = unat ?w" by (rule woff_plus)
  show ?thesis
  proof (cases "woff ?n sn < 2 ^ 31")
    case True
    then have "itimediff sn (?n + ?w) = int (woff ?n sn) - int (unat ?w)"
      using itimediff_woff [of ?n sn "?n + ?w"] assms by (simp only: wo)
    with True z show ?thesis unfolding in_rcv_window_def by linarith
  next
    case False
    with z assms show ?thesis by (auto simp: in_rcv_window_def)
  qed
qed

lemma parse_data_eq:
  assumes "rcv_inv kcp"
  shows "ikcp_parse_data kcp ns =
    (if in_rcv_window kcp (s_sn ns) then rcv_move (rcv_store kcp ns) else kcp)"
proof -
  note I = rcv_invD [OF assms]
  have g: "(itimediff (s_sn ns) (k_rcv_nxt kcp + k_rcv_wnd kcp) \<ge> 0 \<or>
      itimediff (s_sn ns) (k_rcv_nxt kcp) < 0) \<longleftrightarrow> \<not> in_rcv_window kcp (s_sn ns)"
    unfolding in_rcv_window_iff [OF I(7)] by linarith
  show ?thesis
  proof (cases "in_rcv_window kcp (s_sn ns)")
    case True
    then have "wkey (k_rcv_nxt kcp) ns < 2 ^ 31"
      using I(7) by (simp add: in_rcv_window_def)
    then have ins: "rcv_insert_rev ns (rev (k_rcv_buf kcp)) =
        (if s_sn ns \<in> s_sn ` set (k_rcv_buf kcp) then None
         else Some (rev (insort_key (wkey (k_rcv_nxt kcp)) ns (k_rcv_buf kcp))))"
      using rcv_insert_rev_eq [OF I(1), of ns] I(2) by blast
    show ?thesis
      unfolding ikcp_parse_data_def Let_def ins rcv_store_def
      using True g by (simp only: if_True if_False not_True_eq_False) (simp split: if_splits)
  next
    case False
    with g show ?thesis by (simp only: ikcp_parse_data_def Let_def if_True if_False simp_thms)
  qed
qed

lemma rcv_store_inv [kcp_inv]:
  assumes "rcv_inv kcp" "in_rcv_window kcp (s_sn ns)" "seg_ok ns"
  shows "rcv_inv (rcv_store kcp ns)"
proof -
  note I = rcv_invD [OF assms(1)]
  have "wkey (k_rcv_nxt kcp) ns < 2 ^ 31"
    using assms(2) I(7) by (simp add: in_rcv_window_def)
  then show ?thesis
    using assms(1,3) ordered_insort [OF I(1), of ns]
    by (auto simp: rcv_inv_def rcv_store_def set_insort_key)
qed

lemma parse_data_inv [kcp_inv]: "rcv_inv kcp \<Longrightarrow> seg_ok ns \<Longrightarrow> rcv_inv (ikcp_parse_data kcp ns)"
  by (simp add: parse_data_eq kcp_inv)

section \<open>Taking a message\<close>

text \<open>The segments of the first message: up to the first one with fragment number 0.\<close>

fun first_msg :: "iseg list \<Rightarrow> iseg list" where
  "first_msg [] = []"
| "first_msg (s # p) = (if s_frg s = 0 then [s] else s # first_msg p)"

definition sum_len :: "iseg list \<Rightarrow> u32" where
  "sum_len p = sum_list (map s_len p)"

lemma first_msg_prefix: "take (length (first_msg p)) p = first_msg p"
  by (induction p) auto

lemma length_first_msg: "length (first_msg p) \<le> length p"
  by (induction p) auto

lemma set_first_msg: "set (first_msg p) \<subseteq> set p"
  by (induction p) auto

lemma peek_length_eq: "peek_length p len = len + sum_len (first_msg p)"
  by (induction p arbitrary: len) (auto simp: sum_len_def Let_def add.assoc)

lemma peeksize_eq:
  "ikcp_peeksize kcp =
     (case k_rcv_queue kcp of [] \<Rightarrow> -1
      | s # _ \<Rightarrow> if s_frg s \<noteq> 0 \<and> k_nrcv_que kcp < s_frg s + 1 then -1
               else sint (sum_len (first_msg (k_rcv_queue kcp))))"
  by (auto simp: ikcp_peeksize_def peek_length_eq sum_len_def split: list.splits)

lemma recv_merge_peek:
  "recv_merge True b p kcp out len =
     (kcp, if b then out @ concat (map seg_bytes (first_msg p)) else out,
      len + sum_len (first_msg p))"
  by (induction p arbitrary: out len) (auto simp: Let_def sum_len_def add.assoc)

lemma recv_merge_take:
  "k_rcv_queue kcp = p \<Longrightarrow>
   recv_merge False b p kcp out len =
     (kcp\<lparr>k_rcv_queue := drop (length (first_msg p)) p,
          k_nrcv_que := k_nrcv_que kcp - word_of_nat (length (first_msg p))\<rparr>,
      if b then out @ concat (map seg_bytes (first_msg p)) else out,
      len + sum_len (first_msg p))"
proof (induction p arbitrary: kcp out len)
  case (Cons s p)
  let ?k = "kcp\<lparr>k_rcv_queue := p, k_nrcv_que := k_nrcv_que kcp - 1\<rparr>"
  show ?case
    using Cons.prems Cons.IH [of ?k] by (auto simp: Let_def sum_len_def add.assoc diff_diff_eq)
qed (simp add: sum_len_def)

text \<open>The control block after a message (or, peeking, nothing) was taken from the queue.\<close>

definition recv_take :: "bool \<Rightarrow> ikcpcb \<Rightarrow> ikcpcb" where
  "recv_take ispeek kcp =
     (if ispeek then kcp
      else let n = length (first_msg (k_rcv_queue kcp))
           in kcp\<lparr>k_rcv_queue := drop n (k_rcv_queue kcp),
                  k_nrcv_que := k_nrcv_que kcp - word_of_nat n\<rparr>)"

definition recv_tell :: "bool \<Rightarrow> ikcpcb \<Rightarrow> ikcpcb" where
  "recv_tell recover kcp =
     (if k_nrcv_que kcp < k_rcv_wnd kcp \<and> recover
      then kcp\<lparr>k_probe := k_probe kcp OR IKCP_ASK_TELL\<rparr> else kcp)"

lemma recv_merge_eq:
  "recv_merge ispeek b (k_rcv_queue kcp) kcp [] 0 =
     (recv_take ispeek kcp,
      if b then concat (map seg_bytes (first_msg (k_rcv_queue kcp))) else [],
      sum_len (first_msg (k_rcv_queue kcp)))"
  by (cases ispeek) (simp_all add: recv_take_def recv_merge_peek recv_merge_take Let_def)

lemma ikcp_recv_eq:
  "ikcp_recv kcp b len =
     (let avail = (if len < 0 then i32 (- len) else len); size = ikcp_peeksize kcp
      in if k_rcv_queue kcp = [] then (-1, [], kcp)
         else if size < 0 then (-2, [], kcp)
         else if size > avail then (-3, [], kcp)
         else (sint (sum_len (first_msg (k_rcv_queue kcp))),
               if b then concat (map seg_bytes (first_msg (k_rcv_queue kcp))) else [],
               recv_tell (k_rcv_wnd kcp \<le> k_nrcv_que kcp) (rcv_move (recv_take (len < 0) kcp))))"
  by (simp add: ikcp_recv_def recv_merge_eq recv_tell_def Let_def split_beta)

lemma peeksize_first_msg:
  "0 \<le> ikcp_peeksize kcp \<Longrightarrow> ikcp_peeksize kcp = sint (sum_len (first_msg (k_rcv_queue kcp)))"
  by (auto simp: peeksize_eq split: list.splits if_splits)

lemma recv_take_inv [kcp_inv]:
  assumes "rcv_inv kcp"
  shows "rcv_inv (recv_take ispeek kcp)"
proof (cases ispeek)
  case True
  with assms show ?thesis by (simp add: recv_take_def)
next
  case False
  let ?q = "k_rcv_queue kcp" and ?n = "length (first_msg (k_rcv_queue kcp))"
  note I = rcv_invD [OF assms]
  have le: "?n \<le> length ?q" by (rule length_first_msg)
  have "consec (k_rcv_nxt kcp - word_of_nat (length ?q) + word_of_nat (length (take ?n ?q))) (drop ?n ?q)"
    using I(3) consec_append [of _ "take ?n ?q" "drop ?n ?q"] by simp
  then have "consec (k_rcv_nxt kcp - word_of_nat (length (drop ?n ?q))) (drop ?n ?q)"
    using le by (simp add: of_nat_diff algebra_simps min_absorb2)
  with False I le show ?thesis
    by (auto simp: recv_take_def rcv_inv_def Let_def of_nat_diff dest: in_set_dropD)
qed

lemma recv_tell_inv [kcp_inv]: "rcv_inv kcp \<Longrightarrow> rcv_inv (recv_tell r kcp)"
  by (simp add: recv_tell_def rcv_inv_def)

lemma recv_inv [kcp_inv]: "rcv_inv kcp \<Longrightarrow> rcv_inv (snd (snd (ikcp_recv kcp b len)))"
  by (simp add: ikcp_recv_eq Let_def kcp_inv)

section \<open>The receiver and the stream\<close>

text \<open>
  \<open>rcv_stream P N kcp\<close> for the peer's stream \<open>P\<close>: \<^verbatim>\<open>rcv_nxt\<close> stands for stream position \<open>N\<close>,
  \<^verbatim>\<open>rcv_queue\<close> holds the positions just before it, in order, and every segment of \<^verbatim>\<open>rcv_buf\<close> holds
  what the stream has at its position. \<open>rcv_taken\<close> is the position the application has read up to.
\<close>

definition rcv_stream :: "stream \<Rightarrow> nat \<Rightarrow> ikcpcb \<Rightarrow> bool" where
  "rcv_stream P N kcp \<longleftrightarrow>
     k_rcv_nxt kcp = word_of_nat N \<and>
     length (k_rcv_queue kcp) \<le> N \<and> N \<le> length P \<and>
     (\<forall>s \<in> set (k_rcv_buf kcp). N + woff (k_rcv_nxt kcp) (s_sn s) < length P \<and>
        payload s = P ! (N + woff (k_rcv_nxt kcp) (s_sn s))) \<and>
     map payload (k_rcv_queue kcp) = map (nth P) [N - length (k_rcv_queue kcp)..<N]"

definition rcv_taken :: "nat \<Rightarrow> ikcpcb \<Rightarrow> nat" where
  "rcv_taken N kcp = N - length (k_rcv_queue kcp)"

lemma rcv_move_stream:
  assumes "rcv_inv kcp" "rcv_stream P N kcp"
  shows "\<exists>N' \<ge> N. rcv_stream P N' (rcv_move kcp) \<and> rcv_taken N' (rcv_move kcp) = rcv_taken N kcp"
proof (rule rcv_move_offsets [OF assms(1)])
  fix m
  let ?nxt = "k_rcv_nxt kcp" and ?buf = "k_rcv_buf kcp" and ?q = "k_rcv_queue kcp"
  assume le: "m \<le> length ?buf" and m31: "m \<le> 2 ^ 31"
    and m: "rcv_move kcp = kcp\<lparr>k_rcv_buf := drop m ?buf,
        k_nrcv_buf := k_nrcv_buf kcp - word_of_nat m,
        k_rcv_queue := ?q @ take m ?buf,
        k_nrcv_que := k_nrcv_que kcp + word_of_nat m,
        k_rcv_nxt := ?nxt + word_of_nat m\<rparr>"
    and sns: "\<And>i. i < m \<Longrightarrow> s_sn (?buf ! i) = ?nxt + word_of_nat i"
    and wm: "woff ?nxt (?nxt + word_of_nat m) = m"
    and ge: "\<And>t. t \<in> set (drop m ?buf) \<Longrightarrow> m \<le> woff ?nxt (s_sn t)"
  have N: "?nxt = word_of_nat N" "length ?q \<le> N"
    "\<And>s. s \<in> set ?buf \<Longrightarrow> N + woff ?nxt (s_sn s) < length P \<and>
      payload s = P ! (N + woff ?nxt (s_sn s))"
    "map payload ?q = map (nth P) [N - length ?q..<N]" "N \<le> length P"
    using assms(2) by (auto simp: rcv_stream_def)
  have at: "N + i < length P \<and> payload (?buf ! i) = P ! (N + i)" if "i < m" for i
  proof -
    have "woff ?nxt (s_sn (?buf ! i)) = i"
      using sns [OF that] that m31 by (simp add: woff_plus word_of_nat_eq_32)
    then show ?thesis using N(3) [of "?buf ! i"] that le by simp
  qed
  then have "map payload (take m ?buf) = map (nth P) [N..<N + m]"
    using le by (intro nth_equalityI) auto
  then have q: "map payload (?q @ take m ?buf) = map (nth P) [N - length ?q..<N + m]"
    using N(2,4) upt_add_eq_append [of "N - length ?q" N m] by simp
  have b: "N + m + woff (?nxt + word_of_nat m) (s_sn s) < length P \<and>
      payload s = P ! (N + m + woff (?nxt + word_of_nat m) (s_sn s))"
    if "s \<in> set (drop m ?buf)" for s
    using woff_shift [of ?nxt "?nxt + word_of_nat m" "s_sn s"] ge [OF that] wm
      N(3) [OF in_set_dropD [OF that]] by simp
  have "N + m \<le> length P" using at [of "m - 1"] N(5) by (cases m) auto
  then have "rcv_stream P (N + m) (rcv_move kcp)"
    unfolding rcv_stream_def m using q b N(1,2) le by (auto simp: min_absorb2)
  moreover have "rcv_taken (N + m) (rcv_move kcp) = rcv_taken N kcp"
    unfolding rcv_taken_def m using le by (simp add: min_absorb2)
  ultimately show ?thesis by (intro exI [of _ "N + m"]) simp
qed

lemma rcv_store_stream:
  assumes "rcv_stream P N kcp" "N + woff (k_rcv_nxt kcp) (s_sn ns) < length P"
    and "payload ns = P ! (N + woff (k_rcv_nxt kcp) (s_sn ns))"
  shows "rcv_stream P N (rcv_store kcp ns)" "rcv_taken N (rcv_store kcp ns) = rcv_taken N kcp"
  using assms by (auto simp: rcv_stream_def rcv_store_def rcv_taken_def set_insort_key)

lemma parse_data_stream:
  assumes "rcv_inv kcp" "rcv_stream P N kcp" "seg_ok ns"
    and "in_rcv_window kcp (s_sn ns) \<Longrightarrow> N + woff (k_rcv_nxt kcp) (s_sn ns) < length P \<and>
      payload ns = P ! (N + woff (k_rcv_nxt kcp) (s_sn ns))"
  shows "\<exists>N' \<ge> N. rcv_stream P N' (ikcp_parse_data kcp ns) \<and>
    rcv_taken N' (ikcp_parse_data kcp ns) = rcv_taken N kcp"
proof (cases "in_rcv_window kcp (s_sn ns)")
  case True
  note st = rcv_store_stream [OF assms(2) conjunct1 [OF assms(4) [OF True]]
      conjunct2 [OF assms(4) [OF True]]]
  have "rcv_inv (rcv_store kcp ns)" using assms(1) True assms(3) by (rule rcv_store_inv)
  from rcv_move_stream [OF this st(1)] show ?thesis
    using True st(2) by (simp add: parse_data_eq [OF assms(1)])
next
  case False
  then show ?thesis using assms(2) by (auto simp: parse_data_eq [OF assms(1)])
qed

lemma recv_take_stream:
  assumes "rcv_stream P N kcp"
  shows "rcv_stream P N (recv_take False kcp)"
    and "rcv_taken N (recv_take False kcp) = rcv_taken N kcp + length (first_msg (k_rcv_queue kcp))"
    and "map payload (first_msg (k_rcv_queue kcp)) =
      map (nth P) [rcv_taken N kcp..<rcv_taken N (recv_take False kcp)]"
proof -
  let ?q = "k_rcv_queue kcp" and ?n = "length (first_msg (k_rcv_queue kcp))"
  have N: "length ?q \<le> N" "map payload ?q = map (nth P) [N - length ?q..<N]"
    using assms by (auto simp: rcv_stream_def)
  have le: "?n \<le> length ?q" by (rule length_first_msg)
  have "map payload (drop ?n ?q) = drop ?n (map (nth P) [N - length ?q..<N])"
    using N(2) by (simp add: drop_map [symmetric])
  also have "\<dots> = map (nth P) [N - length ?q + ?n..<N]"
    by (simp add: drop_map)
  finally show "rcv_stream P N (recv_take False kcp)"
    using assms le N by (auto simp: rcv_stream_def recv_take_def Let_def)
  show taken: "rcv_taken N (recv_take False kcp) = rcv_taken N kcp + ?n"
    using le N by (simp add: rcv_taken_def recv_take_def Let_def)
  have "map payload (take ?n ?q) = take ?n (map (nth P) [N - length ?q..<N])"
    using N(2) by (simp add: take_map [symmetric])
  also have "\<dots> = map (nth P) [N - length ?q..<N - length ?q + ?n]"
    using le N(1) by (simp add: take_map)
  finally show "map payload (first_msg ?q) =
      map (nth P) [rcv_taken N kcp..<rcv_taken N (recv_take False kcp)]"
    by (simp only: taken first_msg_prefix) (simp add: rcv_taken_def)
qed

lemma recv_tell_stream [simp]:
  "rcv_stream P N (recv_tell r kcp) = rcv_stream P N kcp"
  "rcv_taken N (recv_tell r kcp) = rcv_taken N kcp"
  by (simp_all add: recv_tell_def rcv_stream_def rcv_taken_def)

lemma rcv_stream_extend: "rcv_stream P N kcp \<Longrightarrow> rcv_stream (P @ Q) N kcp"
  by (auto simp: rcv_stream_def nth_append)

lemma recv_stream:
  assumes "rcv_inv kcp" "rcv_stream P N kcp" "ikcp_recv kcp True len = (r, out, kcp')" "0 \<le> len"
  shows "\<exists>N' \<ge> N. rcv_stream P N' kcp' \<and> rcv_taken N kcp \<le> rcv_taken N' kcp' \<and>
    out = concat (map (\<lambda>i. snd (P ! i)) [rcv_taken N kcp..<rcv_taken N' kcp'])"
proof (cases "r < 0 \<and> out = [] \<and> kcp' = kcp")
  case True
  with assms(2) show ?thesis by (intro exI [of _ N]) simp
next
  case False
  let ?q = "k_rcv_queue kcp" and ?t = "recv_take False kcp"
  have ok: "out = concat (map seg_bytes (first_msg ?q))"
    "kcp' = recv_tell (k_rcv_wnd kcp \<le> k_nrcv_que kcp) (rcv_move ?t)"
    using assms(3,4) False by (auto simp: ikcp_recv_eq Let_def split: if_splits)
  note t = recv_take_stream [OF assms(2)]
  have "rcv_inv ?t" by (simp add: kcp_inv assms(1))
  then obtain N' where N': "N' \<ge> N" "rcv_stream P N' (rcv_move ?t)"
    "rcv_taken N' (rcv_move ?t) = rcv_taken N ?t"
    using rcv_move_stream [OF _ t(1)] by blast
  have "seg_bytes s = snd (payload s)" if "s \<in> set (first_msg ?q)" for s
    using that set_first_msg [of ?q] rcv_invD(8) [OF assms(1), of s]
    by (auto simp: seg_bytes_def seg_ok_def payload_def)
  then have "map seg_bytes (first_msg ?q) = map snd (map payload (first_msg ?q))"
    by simp
  then have "out = concat (map (\<lambda>i. snd (P ! i)) [rcv_taken N kcp..<rcv_taken N' kcp'])"
    unfolding ok t(3) by (simp add: N'(3) comp_def)
  with N' t(2) ok show ?thesis by (intro exI [of _ N']) simp
qed

end
