(* ===== verification/Ikcp_Rtt.thy ===== *)
theory Ikcp_Rtt
  imports Ikcp_Cb
begin

text \<open>
  Round trip estimation: \<^verbatim>\<open>ikcp_update_ack\<close> (lines 508 to 531). The smoothed values are signed
  32-bit integers; \<^verbatim>\<open>_imax_\<close> and \<^verbatim>\<open>_ibound_\<close> compare unsigned, so the timeout is clamped
  even when an intermediate product overflows.
\<close>

definition ikcp_update_ack :: "ikcpcb \<Rightarrow> int \<Rightarrow> ikcpcb" where
  "ikcp_update_ack kcp rtt =
     (let kcp =
        (if k_rx_srtt kcp = 0 then
           kcp\<lparr>k_rx_srtt := rtt, k_rx_rttval := rtt sdiv 2\<rparr>
         else
           let delta = i32 (rtt - k_rx_srtt kcp);
               delta = (if delta < 0 then - delta else delta);
               rttval = i32 ((i32 (3 * k_rx_rttval kcp) + delta) sdiv 4);
               srtt = i32 (i32 (i32 (7 * k_rx_srtt kcp) + rtt) sdiv 8);
               srtt = (if srtt < 1 then 1 else srtt)
           in kcp\<lparr>k_rx_rttval := rttval, k_rx_srtt := srtt\<rparr>);
          rto = word_of_int (k_rx_srtt kcp) + imax 1 (word_of_int (4 * k_rx_rttval kcp))
      in kcp\<lparr>k_rx_rto := sint (ibound (word_of_int (k_rx_minrto kcp)) rto IKCP_RTO_MAX)\<rparr>)"

section \<open>Bounds\<close>

lemma update_ack_frame:
  "ikcp_update_ack kcp rtt =
     kcp\<lparr>k_rx_rttval := k_rx_rttval (ikcp_update_ack kcp rtt),
         k_rx_srtt := k_rx_srtt (ikcp_update_ack kcp rtt),
         k_rx_rto := k_rx_rto (ikcp_update_ack kcp rtt)\<rparr>"
  by (simp add: ikcp_update_ack_def Let_def)

lemma ibound_le: "unat lo \<le> unat hi \<Longrightarrow> unat lo \<le> unat (ibound lo m hi) \<and> unat (ibound lo m hi) \<le> unat hi"
  by (simp add: unat_ibound)

text \<open>
  \<open>rto_ok\<close>: the timeout and its lower limit are what the configuration calls and the clamp leave.
  \<open>rtt_ok B\<close>: no round trip longer than \<open>B\<close> milliseconds has been seen.
\<close>

definition rto_ok :: "ikcpcb \<Rightarrow> bool" where
  "rto_ok kcp \<longleftrightarrow> k_rx_minrto kcp \<in> {30, 100} \<and> 30 \<le> k_rx_rto kcp \<and> k_rx_rto kcp \<le> 60000"

definition rtt_ok :: "int \<Rightarrow> ikcpcb \<Rightarrow> bool" where
  "rtt_ok B kcp \<longleftrightarrow> 0 \<le> k_rx_srtt kcp \<and> k_rx_srtt kcp \<le> B \<and>
     0 \<le> k_rx_rttval kcp \<and> k_rx_rttval kcp \<le> B"

lemma unat_word_of_int_32: "0 \<le> x \<Longrightarrow> x < 4294967296 \<Longrightarrow> unat (word_of_int x :: u32) = nat x"
  by (simp add: unsigned_of_int take_bit_int_eq_self)

lemma sint_of_nat_range: "unat (x :: u32) < 2 ^ 31 \<Longrightarrow> sint x = int (unat x)"
  by (simp only: sint_32 if_True)

lemma rto_clamp:
  assumes "0 \<le> lo" "lo \<le> 60000"
  shows "sint (ibound (word_of_int lo) m IKCP_RTO_MAX) = min (max lo (uint m)) 60000"
proof -
  have u: "unat (ibound (word_of_int lo) m IKCP_RTO_MAX) = min (max (nat lo) (unat m)) 60000"
    using assms by (simp add: unat_ibound unat_word_of_int_32 IKCP_RTO_MAX_def)
  then have "sint (ibound (word_of_int lo) m IKCP_RTO_MAX) = int (min (max (nat lo) (unat m)) 60000)"
    using sint_of_nat_range [of "ibound (word_of_int lo) m IKCP_RTO_MAX"] unfolding u by simp
  also have "\<dots> = min (max (int (nat lo)) (int (unat m))) 60000"
    by (simp only: of_nat_min of_nat_max of_nat_numeral)
  finally show ?thesis using assms by simp
qed

lemma update_ack_sel [simp]:
  "k_rx_minrto (ikcp_update_ack kcp rtt) = k_rx_minrto kcp"
  by (simp add: ikcp_update_ack_def Let_def)

lemma update_ack_rto:
  assumes "k_rx_minrto kcp \<in> {30, 100}"
  shows "k_rx_minrto kcp \<le> k_rx_rto (ikcp_update_ack kcp rtt) \<and>
    k_rx_rto (ikcp_update_ack kcp rtt) \<le> 60000"
proof -
  have "\<exists>x. k_rx_rto (ikcp_update_ack kcp rtt) =
      sint (ibound (word_of_int (k_rx_minrto kcp)) x IKCP_RTO_MAX)"
    by (simp add: ikcp_update_ack_def Let_def) (intro conjI impI exI; rule refl)
  then show ?thesis using assms rto_clamp [of "k_rx_minrto kcp"] by auto
qed

lemma update_ack_rto_ok [kcp_inv]: "rto_ok kcp \<Longrightarrow> rto_ok (ikcp_update_ack kcp rtt)"
  using update_ack_rto [of kcp rtt] by (auto simp: rto_ok_def)

text \<open>Below the bound no intermediate result overflows and the estimator is the textbook one.\<close>

lemma update_ack_exact:
  assumes ok: "rtt_ok B kcp" "B < 2 ^ 28" and rtt: "0 \<le> rtt" "rtt \<le> B"
    and m: "k_rx_minrto kcp \<in> {30, 100}" and n0: "k_rx_srtt kcp \<noteq> 0"
    and v: "v = (3 * k_rx_rttval kcp + abs (rtt - k_rx_srtt kcp)) div 4"
    and s: "s = max 1 ((7 * k_rx_srtt kcp + rtt) div 8)"
  shows "ikcp_update_ack kcp rtt =
    kcp\<lparr>k_rx_rttval := v, k_rx_srtt := s,
        k_rx_rto := min (max (k_rx_minrto kcp) (s + max 1 (4 * v))) 60000\<rparr>"
    and "0 \<le> v \<and> v \<le> B \<and> 1 \<le> s \<and> s \<le> max 1 B"
proof -
  let ?a = "k_rx_srtt kcp" and ?v = "k_rx_rttval kcp"
  have B: "0 \<le> ?a" "?a \<le> B" "0 \<le> ?v" "?v \<le> B" "B < 268435456"
    using ok by (auto simp: rtt_ok_def)
  show bnd: "0 \<le> v \<and> v \<le> B \<and> 1 \<le> s \<and> s \<le> max 1 B"
    unfolding v s using B rtt by auto
  have d: "i32 (rtt - ?a) = rtt - ?a" using B rtt by (intro i32_id) auto
  have e: "(if rtt - ?a < 0 then - (rtt - ?a) else rtt - ?a) = abs (rtt - ?a)" by simp
  have f: "i32 (3 * ?v) = 3 * ?v" "i32 (7 * ?a) = 7 * ?a" "i32 (7 * ?a + rtt) = 7 * ?a + rtt"
    using B rtt by (auto intro!: i32_id)
  have g: "(3 * ?v + abs (rtt - ?a)) sdiv 4 = v" "(7 * ?a + rtt) sdiv 8 = (7 * ?a + rtt) div 8"
    using B rtt by (auto simp: v intro!: sdiv_nonneg)
  have h: "i32 v = v" "i32 ((7 * ?a + rtt) div 8) = (7 * ?a + rtt) div 8"
    using bnd B rtt by (auto intro!: i32_id)
  have i: "(if (7 * ?a + rtt) div 8 < 1 then 1 else (7 * ?a + rtt) div 8) = s"
    by (simp add: s)
  have "uint (imax 1 (word_of_int (4 * v))) = max 1 (4 * v)"
  proof -
    have "unat (imax 1 (word_of_int (4 * v))) = max 1 (nat (4 * v))"
      unfolding unat_imax using unat_word_of_int_32 [of "4 * v"] bnd B by (simp del: of_int_mult)
    then have "int (unat (imax 1 (word_of_int (4 * v)))) = int (max 1 (nat (4 * v)))" by (simp only:)
    then show ?thesis using bnd by (cases "v = 0") (simp_all del: of_nat_max add: max_def split: if_splits)
  qed
  then have j: "word_of_int s + imax 1 (word_of_int (4 * v)) = (word_of_int (s + max 1 (4 * v)) :: u32)"
    by (metis of_int_add word_of_int_uint)
  have u: "uint (word_of_int (s + max 1 (4 * v)) :: u32) = s + max 1 (4 * v)"
    using bnd B by (simp only: uint_word_of_int_eq) (rule take_bit_int_eq_self, auto)
  have r: "sint (ibound (word_of_int (k_rx_minrto kcp)) (word_of_int (s + max 1 (4 * v))) IKCP_RTO_MAX) =
      min (max (k_rx_minrto kcp) (s + max 1 (4 * v))) 60000"
    using rto_clamp [of "k_rx_minrto kcp" "word_of_int (s + max 1 (4 * v))"] m bnd B u by auto
  show "ikcp_update_ack kcp rtt =
    kcp\<lparr>k_rx_rttval := v, k_rx_srtt := s,
        k_rx_rto := min (max (k_rx_minrto kcp) (s + max 1 (4 * v))) 60000\<rparr>"
    unfolding ikcp_update_ack_def Let_def if_not_P [OF n0] d e f g h i
    using j r by simp
qed

end
