(* ===== verification/Ikcp_Send.thy ===== *)
theory Ikcp_Send
  imports Ikcp_Rtt Window
begin

text \<open>
  The sending side of \<^verbatim>\<open>kcp/ikcp.c\<close> outside the flush: \<^verbatim>\<open>ikcp_send\<close> (462 to 505), and what an
  acknowledgement does to \<^verbatim>\<open>snd_buf\<close>: \<^verbatim>\<open>ikcp_shrink_buf\<close>, \<^verbatim>\<open>ikcp_parse_ack\<close> and
  \<^verbatim>\<open>ikcp_parse_una\<close> (533 to 586).
\<close>

section \<open>Operations\<close>

text \<open>
  \<open>alloc i\<close> is what the allocation of fragment \<open>i\<close> returns: \<open>None\<close> for a null pointer, otherwise
  the block with its arbitrary contents. A null \<^verbatim>\<open>buffer\<close> is \<open>None\<close>; otherwise \<open>len\<close> bytes of
  the list are sent. Without a buffer the fragments keep the bytes of the fresh block.
\<close>

definition ikcp_segment_new :: "(nat \<Rightarrow> iseg option) \<Rightarrow> nat \<Rightarrow> iseg option" where
  "ikcp_segment_new alloc i = alloc i"

fun send_fragments :: "(nat \<Rightarrow> iseg option) \<Rightarrow> nat \<Rightarrow> nat \<Rightarrow> u8 list option \<Rightarrow> int \<Rightarrow> ikcpcb
    \<Rightarrow> int \<times> ikcpcb" where
  "send_fragments alloc count 0 buffer len kcp = (0, kcp)"
| "send_fragments alloc count (Suc left) buffer len kcp =
     (let i = count - Suc left;
          size = (if len > sint (k_mss kcp) then sint (k_mss kcp) else len)
      in case ikcp_segment_new alloc i of
           None \<Rightarrow> (-2, kcp)
         | Some seg \<Rightarrow>
             let seg = (case buffer of
                          Some b \<Rightarrow> if len > 0 then seg\<lparr>s_data := take (nat size) b\<rparr>
                                    else seg\<lparr>s_data := take (nat size) (s_data seg)\<rparr>
                        | None \<Rightarrow> seg\<lparr>s_data := take (nat size) (s_data seg)\<rparr>);
                 seg = seg\<lparr>s_len := word_of_int size,
                          s_frg := word_of_nat (count - i - 1)\<rparr>;
                 kcp = kcp\<lparr>k_snd_queue := k_snd_queue kcp @ [seg],
                          k_nsnd_que := k_nsnd_que kcp + 1\<rparr>;
                 buffer = map_option (drop (nat size)) buffer
             in send_fragments alloc count left buffer (len - size) kcp)"

definition send_count :: "u32 \<Rightarrow> int \<Rightarrow> int" where
  "send_count mss len =
     (if len \<le> sint mss then 1 else sint ((word_of_int len + mss - 1) div mss))"

definition ikcp_send :: "(nat \<Rightarrow> iseg option) \<Rightarrow> ikcpcb \<Rightarrow> u8 list option \<Rightarrow> int \<Rightarrow> int \<times> ikcpcb" where
  "ikcp_send alloc kcp buffer len =
     (if len < 0 then (-1, kcp)
      else
        let count = send_count (k_mss kcp) len
        in if count > 255 then (-2, kcp)
           else
             let count = (if count = 0 then 1 else count)
             in send_fragments alloc (nat count) (nat count) buffer len kcp)"

definition ikcp_shrink_buf :: "ikcpcb \<Rightarrow> ikcpcb" where
  "ikcp_shrink_buf kcp =
     (case k_snd_buf kcp of
        seg # _ \<Rightarrow> kcp\<lparr>k_snd_una := s_sn seg\<rparr>
      | [] \<Rightarrow> kcp\<lparr>k_snd_una := k_snd_nxt kcp\<rparr>)"

text \<open>The loop of \<^verbatim>\<open>ikcp_parse_ack\<close>; the flag says whether a segment was deleted.\<close>

fun parse_ack_loop :: "u32 \<Rightarrow> iseg list \<Rightarrow> iseg list \<times> bool" where
  "parse_ack_loop sn [] = ([], False)"
| "parse_ack_loop sn (seg # p) =
     (if sn = s_sn seg then (p, True)
      else let (p', found) = parse_ack_loop sn p
           in (seg\<lparr>s_fastack := s_fastack seg + 1\<rparr> # p', found))"

definition ikcp_parse_ack :: "ikcpcb \<Rightarrow> u32 \<Rightarrow> ikcpcb" where
  "ikcp_parse_ack kcp sn =
     (if itimediff sn (k_snd_una kcp) < 0 \<or> itimediff sn (k_snd_nxt kcp) \<ge> 0 then kcp
      else let (buf, found) = parse_ack_loop sn (k_snd_buf kcp)
           in kcp\<lparr>k_snd_buf := buf,
                  k_nsnd_buf := (if found then k_nsnd_buf kcp - 1 else k_nsnd_buf kcp)\<rparr>)"

fun parse_una_loop :: "u32 \<Rightarrow> iseg list \<Rightarrow> ikcpcb \<Rightarrow> ikcpcb" where
  "parse_una_loop una [] kcp = kcp"
| "parse_una_loop una (seg # p) kcp =
     (if itimediff una (s_sn seg) > 0
      then parse_una_loop una p
             (kcp\<lparr>k_snd_buf := p, k_nsnd_buf := k_nsnd_buf kcp - 1\<rparr>)
      else kcp)"

definition ikcp_parse_una :: "ikcpcb \<Rightarrow> u32 \<Rightarrow> ikcpcb" where
  "ikcp_parse_una kcp una = parse_una_loop una (k_snd_buf kcp) kcp"

section \<open>Fragmentation\<close>

lemma sint_of_unat: "unat (x :: u32) = M \<Longrightarrow> M < 2 ^ 31 \<Longrightarrow> sint x = int M"
  by (simp only: sint_32 if_True)

lemma ceil_div_le: "0 < M \<Longrightarrow> (l + M - 1) div M \<le> l" if "0 < l" for l M :: nat
proof -
  assume M: "0 < M"
  have "l + M - 1 < Suc l * M" using M that by (cases M) (auto simp: algebra_simps)
  then have "(l + M - 1) div M < Suc l" by (simp only: div_less_iff_less_mult [OF M])
  then show ?thesis by simp
qed

text \<open>The number of fragments, with \<open>M\<close> the maximum segment size.\<close>

definition n_fragments :: "nat \<Rightarrow> nat \<Rightarrow> nat" where
  "n_fragments M n = (if n \<le> M then 1 else (n + M - 1) div M)"

lemma send_count_eq:
  assumes M: "unat mss = M" "0 < M" "M < 2 ^ 31" and n: "n < 2 ^ 31"
  shows "send_count mss (int n) = int (n_fragments M n)"
proof (cases "n \<le> M")
  case True
  then show ?thesis
    by (simp add: send_count_def n_fragments_def sint_of_unat [OF M(1,3)])
next
  case False
  have "unat (word_of_nat n :: u32) = n" using n by (intro word_of_nat_eq_32) simp
  then have sum: "unat (word_of_nat n + mss) = n + M"
    using n M by (simp only: unat_plus_32) simp
  then have "unat (word_of_nat n + mss - 1) = n + M - 1"
    using M(2) unat_pred_32 [of "word_of_nat n + mss"] by simp
  then have q: "unat ((word_of_nat n + mss - 1) div mss) = (n + M - 1) div M"
    by (simp only: unat_div M(1))
  have "(n + M - 1) div M < 2 ^ 31" using ceil_div_le [of n M] False M(2) n by simp
  then have "sint ((word_of_nat n + mss - 1) div mss) = int ((n + M - 1) div M)"
    by (rule sint_of_unat [OF q])
  then show ?thesis
    using False by (simp add: send_count_def n_fragments_def sint_of_unat [OF M(1,3)])
qed

lemma n_fragments_pos: "0 < M \<Longrightarrow> 0 < n_fragments M n"
  by (auto simp: n_fragments_def div_greater_zero_iff)

lemma n_fragments_room: "0 < M \<Longrightarrow> n \<le> n_fragments M n * M"
proof (cases "n \<le> M")
  case False
  assume "0 < M"
  moreover have "(n + M - 1) div M * M + (n + M - 1) mod M = n + M - 1" by simp
  moreover have "(n + M - 1) mod M < M" using \<open>0 < M\<close> by simp
  ultimately have "n \<le> (n + M - 1) div M * M" by linarith
  with False show ?thesis by (simp add: n_fragments_def)
qed (simp add: n_fragments_def)

lemma send_fragments_spec:
  assumes "unat (k_mss kcp) = M" "0 < M" "M < 2 ^ 31"
    and "\<forall>i. alloc i \<noteq> None" "left \<le> count"
    and "n \<le> length b" "n \<le> left * M"
  shows "\<exists>segs. send_fragments alloc count left (Some b) (int n) kcp =
      (0, kcp\<lparr>k_snd_queue := k_snd_queue kcp @ segs,
              k_nsnd_que := k_nsnd_que kcp + word_of_nat left\<rparr>) \<and>
    length segs = left \<and>
    concat (map s_data segs) = take n b \<and>
    map s_frg segs = map word_of_nat (rev [0..<left]) \<and>
    (\<forall>s \<in> set segs. seg_ok s \<and> unat (s_len s) \<le> M)"
  using assms
proof (induction left arbitrary: n b kcp)
  case 0
  then show ?case by (intro exI [of _ "[]"]) simp
next
  case (Suc left)
  define size where "size = min n M"
  obtain fr where fr: "alloc (count - Suc left) = Some fr"
    using Suc.prems(4) by blast
  define seg where "seg = fr\<lparr>s_data := take size b, s_len := word_of_nat size,
    s_frg := word_of_nat left\<rparr>"
  define k' where "k' = kcp\<lparr>k_snd_queue := k_snd_queue kcp @ [seg], k_nsnd_que := k_nsnd_que kcp + 1\<rparr>"
  have sz: "(if int n > sint (k_mss kcp) then sint (k_mss kcp) else int n) = int size"
    unfolding sint_of_unat [OF Suc.prems(1,3)] size_def by simp
  have frg: "count - (count - Suc left) - 1 = left" using Suc.prems(5) by simp
  have rest: "int n - int size = int (n - size)" by (simp add: size_def)
  have "send_fragments alloc count (Suc left) (Some b) (int n) kcp =
      send_fragments alloc count left (Some (drop size b)) (int (n - size)) k'"
  proof (cases n)
    case 0
    then show ?thesis
      using fr frg unfolding send_fragments.simps Let_def sz rest ikcp_segment_new_def
      by (simp add: seg_def k'_def size_def)
  next
    case (Suc n')
    then show ?thesis
      using fr frg unfolding send_fragments.simps Let_def sz rest ikcp_segment_new_def
      by (simp add: seg_def k'_def)
  qed
  note step = this
  have sl: "unat (s_len seg) = size"
    using Suc.prems(3) by (simp add: seg_def) (intro word_of_nat_eq_32, simp add: size_def)
  have ok: "seg_ok seg" "unat (s_len seg) \<le> M"
    using sl Suc.prems(6) by (auto simp: seg_ok_def seg_def size_def)
  have "n - size \<le> left * M" using Suc.prems(7) by (auto simp: size_def)
  moreover have "n - size \<le> length (drop size b)" using Suc.prems(6) by simp
  moreover have "unat (k_mss k') = M" using Suc.prems(1) by (simp add: k'_def)
  ultimately obtain segs where segs:
    "send_fragments alloc count left (Some (drop size b)) (int (n - size)) k' =
      (0, k'\<lparr>k_snd_queue := k_snd_queue k' @ segs, k_nsnd_que := k_nsnd_que k' + word_of_nat left\<rparr>)"
    "length segs = left" "concat (map s_data segs) = take (n - size) (drop size b)"
    "map s_frg segs = map word_of_nat (rev [0..<left])"
    "\<forall>s \<in> set segs. seg_ok s \<and> unat (s_len s) \<le> M"
    using Suc.IH [of k' "n - size" "drop size b"] Suc.prems(2-5) by auto
  have "take size b @ take (n - size) (drop size b) = take n b"
    using take_add [of size "n - size" b] by (simp add: size_def)
  with segs ok step show ?case
    by (intro exI [of _ "seg # segs"]) (simp add: k'_def seg_def ac_simps)
qed

lemma ikcp_send_spec:
  assumes M: "unat (k_mss kcp) = M" "0 < M" "M < 2 ^ 31" and alloc: "\<forall>i. alloc i \<noteq> None"
    and n: "length b < 2 ^ 31" "n_fragments M (length b) \<le> 255"
  obtains segs where
    "ikcp_send alloc kcp (Some b) (int (length b)) =
      (0, kcp\<lparr>k_snd_queue := k_snd_queue kcp @ segs,
              k_nsnd_que := k_nsnd_que kcp + word_of_nat (length segs)\<rparr>)"
    "length segs = n_fragments M (length b)"
    "concat (map s_data segs) = b"
    "map s_frg segs = map word_of_nat (rev [0..<length segs])"
    "\<And>s. s \<in> set segs \<Longrightarrow> seg_ok s \<and> unat (s_len s) \<le> M"
proof -
  let ?c = "n_fragments M (length b)"
  note c = send_count_eq [OF M n(1)] n_fragments_pos [OF M(2), of "length b"]
    n_fragments_room [OF M(2), of "length b"]
  obtain segs where s: "send_fragments alloc ?c ?c (Some b) (int (length b)) kcp =
      (0, kcp\<lparr>k_snd_queue := k_snd_queue kcp @ segs,
              k_nsnd_que := k_nsnd_que kcp + word_of_nat ?c\<rparr>)"
    "length segs = ?c" "concat (map s_data segs) = take (length b) b"
    "map s_frg segs = map word_of_nat (rev [0..<?c])"
    "\<forall>s \<in> set segs. seg_ok s \<and> unat (s_len s) \<le> M"
    using send_fragments_spec [OF M alloc order_refl order_refl c(3)] by blast
  have "ikcp_send alloc kcp (Some b) (int (length b)) =
      send_fragments alloc ?c ?c (Some b) (int (length b)) kcp"
    using c n(2) by (simp add: ikcp_send_def Let_def)
  with s show thesis by (intro that [of segs]) auto
qed

lemma ikcp_send_too_long:
  assumes M: "unat (k_mss kcp) = M" "0 < M" "M < 2 ^ 31"
    and n: "n < 2 ^ 31" "255 < n_fragments M n"
  shows "ikcp_send alloc kcp buffer (int n) = (-2, kcp)"
  using send_count_eq [OF M n(1)] n(2) by (simp add: ikcp_send_def)

section \<open>The sender invariant\<close>

text \<open>
  \<^verbatim>\<open>snd_buf\<close> is ordered from \<^verbatim>\<open>snd_una\<close> on and below \<^verbatim>\<open>snd_nxt\<close>, the window between the two is
  smaller than the 16-bit window field, the counters are the lengths, and every segment in flight
  is a well-formed data segment of this conversation. \<open>snd_inv\<close> adds that \<^verbatim>\<open>snd_una\<close> is the first
  number in flight, which the calls of \<^verbatim>\<open>ikcp_shrink_buf\<close> restore after a removal.
\<close>

definition seg_frg_ok :: "iseg \<Rightarrow> bool" where
  "seg_frg_ok s \<longleftrightarrow> seg_ok s \<and> unat (s_frg s) < 256"

definition snd_win :: "ikcpcb \<Rightarrow> bool" where
  "snd_win kcp \<longleftrightarrow>
     ordered (k_snd_una kcp) (k_snd_buf kcp) \<and>
     (\<forall>s \<in> set (k_snd_buf kcp). woff (k_snd_una kcp) (s_sn s) < woff (k_snd_una kcp) (k_snd_nxt kcp)) \<and>
     woff (k_snd_una kcp) (k_snd_nxt kcp) \<le> 65535 \<and>
     unat (k_rmt_wnd kcp) \<le> 65535 \<and>
     k_nsnd_buf kcp = word_of_nat (length (k_snd_buf kcp)) \<and>
     k_nsnd_que kcp = word_of_nat (length (k_snd_queue kcp)) \<and>
     (\<forall>s \<in> set (k_snd_buf kcp) \<union> set (k_snd_queue kcp). seg_frg_ok s) \<and>
     (\<forall>s \<in> set (k_snd_buf kcp). s_conv s = k_conv kcp \<and> s_cmd s = IKCP_CMD_PUSH)"

definition snd_head :: "ikcpcb \<Rightarrow> bool" where
  "snd_head kcp \<longleftrightarrow>
     k_snd_una kcp = (case k_snd_buf kcp of [] \<Rightarrow> k_snd_nxt kcp | s # _ \<Rightarrow> s_sn s)"

definition snd_inv :: "ikcpcb \<Rightarrow> bool" where
  "snd_inv kcp \<longleftrightarrow> snd_win kcp \<and> snd_head kcp"

lemma snd_winD:
  assumes "snd_win kcp"
  shows "ordered (k_snd_una kcp) (k_snd_buf kcp)"
    and "s \<in> set (k_snd_buf kcp) \<Longrightarrow>
      woff (k_snd_una kcp) (s_sn s) < woff (k_snd_una kcp) (k_snd_nxt kcp)"
    and "woff (k_snd_una kcp) (k_snd_nxt kcp) \<le> 65535"
    and "unat (k_rmt_wnd kcp) \<le> 65535"
    and "k_nsnd_buf kcp = word_of_nat (length (k_snd_buf kcp))"
    and "k_nsnd_que kcp = word_of_nat (length (k_snd_queue kcp))"
    and "s \<in> set (k_snd_buf kcp) \<union> set (k_snd_queue kcp) \<Longrightarrow> seg_frg_ok s"
    and "s \<in> set (k_snd_buf kcp) \<Longrightarrow> s_conv s = k_conv kcp \<and> s_cmd s = IKCP_CMD_PUSH"
  using assms unfolding snd_win_def by auto

lemma snd_winI:
  assumes "ordered (k_snd_una kcp) (k_snd_buf kcp)"
    and "\<And>s. s \<in> set (k_snd_buf kcp) \<Longrightarrow>
      woff (k_snd_una kcp) (s_sn s) < woff (k_snd_una kcp) (k_snd_nxt kcp)"
    and "woff (k_snd_una kcp) (k_snd_nxt kcp) \<le> 65535"
    and "unat (k_rmt_wnd kcp) \<le> 65535"
    and "k_nsnd_buf kcp = word_of_nat (length (k_snd_buf kcp))"
    and "k_nsnd_que kcp = word_of_nat (length (k_snd_queue kcp))"
    and "\<And>s. s \<in> set (k_snd_buf kcp) \<union> set (k_snd_queue kcp) \<Longrightarrow> seg_frg_ok s"
    and "\<And>s. s \<in> set (k_snd_buf kcp) \<Longrightarrow> s_conv s = k_conv kcp \<and> s_cmd s = IKCP_CMD_PUSH"
  shows "snd_win kcp"
  using assms unfolding snd_win_def by auto

section \<open>Acknowledgements\<close>

lemma parse_una_loop_eq:
  "k_snd_buf kcp = buf \<Longrightarrow> parse_una_loop una buf kcp =
     kcp\<lparr>k_snd_buf := dropWhile (\<lambda>s. itimediff una (s_sn s) > 0) buf,
         k_nsnd_buf := k_nsnd_buf kcp -
           word_of_nat (length (takeWhile (\<lambda>s. itimediff una (s_sn s) > 0) buf))\<rparr>"
proof (induction buf arbitrary: kcp)
  case (Cons s buf)
  then show ?case by (auto simp: Cons.IH diff_diff_eq)
qed simp

lemma parse_una_eq:
  "ikcp_parse_una kcp una =
     kcp\<lparr>k_snd_buf := dropWhile (\<lambda>s. itimediff una (s_sn s) > 0) (k_snd_buf kcp),
         k_nsnd_buf := k_nsnd_buf kcp -
           word_of_nat (length (takeWhile (\<lambda>s. itimediff una (s_sn s) > 0) (k_snd_buf kcp)))\<rparr>"
  unfolding ikcp_parse_una_def by (rule parse_una_loop_eq) simp

lemma length_take_dropWhile: "length (takeWhile P xs) + length (dropWhile P xs) = length xs"
  by (metis length_append takeWhile_dropWhile_id)

lemma ordered_dropWhile: "ordered b xs \<Longrightarrow> ordered b (dropWhile P xs)"
  using ordered_append [of b "takeWhile P xs" "dropWhile P xs"] by simp

lemma parse_una_win [kcp_inv]:
  assumes "snd_win kcp"
  shows "snd_win (ikcp_parse_una kcp una)"
proof -
  let ?P = "\<lambda>s. itimediff una (s_sn s) > 0" and ?buf = "k_snd_buf kcp"
  note I = snd_winD [OF assms]
  have "word_of_nat (length ?buf) - word_of_nat (length (takeWhile ?P ?buf)) =
      (word_of_nat (length (dropWhile ?P ?buf)) :: u32)"
    using length_take_dropWhile [of ?P ?buf] by (metis add_diff_cancel_left' of_nat_add)
  with I ordered_dropWhile [OF I(1), of ?P] show ?thesis
    by (auto simp: snd_win_def parse_una_eq dest: set_dropWhileD)
qed

definition bump :: "iseg \<Rightarrow> iseg" where
  "bump s = s\<lparr>s_fastack := s_fastack s + 1\<rparr>"

lemma bump_sel [simp]:
  "s_sn (bump s) = s_sn s" "s_frg (bump s) = s_frg s" "s_len (bump s) = s_len s"
  "s_data (bump s) = s_data s" "s_conv (bump s) = s_conv s" "s_cmd (bump s) = s_cmd s"
  "seg_ok (bump s) = seg_ok s" "seg_frg_ok (bump s) = seg_frg_ok s" "payload (bump s) = payload s"
  by (simp_all add: bump_def seg_ok_def seg_frg_ok_def payload_def)

lemma parse_ack_loop_eq:
  "parse_ack_loop sn buf =
     (map bump (takeWhile (\<lambda>s. s_sn s \<noteq> sn) buf) @ tl (dropWhile (\<lambda>s. s_sn s \<noteq> sn) buf),
      sn \<in> s_sn ` set buf)"
  by (induction buf) (auto simp: split_beta bump_def)

lemma parse_ack_loop_sub:
  "s \<in> set (fst (parse_ack_loop sn buf)) \<Longrightarrow> \<exists>t \<in> set buf. s = t \<or> s = bump t"
  by (induction buf) (auto simp: split_beta bump_def split: if_splits)

lemma parse_ack_loop_length:
  "length (fst (parse_ack_loop sn buf)) + (if sn \<in> s_sn ` set buf then 1 else 0) = length buf"
  by (induction buf) (auto simp: split_beta)

lemma parse_ack_loop_ordered: "ordered b buf \<Longrightarrow> ordered b (fst (parse_ack_loop sn buf))"
proof (induction buf)
  case (Cons s buf)
  have "woff b (s_sn s) < woff b (s_sn t)" if "t \<in> set (fst (parse_ack_loop sn buf))" for t
    using parse_ack_loop_sub [OF that] Cons.prems by (auto simp: ordered_Cons)
  with Cons show ?case by (auto simp: split_beta ordered_Cons)
qed simp

lemma parse_ack_win [kcp_inv]:
  assumes "snd_win kcp"
  shows "snd_win (ikcp_parse_ack kcp sn)"
proof (cases "itimediff sn (k_snd_una kcp) < 0 \<or> itimediff sn (k_snd_nxt kcp) \<ge> 0")
  case True
  with assms show ?thesis by (simp add: ikcp_parse_ack_def)
next
  case False
  let ?buf = "k_snd_buf kcp"
  let ?b = "fst (parse_ack_loop sn ?buf)"
  note I = snd_winD [OF assms]
  have sub: "\<exists>t \<in> set ?buf. s = t \<or> s = bump t" if "s \<in> set ?b" for s
    using that by (rule parse_ack_loop_sub)
  have eq: "ikcp_parse_ack kcp sn = kcp\<lparr>k_snd_buf := ?b,
      k_nsnd_buf := (if sn \<in> s_sn ` set ?buf then k_nsnd_buf kcp - 1 else k_nsnd_buf kcp)\<rparr>"
    using False by (simp add: ikcp_parse_ack_def split_beta parse_ack_loop_eq)
  have n: "(if sn \<in> s_sn ` set ?buf then k_nsnd_buf kcp - 1 else k_nsnd_buf kcp) =
      word_of_nat (length ?b)"
    unfolding I(5) using parse_ack_loop_length [of sn ?buf, symmetric] by (simp split: if_splits)
  have segs: "woff (k_snd_una kcp) (s_sn s) < woff (k_snd_una kcp) (k_snd_nxt kcp) \<and>
      seg_frg_ok s \<and> s_conv s = k_conv kcp \<and> s_cmd s = IKCP_CMD_PUSH" if "s \<in> set ?b" for s
    using sub [OF that] I(2,7,8) by auto
  show ?thesis
    unfolding eq n
    by (rule snd_winI) (use I(3,4,6,7) segs parse_ack_loop_ordered [OF I(1), of sn] in auto)
qed

lemma shrink_buf_inv [kcp_inv]:
  assumes "snd_win kcp"
  shows "snd_inv (ikcp_shrink_buf kcp)"
proof -
  note I = snd_winD [OF assms]
  let ?una = "k_snd_una kcp" and ?nxt = "k_snd_nxt kcp" and ?buf = "k_snd_buf kcp"
  show ?thesis
  proof (cases ?buf)
    case Nil
    with I show ?thesis
      by (simp add: snd_inv_def snd_win_def snd_head_def ikcp_shrink_buf_def)
  next
    case (Cons s p)
    have le: "woff ?una (s_sn s) \<le> woff ?una (s_sn t)" if "t \<in> set ?buf" for t
      using I(1) Cons that by (auto simp: ordered_Cons)
    have lt: "woff ?una (s_sn s) < woff ?una ?nxt" using I(2) Cons by simp
    have sh: "woff (s_sn s) x = woff ?una x - woff ?una (s_sn s)" if "woff ?una (s_sn s) \<le> woff ?una x" for x
      using that by (rule woff_shift)
    have "ordered (s_sn s) ?buf" using ordered_rebase [OF I(1) le] .
    moreover have "woff (s_sn s) (s_sn t) < woff (s_sn s) ?nxt" if "t \<in> set ?buf" for t
      using I(2) [OF that] le [OF that] lt by (simp add: sh)
    moreover have "woff (s_sn s) ?nxt \<le> 65535" using lt I(3) by (simp add: sh)
    moreover have eq: "ikcp_shrink_buf kcp = kcp\<lparr>k_snd_una := s_sn s\<rparr>"
      using Cons by (simp add: ikcp_shrink_buf_def)
    ultimately have "snd_win (ikcp_shrink_buf kcp)"
      unfolding eq by (intro snd_winI) (use I(4-8) in auto)
    then show ?thesis using Cons by (simp add: snd_inv_def snd_head_def eq)
  qed
qed

lemma shrink_buf_una:
  assumes "snd_win kcp"
  shows "woff (k_snd_una kcp) (k_snd_una (ikcp_shrink_buf kcp)) \<le> woff (k_snd_una kcp) (k_snd_nxt kcp)"
  using snd_winD(2) [OF assms] by (cases "k_snd_buf kcp") (auto simp: ikcp_shrink_buf_def less_imp_le)

end
