(* ===== verification/Ikcp_Ack.thy ===== *)
theory Ikcp_Ack
  imports Ikcp_Cb
begin

text \<open>
  The list of acknowledgements to send: \<^verbatim>\<open>ikcp_ack_push\<close> (592 to 628) and \<^verbatim>\<open>ikcp_ack_get\<close>
  (630 to 634). The code keeps a flat array of \<^verbatim>\<open>2 * ackblock\<close> integers, pairs of a sequence
  number and a timestamp, and doubles it when it is full; what it promises its callers is a
  list of pairs, \<open>acks\<close>.
\<close>

section \<open>Operations\<close>

text \<open>
  The contents of freshly allocated memory: \<open>fresh_cell i\<close> is cell \<open>i\<close> of a new array,
  \<open>fresh_seg\<close> the fields of a new segment.
\<close>

record fresh_mem =
  fresh_cell :: "nat \<Rightarrow> u32"
  fresh_seg :: iseg

text \<open>\<^verbatim>\<open>for (newblock = 8; newblock < newsize; newblock <<= 1);\<close> on \<^verbatim>\<open>size_t\<close>.\<close>

function grow_block :: "nat \<Rightarrow> nat \<Rightarrow> nat" where
  "grow_block newblock newsize =
     (if 0 < newblock \<and> newblock < newsize then grow_block (2 * newblock) newsize else newblock)"
  by pat_completeness auto
termination
  by (relation "measure (\<lambda>(b, n). n - b)") auto

declare grow_block.simps [simp del]

fun copy_cells :: "nat \<Rightarrow> u32 list \<Rightarrow> u32 list \<Rightarrow> u32 list" where
  "copy_cells 0 old new = new"
| "copy_cells (Suc x) old new =
     (copy_cells x old new)[x * 2 + 0 := old ! (x * 2 + 0), x * 2 + 1 := old ! (x * 2 + 1)]"

definition ikcp_ack_push :: "fresh_mem \<Rightarrow> ikcpcb \<Rightarrow> u32 \<Rightarrow> u32 \<Rightarrow> ikcpcb" where
  "ikcp_ack_push mem kcp sn ts =
     (let newsize = unat (k_ackcount kcp + 1);
          kcp = (if newsize > unat (k_ackblock kcp) then
                   let newblock = grow_block 8 newsize;
                       acklist = map (fresh_cell mem) [0..<newblock * 2];
                       acklist = (case k_acklist kcp of
                                    None \<Rightarrow> acklist
                                  | Some old \<Rightarrow> copy_cells (unat (k_ackcount kcp)) old acklist)
                   in kcp\<lparr>k_acklist := Some acklist, k_ackblock := word_of_nat newblock\<rparr>
                 else kcp);
          p = unat (k_ackcount kcp * 2)
      in kcp\<lparr>k_acklist := map_option (\<lambda>l. l[p := sn, p + 1 := ts]) (k_acklist kcp),
             k_ackcount := k_ackcount kcp + 1\<rparr>)"

text \<open>
  \<^verbatim>\<open>ikcp_ack_get\<close> with both result pointers set, as its only caller has them.
\<close>

definition ikcp_ack_get :: "ikcpcb \<Rightarrow> nat \<Rightarrow> u32 \<times> u32" where
  "ikcp_ack_get kcp p =
     (case k_acklist kcp of
        None \<Rightarrow> (0, 0)
      | Some l \<Rightarrow> (l ! (p * 2 + 0), l ! (p * 2 + 1)))"

section \<open>The list of pairs\<close>

definition acks :: "ikcpcb \<Rightarrow> (u32 \<times> u32) list" where
  "acks kcp = map (ikcp_ack_get kcp) [0..<unat (k_ackcount kcp)]"

text \<open>
  The invariant: the array exists when there is a pair in it, has two cells for every pair that
  fits, and the numbers of pairs are far from the end of the 32-bit range.
\<close>

definition ack_inv :: "ikcpcb \<Rightarrow> bool" where
  "ack_inv kcp \<longleftrightarrow>
     unat (k_ackcount kcp) \<le> unat (k_ackblock kcp) \<and>
     (case k_acklist kcp of
        None \<Rightarrow> k_ackblock kcp = 0
      | Some l \<Rightarrow> length l = 2 * unat (k_ackblock kcp))"

lemma grow_block_props:
  "0 < b \<Longrightarrow> n \<le> grow_block b n \<and> b \<le> grow_block b n \<and> grow_block b n \<le> max b (2 * n)"
proof (induction b n rule: grow_block.induct)
  case (1 b n)
  then show ?case by (subst (1 2 3) grow_block.simps) auto
qed

lemma length_copy_cells [simp]: "length (copy_cells n old new) = length new"
  by (induction n) simp_all

lemma copy_cells_nth:
  "2 * n \<le> length new \<Longrightarrow> i < 2 * n \<Longrightarrow> copy_cells n old new ! i = old ! i"
proof (induction n)
  case (Suc n)
  then consider "i < 2 * n" | "i = 2 * n" | "i = Suc (2 * n)" by force
  then show ?case using Suc by cases (simp_all add: mult.commute nth_list_update)
qed simp

section \<open>The array implements the list\<close>

text \<open>The pairs in a flat array, and what the invariant says of it.\<close>

definition cell_pairs :: "nat \<Rightarrow> u32 list \<Rightarrow> (u32 \<times> u32) list" where
  "cell_pairs n l = map (\<lambda>i. (l ! (2 * i), l ! (2 * i + 1))) [0..<n]"

lemma acks_cells: "k_acklist kcp = Some l \<Longrightarrow> acks kcp = cell_pairs (unat (k_ackcount kcp)) l"
  by (simp add: acks_def cell_pairs_def ikcp_ack_get_def mult.commute)

lemma acks_None: "ack_inv kcp \<Longrightarrow> k_acklist kcp = None \<Longrightarrow> acks kcp = [] \<and> unat (k_ackcount kcp) = 0"
  by (auto simp: ack_inv_def acks_def)

lemma cell_pairs_cong:
  "(\<And>i. i < 2 * n \<Longrightarrow> l ! i = l' ! i) \<Longrightarrow> cell_pairs n l = cell_pairs n l'"
  by (simp add: cell_pairs_def)

lemma cell_pairs_snoc:
  "2 * n + 1 < length l \<Longrightarrow>
   cell_pairs (Suc n) (l[2 * n := sn, 2 * n + 1 := ts]) = cell_pairs n l @ [(sn, ts)]"
  by (auto simp: cell_pairs_def nth_list_update)

text \<open>The step that makes room, and the step that writes the pair.\<close>

definition ack_room :: "fresh_mem \<Rightarrow> ikcpcb \<Rightarrow> ikcpcb" where
  "ack_room mem kcp =
     (let newsize = unat (k_ackcount kcp + 1)
      in if newsize > unat (k_ackblock kcp) then
           let newblock = grow_block 8 newsize;
               acklist = map (fresh_cell mem) [0..<newblock * 2];
               acklist = (case k_acklist kcp of
                            None \<Rightarrow> acklist
                          | Some old \<Rightarrow> copy_cells (unat (k_ackcount kcp)) old acklist)
           in kcp\<lparr>k_acklist := Some acklist, k_ackblock := word_of_nat newblock\<rparr>
         else kcp)"

definition ack_write :: "ikcpcb \<Rightarrow> u32 \<Rightarrow> u32 \<Rightarrow> ikcpcb" where
  "ack_write kcp sn ts =
     (let p = unat (k_ackcount kcp * 2)
      in kcp\<lparr>k_acklist := map_option (\<lambda>l. l[p := sn, p + 1 := ts]) (k_acklist kcp),
             k_ackcount := k_ackcount kcp + 1\<rparr>)"

lemma ack_push_split: "ikcp_ack_push mem kcp sn ts = ack_write (ack_room mem kcp) sn ts"
  by (simp add: ikcp_ack_push_def ack_room_def ack_write_def Let_def)

lemma ack_room_ok:
  assumes inv: "ack_inv kcp" and n: "unat (k_ackcount kcp) < 2 ^ 29"
  obtains l where "k_acklist (ack_room mem kcp) = Some l"
    "length l = 2 * unat (k_ackblock (ack_room mem kcp))"
    "unat (k_ackcount kcp) < unat (k_ackblock (ack_room mem kcp))"
    "cell_pairs (unat (k_ackcount kcp)) l = acks kcp"
    "k_ackcount (ack_room mem kcp) = k_ackcount kcp"
proof -
  let ?c = "unat (k_ackcount kcp)"
  have s: "unat (k_ackcount kcp + 1) = Suc ?c" using n by (simp add: unat_Suc_32)
  show thesis
  proof (cases "Suc ?c > unat (k_ackblock kcp)")
    case False
    then have r: "ack_room mem kcp = kcp" by (simp add: ack_room_def s)
    from False obtain l where l: "k_acklist kcp = Some l" "length l = 2 * unat (k_ackblock kcp)"
      using inv by (auto simp: ack_inv_def split: option.splits)
    then show thesis using False by (intro that [of l]) (simp_all add: r acks_cells)
  next
    case True
    let ?b = "grow_block 8 (Suc ?c)"
    let ?f = "map (fresh_cell mem) [0..<?b * 2]"
    let ?l = "case k_acklist kcp of None \<Rightarrow> ?f | Some old \<Rightarrow> copy_cells ?c old ?f"
    have b: "Suc ?c \<le> ?b" "?b \<le> max 8 (2 * Suc ?c)"
      using grow_block_props [of 8 "Suc ?c"] by simp_all
    then have ub: "unat (word_of_nat ?b :: u32) = ?b"
      using n by (intro word_of_nat_eq_32) simp
    have r: "ack_room mem kcp = kcp\<lparr>k_acklist := Some ?l, k_ackblock := word_of_nat ?b\<rparr>"
      using True by (simp add: ack_room_def s Let_def)
    have "cell_pairs ?c ?l = acks kcp"
    proof (cases "k_acklist kcp")
      case None
      then show ?thesis using acks_None [OF inv] by (simp add: cell_pairs_def)
    next
      case (Some old)
      then show ?thesis using b(1)
        by (simp add: acks_cells) (rule cell_pairs_cong, rule copy_cells_nth, simp_all)
    qed
    moreover have "length ?l = 2 * ?b" by (simp split: option.split)
    ultimately show thesis using b(1) by (intro that [of ?l]) (simp_all add: r ub)
  qed
qed

lemma ack_push_acks:
  assumes "ack_inv kcp" "unat (k_ackcount kcp) < 2 ^ 29"
  shows "acks (ikcp_ack_push mem kcp sn ts) = acks kcp @ [(sn, ts)]"
    and "ack_inv (ikcp_ack_push mem kcp sn ts)"
    and "unat (k_ackcount (ikcp_ack_push mem kcp sn ts)) = Suc (unat (k_ackcount kcp))"
proof -
  let ?c = "unat (k_ackcount kcp)" and ?r = "ack_room mem kcp"
  obtain l where l: "k_acklist ?r = Some l" "length l = 2 * unat (k_ackblock ?r)"
    "?c < unat (k_ackblock ?r)" "cell_pairs ?c l = acks kcp" "k_ackcount ?r = k_ackcount kcp"
    using ack_room_ok [OF assms] .
  have s: "unat (k_ackcount kcp + 1) = Suc ?c" using assms(2) by (simp add: unat_Suc_32)
  have "unat (k_ackcount kcp * 2) = ?c * 2"
    using assms(2) by (simp add: unat_word_ariths)
  then have w: "ikcp_ack_push mem kcp sn ts =
      ?r\<lparr>k_acklist := Some (l[2 * ?c := sn, 2 * ?c + 1 := ts]), k_ackcount := k_ackcount kcp + 1\<rparr>"
    by (simp add: ack_push_split ack_write_def l mult.commute Let_def)
  show "acks (ikcp_ack_push mem kcp sn ts) = acks kcp @ [(sn, ts)]"
    unfolding w using l s cell_pairs_snoc [of ?c l sn ts] by (simp add: acks_cells)
  show "ack_inv (ikcp_ack_push mem kcp sn ts)"
    unfolding w using l s by (simp add: ack_inv_def)
  show "unat (k_ackcount (ikcp_ack_push mem kcp sn ts)) = Suc ?c"
    unfolding w using s by simp
qed

lemma ack_push_frame [kcp_frame]:
  "ikcp_ack_push mem kcp sn ts =
     kcp\<lparr>k_acklist := k_acklist (ikcp_ack_push mem kcp sn ts),
         k_ackblock := k_ackblock (ikcp_ack_push mem kcp sn ts),
         k_ackcount := k_ackcount (ikcp_ack_push mem kcp sn ts)\<rparr>"
  by (simp add: ikcp_ack_push_def Let_def)

lemma acks_cong:
  "k_acklist k = k_acklist k' \<Longrightarrow> k_ackcount k = k_ackcount k' \<Longrightarrow> acks k = acks k'"
  by (simp add: acks_def ikcp_ack_get_def)

end
