(* ===== verification/Ikcp_Input.thy ===== *)
theory Ikcp_Input
  imports Ikcp_Recv Ikcp_Send Ikcp_Ack
begin

text \<open>
  \<^verbatim>\<open>ikcp_input\<close> (710 to 844): the parser of an incoming datagram and what each segment of it does.
  \<open>input_seg\<close> is the part of the loop body after the checks, \<open>input_loop\<close> the loop with its
  early returns, \<open>grow_cwnd\<close> the congestion window update after it.

  A segment allocation that fails stops the process (a null dereference in \<^verbatim>\<open>ikcp_input\<close>, an
  \<^verbatim>\<open>abort\<close> in \<^verbatim>\<open>ikcp_ack_push\<close>), so allocations succeed here. \<open>mem n\<close> is the contents of the
  memory allocated for the segment whose header starts \<open>n\<close> bytes before the end of the
  datagram. Log messages change nothing in the control block and are left out.
\<close>

unbundle bit_operations_syntax

section \<open>Operations\<close>

definition input_push :: "fresh_mem \<Rightarrow> ikcpcb \<Rightarrow> wire_hdr \<Rightarrow> u8 list \<Rightarrow> ikcpcb" where
  "input_push mem kcp h data =
     (let kcp0 = kcp in
      if itimediff (h_sn h) (k_rcv_nxt kcp0 + k_rcv_wnd kcp0) < 0 then
        let kcp = ikcp_ack_push mem kcp0 (h_sn h) (h_ts h)
        in if itimediff (h_sn h) (k_rcv_nxt kcp) \<ge> 0 then
             ikcp_parse_data kcp
               ((fresh_seg mem)
                  \<lparr>s_conv := h_conv h, s_cmd := ucast (h_cmd h), s_frg := ucast (h_frg h),
                   s_wnd := ucast (h_wnd h), s_ts := h_ts h, s_sn := h_sn h, s_una := h_una h,
                   s_len := h_len h, s_data := take (unat (h_len h)) data\<rparr>)
           else kcp
      else kcp0)"

definition input_ack :: "ikcpcb \<Rightarrow> wire_hdr \<Rightarrow> ikcpcb" where
  "input_ack kcp h =
     (let kcp = (if itimediff (k_current kcp) (h_ts h) \<ge> 0
                 then ikcp_update_ack kcp (itimediff (k_current kcp) (h_ts h)) else kcp);
          kcp = ikcp_parse_ack kcp (h_sn h)
      in ikcp_shrink_buf kcp)"

definition input_seg :: "fresh_mem \<Rightarrow> ikcpcb \<Rightarrow> wire_hdr \<Rightarrow> u8 list \<Rightarrow> ikcpcb" where
  "input_seg mem kcp h data =
     (let kcp = kcp\<lparr>k_rmt_wnd := ucast (h_wnd h)\<rparr>;
          kcp = ikcp_parse_una kcp (h_una h);
          kcp = ikcp_shrink_buf kcp;
          cmd = ucast (h_cmd h)
      in if cmd = IKCP_CMD_ACK then input_ack kcp h
         else if cmd = IKCP_CMD_PUSH then input_push mem kcp h data
         else if cmd = IKCP_CMD_WASK then kcp\<lparr>k_probe := k_probe kcp OR IKCP_ASK_TELL\<rparr>
         else kcp)"

text \<open>
  \<open>long_of_u32 w\<close> converts an unsigned 32-bit value to a \<^verbatim>\<open>long\<close> of \<open>w\<close> bits. The model uses 64 bits;
  on a platform with 32-bit \<^verbatim>\<open>long\<close> the same check reads a large length as negative.
\<close>

definition long_of_u32 :: "nat \<Rightarrow> u32 \<Rightarrow> int" where
  "long_of_u32 w x = signed_take_bit (w - 1) (uint x)"

definition valid_cmd :: "u8 \<Rightarrow> bool" where
  "valid_cmd cmd \<longleftrightarrow>
     \<not> (ucast cmd \<noteq> IKCP_CMD_PUSH \<and> ucast cmd \<noteq> IKCP_CMD_ACK \<and>
        ucast cmd \<noteq> IKCP_CMD_WASK \<and> ucast cmd \<noteq> IKCP_CMD_WINS)"

function input_loop :: "(nat \<Rightarrow> fresh_mem) \<Rightarrow> ikcpcb \<Rightarrow> u8 list \<Rightarrow> int \<times> ikcpcb" where
  "input_loop mem kcp data =
     (if int (length data) < sint IKCP_OVERHEAD then (0, kcp)
      else
        let (h, rest) = decode_hdr data
        in if h_conv h \<noteq> k_conv kcp then (-1, kcp)
           else if int (length rest) < long_of_u32 64 (h_len h) then (-2, kcp)
           else if \<not> valid_cmd (h_cmd h) then (-3, kcp)
           else input_loop mem (input_seg (mem (length data)) kcp h rest)
                  (drop (unat (h_len h)) rest))"
  by pat_completeness auto
termination
proof (relation "measure (\<lambda>(mem, kcp, data). length data)", goal_cases)
  case (2 mem kcp data x h rest)
  then have "rest = drop 24 data" "24 \<le> length data"
    by (metis snd_conv snd_decode_hdr, simp add: ikcp_consts)
  then show ?case by simp
qed simp

declare input_loop.simps [simp del]

definition grow_cwnd :: "ikcpcb \<Rightarrow> ikcpcb" where
  "grow_cwnd kcp =
     (if k_cwnd kcp < k_rmt_wnd kcp then
        let mss = k_mss kcp;
            kcp = (if k_cwnd kcp < k_ssthresh kcp then
                     kcp\<lparr>k_cwnd := k_cwnd kcp + 1, k_incr := k_incr kcp + mss\<rparr>
                   else
                     let kcp = (if k_incr kcp < mss then kcp\<lparr>k_incr := mss\<rparr> else kcp);
                         kcp = kcp\<lparr>k_incr := k_incr kcp + (mss * mss div k_incr kcp + mss div 16)\<rparr>
                     in if (k_cwnd kcp + 1) * mss \<le> k_incr kcp
                        then kcp\<lparr>k_cwnd := k_cwnd kcp + 1\<rparr> else kcp)
        in if k_cwnd kcp > k_rmt_wnd kcp
           then kcp\<lparr>k_cwnd := k_rmt_wnd kcp, k_incr := k_rmt_wnd kcp * mss\<rparr> else kcp
      else kcp)"

text \<open>\<open>None\<close> is a null \<^verbatim>\<open>data\<close> pointer.\<close>

definition ikcp_input :: "(nat \<Rightarrow> fresh_mem) \<Rightarrow> ikcpcb \<Rightarrow> u8 list option \<Rightarrow> int \<times> ikcpcb" where
  "ikcp_input mem kcp data =
     (let una = k_snd_una kcp in
      case data of
        None \<Rightarrow> (0, kcp)
      | Some d \<Rightarrow>
          if length d < 24 then (0, kcp)
          else
            let (r, kcp) = input_loop mem kcp d
            in if r < 0 then (r, kcp)
               else if itimediff (k_snd_una kcp) una > 0 then (0, grow_cwnd kcp)
               else (0, kcp))"

section \<open>Frames\<close>

text \<open>Which fields an operation can change: the operation is an update of those fields alone.\<close>

lemma rcv_move_frame [kcp_frame]:
  "rcv_move kcp = kcp\<lparr>k_rcv_buf := k_rcv_buf (rcv_move kcp), k_nrcv_buf := k_nrcv_buf (rcv_move kcp),
     k_rcv_queue := k_rcv_queue (rcv_move kcp), k_nrcv_que := k_nrcv_que (rcv_move kcp),
     k_rcv_nxt := k_rcv_nxt (rcv_move kcp)\<rparr>"
  by (rule rcv_move_shape [of kcp]) simp

lemma parse_data_frame [kcp_frame]:
  "ikcp_parse_data kcp s = kcp\<lparr>k_rcv_buf := k_rcv_buf (ikcp_parse_data kcp s),
     k_nrcv_buf := k_nrcv_buf (ikcp_parse_data kcp s),
     k_rcv_queue := k_rcv_queue (ikcp_parse_data kcp s),
     k_nrcv_que := k_nrcv_que (ikcp_parse_data kcp s),
     k_rcv_nxt := k_rcv_nxt (ikcp_parse_data kcp s)\<rparr>"
proof (cases "itimediff (s_sn s) (k_rcv_nxt kcp + k_rcv_wnd kcp) \<ge> 0 \<or>
    itimediff (s_sn s) (k_rcv_nxt kcp) < 0")
  case True
  then show ?thesis by (simp add: ikcp_parse_data_def)
next
  case False
  obtain k where k: "ikcp_parse_data kcp s = rcv_move k"
    "k = kcp\<lparr>k_rcv_buf := k_rcv_buf k, k_nrcv_buf := k_nrcv_buf k\<rparr>"
    using False by (cases "rcv_insert_rev s (rev (k_rcv_buf kcp))") (auto simp: ikcp_parse_data_def)
  show ?thesis
    unfolding k(1) by (subst rcv_move_frame, subst k(2)) simp
qed

lemma parse_ack_frame [kcp_frame]:
  "ikcp_parse_ack kcp sn = kcp\<lparr>k_snd_buf := k_snd_buf (ikcp_parse_ack kcp sn),
     k_nsnd_buf := k_nsnd_buf (ikcp_parse_ack kcp sn)\<rparr>"
  by (simp add: ikcp_parse_ack_def split_beta)

lemma shrink_buf_frame [kcp_frame]:
  "ikcp_shrink_buf kcp = kcp\<lparr>k_snd_una := k_snd_una (ikcp_shrink_buf kcp)\<rparr>"
  by (simp add: ikcp_shrink_buf_def split: list.split)

lemma parse_una_frame [kcp_frame]:
  "ikcp_parse_una kcp una = kcp\<lparr>k_snd_buf := k_snd_buf (ikcp_parse_una kcp una),
     k_nsnd_buf := k_nsnd_buf (ikcp_parse_una kcp una)\<rparr>"
  by (simp add: parse_una_eq)

section \<open>What a segment leaves of the invariants\<close>

lemmas snd_side = snd_inv_def snd_win_def snd_head_def

lemma snd_inv_frames [simp]:
  "snd_inv (ikcp_parse_data kcp s) = snd_inv kcp"
  "snd_inv (ikcp_ack_push mem kcp sn ts) = snd_inv kcp"
  "snd_inv (ikcp_update_ack kcp rtt) = snd_inv kcp"
proof -
  show "snd_inv (ikcp_parse_data kcp s) = snd_inv kcp"
    by (subst parse_data_frame) (simp add: snd_side cong: list.case_cong)
  show "snd_inv (ikcp_ack_push mem kcp sn ts) = snd_inv kcp"
    by (subst ack_push_frame) (simp add: snd_side cong: list.case_cong)
  show "snd_inv (ikcp_update_ack kcp rtt) = snd_inv kcp"
    by (subst update_ack_frame) (simp add: snd_side cong: list.case_cong)
qed

lemma snd_win_frames [simp]:
  "snd_win (ikcp_parse_data kcp s) = snd_win kcp"
  "snd_win (ikcp_ack_push mem kcp sn ts) = snd_win kcp"
  "snd_win (ikcp_update_ack kcp rtt) = snd_win kcp"
proof -
  show "snd_win (ikcp_parse_data kcp s) = snd_win kcp"
    by (subst parse_data_frame) (simp add: snd_win_def)
  show "snd_win (ikcp_ack_push mem kcp sn ts) = snd_win kcp"
    by (subst ack_push_frame) (simp add: snd_win_def)
  show "snd_win (ikcp_update_ack kcp rtt) = snd_win kcp"
    by (subst update_ack_frame) (simp add: snd_win_def)
qed

lemma rcv_inv_frames [simp]:
  "rcv_inv (ikcp_ack_push mem kcp sn ts) = rcv_inv kcp"
  "rcv_inv (ikcp_update_ack kcp rtt) = rcv_inv kcp"
  "rcv_inv (ikcp_parse_ack kcp sn) = rcv_inv kcp"
  "rcv_inv (ikcp_shrink_buf kcp) = rcv_inv kcp"
  "rcv_inv (ikcp_parse_una kcp una) = rcv_inv kcp"
proof -
  show "rcv_inv (ikcp_ack_push mem kcp sn ts) = rcv_inv kcp"
    by (subst ack_push_frame) (simp add: rcv_inv_def)
  show "rcv_inv (ikcp_update_ack kcp rtt) = rcv_inv kcp"
    by (subst update_ack_frame) (simp add: rcv_inv_def)
  show "rcv_inv (ikcp_parse_ack kcp sn) = rcv_inv kcp"
    by (subst parse_ack_frame) (simp add: rcv_inv_def)
  show "rcv_inv (ikcp_shrink_buf kcp) = rcv_inv kcp"
    by (subst shrink_buf_frame) (simp add: rcv_inv_def)
  show "rcv_inv (ikcp_parse_una kcp una) = rcv_inv kcp"
    by (subst parse_una_frame) (simp add: rcv_inv_def)
qed

lemma rto_ok_frames [simp]:
  "rto_ok (ikcp_parse_data kcp s) = rto_ok kcp"
  "rto_ok (ikcp_ack_push mem kcp sn ts) = rto_ok kcp"
  "rto_ok (ikcp_parse_ack kcp sn) = rto_ok kcp"
  "rto_ok (ikcp_shrink_buf kcp) = rto_ok kcp"
  "rto_ok (ikcp_parse_una kcp una) = rto_ok kcp"
proof -
  show "rto_ok (ikcp_parse_data kcp s) = rto_ok kcp"
    by (subst parse_data_frame) (simp add: rto_ok_def)
  show "rto_ok (ikcp_ack_push mem kcp sn ts) = rto_ok kcp"
    by (subst ack_push_frame) (simp add: rto_ok_def)
  show "rto_ok (ikcp_parse_ack kcp sn) = rto_ok kcp"
    by (subst parse_ack_frame) (simp add: rto_ok_def)
  show "rto_ok (ikcp_shrink_buf kcp) = rto_ok kcp"
    by (subst shrink_buf_frame) (simp add: rto_ok_def)
  show "rto_ok (ikcp_parse_una kcp una) = rto_ok kcp"
    by (subst parse_una_frame) (simp add: rto_ok_def)
qed

lemma ack_inv_frames [simp]:
  "ack_inv (ikcp_parse_data kcp s) = ack_inv kcp"
  "ack_inv (ikcp_update_ack kcp rtt) = ack_inv kcp"
  "ack_inv (ikcp_parse_ack kcp sn) = ack_inv kcp"
  "ack_inv (ikcp_shrink_buf kcp) = ack_inv kcp"
  "ack_inv (ikcp_parse_una kcp una) = ack_inv kcp"
proof -
  show "ack_inv (ikcp_parse_data kcp s) = ack_inv kcp"
    by (subst parse_data_frame) (simp add: ack_inv_def cong: option.case_cong)
  show "ack_inv (ikcp_update_ack kcp rtt) = ack_inv kcp"
    by (subst update_ack_frame) (simp add: ack_inv_def cong: option.case_cong)
  show "ack_inv (ikcp_parse_ack kcp sn) = ack_inv kcp"
    by (subst parse_ack_frame) (simp add: ack_inv_def cong: option.case_cong)
  show "ack_inv (ikcp_shrink_buf kcp) = ack_inv kcp"
    by (subst shrink_buf_frame) (simp add: ack_inv_def cong: option.case_cong)
  show "ack_inv (ikcp_parse_una kcp una) = ack_inv kcp"
    by (subst parse_una_frame) (simp add: ack_inv_def cong: option.case_cong)
qed

lemma ackcount_frames [simp]:
  "k_ackcount (ikcp_parse_data kcp s) = k_ackcount kcp"
  "k_ackcount (ikcp_update_ack kcp rtt) = k_ackcount kcp"
  "k_ackcount (ikcp_parse_ack kcp sn) = k_ackcount kcp"
  "k_ackcount (ikcp_shrink_buf kcp) = k_ackcount kcp"
  "k_ackcount (ikcp_parse_una kcp una) = k_ackcount kcp"
proof -
  show "k_ackcount (ikcp_parse_data kcp s) = k_ackcount kcp"
    by (subst parse_data_frame) simp
  show "k_ackcount (ikcp_update_ack kcp rtt) = k_ackcount kcp"
    by (subst update_ack_frame) simp
  show "k_ackcount (ikcp_parse_ack kcp sn) = k_ackcount kcp"
    by (subst parse_ack_frame) simp
  show "k_ackcount (ikcp_shrink_buf kcp) = k_ackcount kcp"
    by (subst shrink_buf_frame) simp
  show "k_ackcount (ikcp_parse_una kcp una) = k_ackcount kcp"
    by (subst parse_una_frame) simp
qed

lemma field_updates [simp]:
  "rcv_inv (kcp\<lparr>k_rmt_wnd := w\<rparr>) = rcv_inv kcp" "rcv_inv (kcp\<lparr>k_probe := p\<rparr>) = rcv_inv kcp"
  "snd_inv (kcp\<lparr>k_probe := p\<rparr>) = snd_inv kcp"
  "ack_inv (kcp\<lparr>k_rmt_wnd := w\<rparr>) = ack_inv kcp" "ack_inv (kcp\<lparr>k_probe := p\<rparr>) = ack_inv kcp"
  "rto_ok (kcp\<lparr>k_rmt_wnd := w\<rparr>) = rto_ok kcp" "rto_ok (kcp\<lparr>k_probe := p\<rparr>) = rto_ok kcp"
  by (simp_all add: rcv_inv_def snd_side rto_ok_def ack_inv_def cong: list.case_cong option.case_cong)

lemma snd_inv_rmt_wnd: "snd_win kcp \<Longrightarrow> unat w \<le> 65535 \<Longrightarrow> snd_win (kcp\<lparr>k_rmt_wnd := w\<rparr>)"
  by (simp add: snd_win_def)

lemma unat_ucast_16_32: "unat (ucast (w :: u16) :: u32) \<le> 65535"
proof -
  have "unat w < 2 ^ LENGTH(16)" by (rule unsigned_less)
  then show ?thesis by (simp add: unsigned_ucast_eq take_bit_nat_eq_self)
qed

lemma input_una_snd:
  assumes "snd_win kcp"
  shows "snd_inv (ikcp_shrink_buf (ikcp_parse_una (kcp\<lparr>k_rmt_wnd := ucast (h_wnd h)\<rparr>) una))"
  by (intro kcp_inv snd_inv_rmt_wnd assms unat_ucast_16_32)

lemma input_ack_inv [kcp_inv]: "snd_inv kcp \<Longrightarrow> snd_inv (input_ack kcp h)"
  unfolding input_ack_def Let_def
  by (rule shrink_buf_inv, rule parse_ack_win) (simp add: snd_inv_def)

lemma input_push_inv:
  assumes "rcv_inv kcp" "unat (h_len h) \<le> length data"
  shows "rcv_inv (input_push mem kcp h data)"
proof -
  let ?s = "(fresh_seg mem)\<lparr>s_conv := h_conv h, s_cmd := ucast (h_cmd h), s_frg := ucast (h_frg h),
     s_wnd := ucast (h_wnd h), s_ts := h_ts h, s_sn := h_sn h, s_una := h_una h,
     s_len := h_len h, s_data := take (unat (h_len h)) data\<rparr>"
  have "seg_ok ?s" using assms(2) by (simp add: seg_ok_def)
  with assms(1) show ?thesis by (simp add: input_push_def Let_def parse_data_inv)
qed

text \<open>What one segment does: the invariants hold again, and at most one acknowledgement is added.\<close>

definition kcp_ok :: "ikcpcb \<Rightarrow> bool" where
  "kcp_ok kcp \<longleftrightarrow> snd_inv kcp \<and> rcv_inv kcp \<and> ack_inv kcp \<and> rto_ok kcp"

lemma input_seg_ok:
  assumes "kcp_ok kcp" "unat (h_len h) \<le> length data" "unat (k_ackcount kcp) < 2 ^ 29"
  shows "kcp_ok (input_seg mem kcp h data) \<and>
    unat (k_ackcount (input_seg mem kcp h data)) \<le> Suc (unat (k_ackcount kcp))"
proof -
  define k where "k = ikcp_shrink_buf (ikcp_parse_una (kcp\<lparr>k_rmt_wnd := ucast (h_wnd h)\<rparr>) (h_una h))"
  have k: "snd_inv k" "rcv_inv k" "ack_inv k" "rto_ok k" "k_ackcount k = k_ackcount kcp"
    using assms(1) input_una_snd [of kcp h "h_una h"] unfolding k_def kcp_ok_def
    by (simp_all add: snd_inv_def)
  have a: "kcp_ok (input_ack k h)" "k_ackcount (input_ack k h) = k_ackcount kcp"
    using k input_ack_inv [of k h] unfolding kcp_ok_def
    by (simp_all add: input_ack_def Let_def kcp_inv)
  have p: "kcp_ok (input_push mem k h data)"
    "unat (k_ackcount (input_push mem k h data)) \<le> Suc (unat (k_ackcount kcp))"
    using k input_push_inv [OF k(2) assms(2)] ack_push_acks [of k mem "h_sn h" "h_ts h"] assms(3)
    unfolding kcp_ok_def by (auto simp: input_push_def Let_def)
  show ?thesis
    unfolding input_seg_def Let_def k_def [symmetric] using a p k
    by (simp add: kcp_ok_def)
qed

lemma long_64: "long_of_u32 64 x = int (unat x)"
proof -
  have "0 \<le> uint x" "uint x < 2 ^ 32" using uint_lt2p [of x] by simp_all
  then have "signed_take_bit 63 (uint x) = uint x"
    by (intro signed_take_bit_int_eq_self) (auto intro: order_trans [of _ 0])
  then show ?thesis by (simp add: long_of_u32_def)
qed

text \<open>The three ways a step of the loop goes, without the unsigned reading of its tests.\<close>

lemma input_loop_stop: "length data < 24 \<Longrightarrow> input_loop mem kcp data = (0, kcp)"
  by (subst input_loop.simps) (simp add: ikcp_consts)

lemma input_loop_step:
  assumes "24 \<le> length data" "decode_hdr data = (h, rest)"
  shows "input_loop mem kcp data =
    (if h_conv h \<noteq> k_conv kcp then (-1, kcp)
     else if length rest < unat (h_len h) then (-2, kcp)
     else if \<not> valid_cmd (h_cmd h) then (-3, kcp)
     else input_loop mem (input_seg (mem (length data)) kcp h rest) (drop (unat (h_len h)) rest))"
  using assms by (subst input_loop.simps) (simp add: ikcp_consts long_64 del: of_nat_unat)

lemma input_loop_ok:
  "kcp_ok kcp \<Longrightarrow> unat (k_ackcount kcp) + length data < 2 ^ 29 \<Longrightarrow>
   input_loop mem kcp data = (r, kcp') \<Longrightarrow>
   kcp_ok kcp' \<and> unat (k_ackcount kcp') \<le> unat (k_ackcount kcp) + length data \<and> r \<in> {0, -1, -2, -3}"
proof (induction "length data" arbitrary: data kcp rule: less_induct)
  case less
  show ?case
  proof (cases "length data < 24")
    case True
    with less.prems show ?thesis by (simp add: input_loop_stop)
  next
    case False
    obtain h rest where d: "decode_hdr data = (h, rest)" by fastforce
    have len: "length rest = length data - 24" using snd_decode_hdr [of data] d by simp
    have ge: "24 \<le> length data" using False by simp
    let ?k = "input_seg (mem (length data)) kcp h rest"
    show ?thesis
    proof (cases "h_conv h \<noteq> k_conv kcp \<or> length rest < unat (h_len h) \<or> \<not> valid_cmd (h_cmd h)")
      case True
      with less.prems show ?thesis
        by (auto simp: input_loop_step [OF ge d] split: if_splits)
    next
      case ok: False
      have s: "kcp_ok ?k \<and> unat (k_ackcount ?k) \<le> Suc (unat (k_ackcount kcp))"
        by (rule input_seg_ok) (use less.prems ok in simp_all)
      have st: "input_loop mem ?k (drop (unat (h_len h)) rest) = (r, kcp')"
        using less.prems(3) ok by (simp add: input_loop_step [OF ge d])
      have m: "length (drop (unat (h_len h)) rest) < length data"
        "unat (k_ackcount ?k) + length (drop (unat (h_len h)) rest) < 2 ^ 29"
        "unat (k_ackcount ?k) + length (drop (unat (h_len h)) rest) \<le> unat (k_ackcount kcp) + length data"
        using s less.prems(2) len ge by (simp_all, linarith+)
      show ?thesis
        using less.hyps [OF m(1) conjunct1 [OF s] m(2) st] m(3) by linarith
    qed
  qed
qed

section \<open>The whole call\<close>

lemma grow_cwnd_frame [kcp_frame]:
  "grow_cwnd kcp = kcp\<lparr>k_cwnd := k_cwnd (grow_cwnd kcp), k_incr := k_incr (grow_cwnd kcp)\<rparr>"
  by (simp add: grow_cwnd_def Let_def)

lemma grow_cwnd_ok [simp]: "kcp_ok (grow_cwnd kcp) = kcp_ok kcp"
  "k_ackcount (grow_cwnd kcp) = k_ackcount kcp"
  by (subst grow_cwnd_frame, simp add: kcp_ok_def snd_side rcv_inv_def ack_inv_def rto_ok_def
      cong: list.case_cong option.case_cong)
    (subst grow_cwnd_frame, simp)

lemma grow_cwnd_bounds:
  "k_cwnd kcp \<le> k_cwnd (grow_cwnd kcp) \<and>
   k_cwnd (grow_cwnd kcp) \<le> imax (k_cwnd kcp) (k_rmt_wnd kcp) \<and>
   unat (k_cwnd (grow_cwnd kcp)) \<le> Suc (unat (k_cwnd kcp))"
proof (cases "k_cwnd kcp < k_rmt_wnd kcp")
  case False
  then have "grow_cwnd kcp = kcp" by (simp only: grow_cwnd_def if_False)
  with False show ?thesis by (simp add: imax_def not_less)
next
  case True
  then have u: "unat (k_cwnd kcp) < unat (k_rmt_wnd kcp)" by (simp add: word_less_nat_alt)
  then have "unat (k_cwnd kcp) < 4294967295" using unat_less_32 [of "k_rmt_wnd kcp"] by linarith
  then have s: "unat (k_cwnd kcp + 1) = Suc (unat (k_cwnd kcp))" by (rule unat_Suc_32)
  have c: "k_cwnd (grow_cwnd kcp) = k_cwnd kcp \<or> k_cwnd (grow_cwnd kcp) = k_cwnd kcp + 1"
    using True u s by (simp add: grow_cwnd_def Let_def word_less_nat_alt)
  show ?thesis
    using c u s by (auto simp: word_le_nat_alt unat_imax simp del: imax_def)
qed

lemma ikcp_input_eq:
  "ikcp_input mem kcp (Some d) =
     (let (r, k) = input_loop mem kcp d
      in (r, if r = 0 \<and> itimediff (k_snd_una k) (k_snd_una kcp) > 0 then grow_cwnd k else k))"
  if "input_loop mem kcp d = (r, k)" "r \<in> {0, -1, -2, -3}"
  using that by (auto simp: ikcp_input_def Let_def input_loop_stop)

lemma ikcp_input_ok:
  assumes "kcp_ok kcp" "unat (k_ackcount kcp) + length d < 2 ^ 29"
    and "ikcp_input mem kcp (Some d) = (r, kcp')"
  shows "kcp_ok kcp' \<and> unat (k_ackcount kcp') \<le> unat (k_ackcount kcp) + length d \<and>
    r \<in> {0, -1, -2, -3}"
proof -
  obtain r' k where l: "input_loop mem kcp d = (r', k)" by fastforce
  note ok = input_loop_ok [OF assms(1,2) l]
  then show ?thesis
    using assms(3) ikcp_input_eq [OF l] l by (auto simp: Let_def)
qed

section \<open>Reading what was written\<close>

lemma parse_loop_conv: "k_conv (input_seg mem kcp h data) = k_conv kcp"
proof -
  have a: "k_conv (ikcp_shrink_buf k) = k_conv k" for k by (subst shrink_buf_frame) simp
  have b: "k_conv (ikcp_parse_una k u) = k_conv k" for k u by (subst parse_una_frame) simp
  have c: "k_conv (ikcp_parse_ack k u) = k_conv k" for k u by (subst parse_ack_frame) simp
  have d: "k_conv (ikcp_update_ack k u) = k_conv k" for k u by (subst update_ack_frame) simp
  have e: "k_conv (ikcp_ack_push m k sn ts) = k_conv k" for m k sn ts by (subst ack_push_frame) simp
  have f: "k_conv (ikcp_parse_data k s) = k_conv k" for k s by (subst parse_data_frame) simp
  show ?thesis by (simp add: input_seg_def input_ack_def input_push_def Let_def a b c d e f)
qed

text \<open>The segments a peer of conversation \<open>conv\<close> writes, and what the parser makes of a datagram of them.\<close>

definition wire_ok :: "u32 \<Rightarrow> iseg \<Rightarrow> bool" where
  "wire_ok conv s \<longleftrightarrow> s_conv s = conv \<and>
     s_cmd s \<in> {IKCP_CMD_PUSH, IKCP_CMD_ACK, IKCP_CMD_WASK, IKCP_CMD_WINS} \<and> seg_frg_ok s"

lemma wire_ok_cmd: "wire_ok conv s \<Longrightarrow> valid_cmd (ucast (s_cmd s)) \<and> ucast (ucast (s_cmd s) :: u8) = s_cmd s"
  by (auto simp: wire_ok_def valid_cmd_def ikcp_consts)

lemma ucast_frg: "unat f < 256 \<Longrightarrow> ucast (ucast (f :: u32) :: u8) = f"
  by (rule word_unat_eq_iff [THEN iffD2])
    (simp add: unsigned_ucast_eq unsigned_take_bit_eq take_bit_nat_eq_self)

fun input_segs :: "(nat \<Rightarrow> fresh_mem) \<Rightarrow> ikcpcb \<Rightarrow> iseg list \<Rightarrow> ikcpcb" where
  "input_segs mem kcp [] = kcp"
| "input_segs mem kcp (s # segs) =
     input_segs mem (input_seg (mem (length (dgram (s # segs)))) kcp (hdr_of_seg s) (s_data s)) segs"

lemma input_seg_data:
  "input_seg mem kcp h (data @ rest) = input_seg mem kcp h data" if "unat (h_len h) \<le> length data"
  using that by (simp add: input_seg_def input_push_def Let_def)

lemma input_loop_dgram:
  "\<forall>s \<in> set segs. wire_ok (k_conv kcp) s \<Longrightarrow>
   input_loop mem kcp (dgram segs) = (0, input_segs mem kcp segs)"
proof (induction segs arbitrary: kcp)
  case Nil
  then show ?case by (simp add: input_loop_stop)
next
  case (Cons s segs)
  have ok: "s_conv s = k_conv kcp" "valid_cmd (ucast (s_cmd s))" "seg_ok s"
    using Cons.prems wire_ok_cmd by (auto simp: wire_ok_def seg_frg_ok_def)
  have len: "unat (s_len s) = length (s_data s)" using ok(3) by (simp add: seg_ok_def)
  let ?k = "input_seg (mem (length (dgram (s # segs)))) kcp (hdr_of_seg s) (s_data s)"
  have d: "decode_hdr (dgram (s # segs)) = (hdr_of_seg s, s_data s @ dgram segs)"
    using ok(3) by (simp add: decode_encode_seg)
  have ge: "24 \<le> length (dgram (s # segs))" by simp
  have "input_loop mem kcp (dgram (s # segs)) = input_loop mem ?k (dgram segs)"
    using ok len input_seg_data [of "hdr_of_seg s" "s_data s" _ kcp "dgram segs"]
    unfolding input_loop_step [OF ge d] by (simp add: hdr_of_seg_def)
  also have "\<dots> = (0, input_segs mem ?k segs)"
    using Cons.prems by (intro Cons.IH) (simp add: parse_loop_conv)
  finally show ?case by simp
qed

section \<open>Input and the peer's stream\<close>

lemma rcv_stream_frames [simp]:
  "rcv_stream P N (ikcp_ack_push mem kcp sn ts) = rcv_stream P N kcp"
  "rcv_stream P N (ikcp_update_ack kcp rtt) = rcv_stream P N kcp"
  "rcv_stream P N (ikcp_parse_ack kcp sn) = rcv_stream P N kcp"
  "rcv_stream P N (ikcp_shrink_buf kcp) = rcv_stream P N kcp"
  "rcv_stream P N (ikcp_parse_una kcp una) = rcv_stream P N kcp"
  "rcv_stream P N (kcp\<lparr>k_rmt_wnd := w\<rparr>) = rcv_stream P N kcp"
  "rcv_stream P N (kcp\<lparr>k_probe := p\<rparr>) = rcv_stream P N kcp"
  "rcv_stream P N (grow_cwnd kcp) = rcv_stream P N kcp"
proof -
  show "rcv_stream P N (ikcp_ack_push mem kcp sn ts) = rcv_stream P N kcp"
    by (subst ack_push_frame) (simp add: rcv_stream_def)
  show "rcv_stream P N (ikcp_update_ack kcp rtt) = rcv_stream P N kcp"
    by (subst update_ack_frame) (simp add: rcv_stream_def)
  show "rcv_stream P N (ikcp_parse_ack kcp sn) = rcv_stream P N kcp"
    by (subst parse_ack_frame) (simp add: rcv_stream_def)
  show "rcv_stream P N (ikcp_shrink_buf kcp) = rcv_stream P N kcp"
    by (subst shrink_buf_frame) (simp add: rcv_stream_def)
  show "rcv_stream P N (ikcp_parse_una kcp una) = rcv_stream P N kcp"
    by (subst parse_una_frame) (simp add: rcv_stream_def)
  show "rcv_stream P N (grow_cwnd kcp) = rcv_stream P N kcp"
    by (subst grow_cwnd_frame) (simp add: rcv_stream_def)
qed (simp_all add: rcv_stream_def)

lemma rcv_queue_frames [simp]:
  "k_rcv_queue (ikcp_ack_push mem kcp sn ts) = k_rcv_queue kcp"
  "k_rcv_queue (ikcp_update_ack kcp rtt) = k_rcv_queue kcp"
  "k_rcv_queue (ikcp_parse_ack kcp sn) = k_rcv_queue kcp"
  "k_rcv_queue (ikcp_shrink_buf kcp) = k_rcv_queue kcp"
  "k_rcv_queue (ikcp_parse_una kcp una) = k_rcv_queue kcp"
  "k_rcv_queue (grow_cwnd kcp) = k_rcv_queue kcp"
proof -
  show "k_rcv_queue (ikcp_ack_push mem kcp sn ts) = k_rcv_queue kcp" by (subst ack_push_frame) simp
  show "k_rcv_queue (ikcp_update_ack kcp rtt) = k_rcv_queue kcp" by (subst update_ack_frame) simp
  show "k_rcv_queue (ikcp_parse_ack kcp sn) = k_rcv_queue kcp" by (subst parse_ack_frame) simp
  show "k_rcv_queue (ikcp_shrink_buf kcp) = k_rcv_queue kcp" by (subst shrink_buf_frame) simp
  show "k_rcv_queue (ikcp_parse_una kcp una) = k_rcv_queue kcp" by (subst parse_una_frame) simp
  show "k_rcv_queue (grow_cwnd kcp) = k_rcv_queue kcp" by (subst grow_cwnd_frame) simp
qed

text \<open>\<open>from_stream P s\<close>: a data segment that carries what the stream has at its number.\<close>

definition from_stream :: "stream \<Rightarrow> iseg \<Rightarrow> bool" where
  "from_stream P s \<longleftrightarrow>
     (s_cmd s = IKCP_CMD_PUSH \<longrightarrow> (\<exists>i < length P. s_sn s = word_of_nat i \<and> payload s = P ! i))"

lemma woff_of_nat:
  assumes "N \<le> L" "i < L" "L \<le> 2 ^ 31" "woff (word_of_nat N) (word_of_nat i) < 2 ^ 31"
  shows "N + woff (word_of_nat N) (word_of_nat i) = i"
proof -
  have u: "unat (word_of_nat N :: u32) = N" "unat (word_of_nat i :: u32) = i"
    using assms(1-3) by (simp_all add: word_of_nat_eq_32)
  show ?thesis
    using assms unfolding woff_def unat_diff_32 u by (simp split: if_splits)
qed

lemma input_push_stream:
  assumes inv: "rcv_inv kcp" "rcv_stream P N kcp" and P: "length P \<le> 2 ^ 31"
    and s: "wire_ok conv s" "from_stream P s" "s_cmd s = IKCP_CMD_PUSH"
  shows "\<exists>N' \<ge> N. rcv_stream P N' (input_push mem kcp (hdr_of_seg s) (s_data s)) \<and>
    rcv_taken N' (input_push mem kcp (hdr_of_seg s) (s_data s)) = rcv_taken N kcp"
proof -
  let ?h = "hdr_of_seg s" and ?k = "ikcp_ack_push mem kcp (s_sn s) (s_ts s)"
  let ?s = "(fresh_seg mem)\<lparr>s_conv := h_conv ?h, s_cmd := ucast (h_cmd ?h), s_frg := ucast (h_frg ?h),
     s_wnd := ucast (h_wnd ?h), s_ts := h_ts ?h, s_sn := h_sn ?h, s_una := h_una ?h,
     s_len := h_len ?h, s_data := take (unat (h_len ?h)) (s_data s)\<rparr>"
  have sn: "s_sn ?s = s_sn s" by (simp add: hdr_of_seg_def)
  have ok: "seg_ok ?s" and pay: "payload ?s = payload s"
    using s(1) by (simp_all add: wire_ok_def seg_frg_ok_def seg_ok_def payload_def hdr_of_seg_def ucast_frg)
  obtain i where i: "i < length P" "s_sn s = word_of_nat i" "payload s = P ! i"
    using s by (auto simp: from_stream_def)
  have N: "N \<le> length P" "k_rcv_nxt ?k = word_of_nat N"
    using inv(2) rcv_stream_frames(1) [of P N mem kcp "s_sn s" "s_ts s"] by (auto simp: rcv_stream_def)
  have at: "N + woff (k_rcv_nxt ?k) (s_sn ?s) < length P \<and>
      payload ?s = P ! (N + woff (k_rcv_nxt ?k) (s_sn ?s))" if "in_rcv_window ?k (s_sn ?s)"
  proof -
    have "unat (k_rcv_wnd ?k) < 2 ^ 31" using rcv_invD(7) [of ?k] inv(1) by simp
    then have "woff (k_rcv_nxt ?k) (s_sn s) < 2 ^ 31" using that unfolding in_rcv_window_def sn by linarith
    then have "N + woff (k_rcv_nxt ?k) (s_sn s) = i"
      using woff_of_nat [OF N(1) i(1) P] N(2) i(2) by metis
    then show ?thesis using i pay sn by simp
  qed
  have p: "\<exists>N' \<ge> N. rcv_stream P N' (ikcp_parse_data ?k ?s) \<and>
      rcv_taken N' (ikcp_parse_data ?k ?s) = rcv_taken N kcp"
    using parse_data_stream [of ?k P N ?s, OF _ _ ok at] inv by (simp add: rcv_taken_def)
  have h: "h_sn ?h = s_sn s" "h_ts ?h = s_ts s" by (simp_all add: hdr_of_seg_def)
  consider "input_push mem kcp ?h (s_data s) = kcp" | "input_push mem kcp ?h (s_data s) = ?k" |
    "input_push mem kcp ?h (s_data s) = ikcp_parse_data ?k ?s"
    unfolding input_push_def Let_def h by metis
  then show ?thesis
  proof cases
    case 1
    then show ?thesis using inv(2) by auto
  next
    case 2
    then show ?thesis using inv(2) by (intro exI [of _ N]) (simp add: rcv_taken_def)
  next
    case 3
    then show ?thesis using p by simp
  qed
qed

lemma input_seg_stream:
  assumes "rcv_inv kcp" "rcv_stream P N kcp" "length P \<le> 2 ^ 31" "wire_ok conv s" "from_stream P s"
  shows "\<exists>N' \<ge> N. rcv_stream P N' (input_seg mem kcp (hdr_of_seg s) (s_data s)) \<and>
    rcv_taken N' (input_seg mem kcp (hdr_of_seg s) (s_data s)) = rcv_taken N kcp"
proof -
  let ?h = "hdr_of_seg s"
  define k where "k = ikcp_shrink_buf (ikcp_parse_una (kcp\<lparr>k_rmt_wnd := ucast (h_wnd ?h)\<rparr>) (h_una ?h))"
  have k: "rcv_inv k" "rcv_stream P N k" "rcv_taken N k = rcv_taken N kcp"
    using assms(1,2) by (simp_all add: k_def rcv_taken_def)
  have cmd: "ucast (h_cmd ?h) = s_cmd s" using wire_ok_cmd [OF assms(4)] by (simp add: hdr_of_seg_def)
  show ?thesis
  proof (cases "s_cmd s = IKCP_CMD_PUSH")
    case True
    then have "input_seg mem kcp ?h (s_data s) = input_push mem k ?h (s_data s)"
      unfolding input_seg_def Let_def k_def [symmetric] cmd by (simp add: ikcp_consts)
    then show ?thesis
      using input_push_stream [OF k(1,2) assms(3-5) True] k(3) by simp
  next
    case False
    have "rcv_stream P N (input_seg mem kcp ?h (s_data s)) \<and>
        rcv_taken N (input_seg mem kcp ?h (s_data s)) = rcv_taken N kcp"
      unfolding input_seg_def Let_def k_def [symmetric] cmd
      using False k by (simp add: input_ack_def Let_def rcv_taken_def)
    then show ?thesis by blast
  qed
qed

section \<open>The size of a received message\<close>

lemma sum_len_unat:
  "\<forall>s \<in> set p. seg_ok s \<Longrightarrow> length (concat (map seg_bytes p)) < 4294967296 \<Longrightarrow>
   unat (sum_len p) = length (concat (map seg_bytes p))"
proof (induction p)
  case (Cons s p)
  have u: "unat (sum_len p) = length (concat (map seg_bytes p))" using Cons by simp
  have "sum_len (s # p) = s_len s + sum_len p" by (simp add: sum_len_def)
  then have "unat (sum_len (s # p)) = unat (s_len s) + unat (sum_len p)"
    using Cons.prems u by (simp add: unat_plus_32 seg_ok_def)
  then show ?case using Cons.prems u by (simp add: seg_ok_def)
qed (simp add: sum_len_def)

lemma recv_size:
  assumes inv: "rcv_inv k" and len: "length (concat (map seg_bytes (k_rcv_queue k))) < 2 ^ 31"
    and recv: "ikcp_recv k True n = (r, out, k')" "0 \<le> r"
  shows "r = int (length out) \<and> r \<le> (if n < 0 then i32 (- n) else n) \<and>
    out = concat (map seg_bytes (first_msg (k_rcv_queue k)))"
proof -
  let ?q = "k_rcv_queue k" and ?f = "first_msg (k_rcv_queue k)"
  have R: "r = sint (sum_len ?f)" "out = concat (map seg_bytes ?f)"
    "0 \<le> ikcp_peeksize k" "ikcp_peeksize k \<le> (if n < 0 then i32 (- n) else n)"
    using recv by (auto simp: ikcp_recv_eq Let_def split: if_splits)
  have ok: "\<forall>s \<in> set ?f. seg_ok s" using rcv_invD(8) [OF inv] set_first_msg [of ?q] by blast
  have "?q = ?f @ drop (length ?f) ?q"
    using append_take_drop_id [of "length ?f" ?q] first_msg_prefix [of ?q] by simp
  then obtain p where p: "?q = ?f @ p" by blast
  have "length (concat (map seg_bytes (?f @ p))) < 2 ^ 31" using len p by metis
  then have l: "length (concat (map seg_bytes ?f)) < 2 ^ 31" by simp
  then have u: "unat (sum_len ?f) = length (concat (map seg_bytes ?f))"
    using ok by (intro sum_len_unat) simp_all
  have "sint (sum_len ?f) = int (length (concat (map seg_bytes ?f)))"
    by (rule sint_of_unat [OF u l])
  then show ?thesis using R peeksize_first_msg [OF R(3)] by simp
qed

lemma peek_then_recv:
  assumes "ikcp_recv k True (- n) = (r, out, k')" "0 \<le> r" "0 < n" "n < 2 ^ 31" "n \<le> m"
  shows "fst (ikcp_recv k True m) = r" "fst (snd (ikcp_recv k True m)) = out"
    and "\<exists>p. k_rcv_queue k' = k_rcv_queue k @ p"
proof -
  have i: "i32 n = n" using assms(3,4) by (intro i32_id) auto
  have q: "k_rcv_queue k \<noteq> []" "\<not> ikcp_peeksize k < 0" "\<not> n < ikcp_peeksize k"
    and k': "k' = recv_tell (k_rcv_wnd k \<le> k_nrcv_que k) (rcv_move k)"
    using assms by (auto simp: ikcp_recv_eq Let_def i recv_take_def split: if_splits)
  then show "fst (ikcp_recv k True m) = r" "fst (snd (ikcp_recv k True m)) = out"
    using assms by (auto simp: ikcp_recv_eq Let_def i split: if_splits)
  have [simp]: "k_rcv_queue (recv_tell b j) = k_rcv_queue j" for b j by (simp add: recv_tell_def)
  show "\<exists>p. k_rcv_queue k' = k_rcv_queue k @ p"
    unfolding k' by simp (rule rcv_move_shape [of k], auto)
qed

section \<open>A message that does not fit the window\<close>

text \<open>
  \<open>rcv_stuck\<close>: the message at the head of \<^verbatim>\<open>rcv_queue\<close> has more fragments than the window has places.
  \<^verbatim>\<open>ikcp_peeksize\<close> waits for all of them, and the move loop stops at the window, so nothing ever comes.
\<close>

definition rcv_stuck :: "ikcpcb \<Rightarrow> bool" where
  "rcv_stuck kcp \<longleftrightarrow>
     (case k_rcv_queue kcp of [] \<Rightarrow> False
      | s # _ \<Rightarrow> k_rcv_wnd kcp < s_frg s + 1 \<and> 0 < s_frg s \<and> k_nrcv_que kcp \<le> k_rcv_wnd kcp)"

lemma stuck_recv: "rcv_stuck k \<Longrightarrow> ikcp_recv k b n = (-2, [], k)"
  by (auto simp: rcv_stuck_def ikcp_recv_eq peeksize_eq Let_def split: list.splits)

lemma rcv_move_loop_stuck:
  "k_nrcv_que k \<le> k_rcv_wnd k \<Longrightarrow> k_rcv_queue k = s # p \<Longrightarrow>
   \<exists>p'. k_rcv_queue (rcv_move_loop q k) = s # p' \<and>
     k_nrcv_que (rcv_move_loop q k) \<le> k_rcv_wnd (rcv_move_loop q k) \<and>
     k_rcv_wnd (rcv_move_loop q k) = k_rcv_wnd k"
proof (induction q arbitrary: k p)
  case (Cons x q)
  show ?case
  proof (cases "s_sn x = k_rcv_nxt k \<and> k_nrcv_que k < k_rcv_wnd k")
    case True
    let ?k = "k\<lparr>k_rcv_buf := q, k_nrcv_buf := k_nrcv_buf k - 1, k_rcv_queue := k_rcv_queue k @ [x],
      k_nrcv_que := k_nrcv_que k + 1, k_rcv_nxt := k_rcv_nxt k + 1\<rparr>"
    have "k_nrcv_que ?k \<le> k_rcv_wnd ?k" "k_rcv_queue ?k = s # p @ [x]"
      using True Cons.prems(2) by (simp_all add: inc_le)
    note ih = Cons.IH [OF this]
    have e: "rcv_move_loop (x # q) k = rcv_move_loop q ?k" "k_rcv_wnd ?k = k_rcv_wnd k"
      using True by simp_all
    show ?thesis using ih unfolding e .
  qed (use Cons.prems in auto)
qed simp

lemma stuck_parse_data: "rcv_stuck k \<Longrightarrow> rcv_stuck (ikcp_parse_data k ns)"
proof -
  assume st: "rcv_stuck k"
  then obtain s p where s: "k_rcv_queue k = s # p" "k_rcv_wnd k < s_frg s + 1" "0 < s_frg s"
    "k_nrcv_que k \<le> k_rcv_wnd k"
    by (auto simp: rcv_stuck_def split: list.splits)
  have "rcv_stuck (rcv_move j)" if "k_rcv_queue j = s # p" "k_rcv_wnd j = k_rcv_wnd k"
    "k_nrcv_que j = k_nrcv_que k" for j
    using rcv_move_loop_stuck [of j s p "k_rcv_buf j"] that s by (auto simp: rcv_stuck_def rcv_move_def)
  then show ?thesis
    using st s by (auto simp: ikcp_parse_data_def Let_def split: option.split)
qed

lemma stuck_frames [simp]:
  "rcv_stuck (ikcp_ack_push mem k sn ts) = rcv_stuck k" "rcv_stuck (ikcp_update_ack k rtt) = rcv_stuck k"
  "rcv_stuck (ikcp_parse_ack k sn) = rcv_stuck k" "rcv_stuck (ikcp_shrink_buf k) = rcv_stuck k"
  "rcv_stuck (ikcp_parse_una k una) = rcv_stuck k" "rcv_stuck (grow_cwnd k) = rcv_stuck k"
  "rcv_stuck (k\<lparr>k_rmt_wnd := w\<rparr>) = rcv_stuck k" "rcv_stuck (k\<lparr>k_probe := x\<rparr>) = rcv_stuck k"
proof -
  show "rcv_stuck (ikcp_ack_push mem k sn ts) = rcv_stuck k"
    by (subst ack_push_frame) (simp add: rcv_stuck_def cong: list.case_cong)
  show "rcv_stuck (ikcp_update_ack k rtt) = rcv_stuck k"
    by (subst update_ack_frame) (simp add: rcv_stuck_def cong: list.case_cong)
  show "rcv_stuck (ikcp_parse_ack k sn) = rcv_stuck k"
    by (subst parse_ack_frame) (simp add: rcv_stuck_def cong: list.case_cong)
  show "rcv_stuck (ikcp_shrink_buf k) = rcv_stuck k"
    by (subst shrink_buf_frame) (simp add: rcv_stuck_def cong: list.case_cong)
  show "rcv_stuck (ikcp_parse_una k una) = rcv_stuck k"
    by (subst parse_una_frame) (simp add: rcv_stuck_def cong: list.case_cong)
  show "rcv_stuck (grow_cwnd k) = rcv_stuck k"
    by (subst grow_cwnd_frame) (simp add: rcv_stuck_def cong: list.case_cong)
qed (simp_all add: rcv_stuck_def cong: list.case_cong)

lemma stuck_input_seg: "rcv_stuck k \<Longrightarrow> rcv_stuck (input_seg mem k h d)"
  by (simp add: input_seg_def input_ack_def input_push_def Let_def stuck_parse_data)

lemma stuck_input_loop: "rcv_stuck k \<Longrightarrow> input_loop mem k d = (r, k') \<Longrightarrow> rcv_stuck k'"
proof (induction "length d" arbitrary: d k rule: less_induct)
  case less
  show ?case
  proof (cases "length d < 24")
    case True
    with less.prems show ?thesis by (simp add: input_loop_stop)
  next
    case False
    obtain h rest where e: "decode_hdr d = (h, rest)" by fastforce
    have ge: "24 \<le> length d" using False by simp
    have len: "length (drop (unat (h_len h)) rest) < length d"
      using snd_decode_hdr [of d] e ge by simp
    show ?thesis
      using less.prems less.hyps [OF len stuck_input_seg [OF less.prems(1)]]
      by (auto simp: input_loop_step [OF ge e] split: if_splits)
  qed
qed

lemma stuck_input: "rcv_stuck k \<Longrightarrow> rcv_stuck (snd (ikcp_input mem k (Some d)))"
  using stuck_input_loop [of k mem d "fst (input_loop mem k d)" "snd (input_loop mem k d)"]
  by (simp add: ikcp_input_def Let_def split_beta)

section \<open>Which segments an acknowledgement removes\<close>

lemma parse_una_filter:
  assumes win: "snd_win k" and una: "woff (k_snd_una k) u \<le> woff (k_snd_una k) (k_snd_nxt k)"
  shows "k_snd_buf (ikcp_parse_una k u) =
    filter (\<lambda>s. woff (k_snd_una k) u \<le> woff (k_snd_una k) (s_sn s)) (k_snd_buf k)"
proof -
  let ?b = "k_snd_una k"
  note I = snd_winD [OF win]
  have t: "itimediff u (s_sn s) > 0 \<longleftrightarrow> woff ?b (s_sn s) < woff ?b u" if "s \<in> set (k_snd_buf k)" for s
    using itimediff_woff [of ?b u "s_sn s"] I(2) [OF that] I(3) una by simp
  have "dropWhile (\<lambda>s. itimediff u (s_sn s) > 0) buf =
      filter (\<lambda>s. woff ?b u \<le> woff ?b (s_sn s)) buf"
    if "ordered ?b buf" "set buf \<subseteq> set (k_snd_buf k)" for buf
    using that
  proof (induction buf)
    case (Cons s buf)
    show ?case
    proof (cases "woff ?b (s_sn s) < woff ?b u")
      case True
      then show ?thesis using Cons t [of s] by (simp add: ordered_Cons)
    next
      case False
      then have "filter (\<lambda>s. woff ?b u \<le> woff ?b (s_sn s)) buf = buf"
        using Cons.prems(1) by (intro filter_True) (fastforce simp: ordered_Cons)
      then show ?thesis using False t [of s] Cons.prems(2) by simp
    qed
  qed simp
  then show ?thesis using I(1) by (simp add: parse_una_eq)
qed

lemma parse_ack_buf:
  assumes inv: "snd_win k" and s: "s \<in> set (k_snd_buf k)" "s_sn s = sn"
  shows "k_snd_buf (ikcp_parse_ack k sn) =
    map bump (takeWhile (\<lambda>t. s_sn t \<noteq> sn) (k_snd_buf k)) @ tl (dropWhile (\<lambda>t. s_sn t \<noteq> sn) (k_snd_buf k))"
proof -
  let ?b = "k_snd_una k"
  note I = snd_winD [OF inv]
  have w: "woff ?b sn < woff ?b (k_snd_nxt k)" using I(2) [OF s(1)] s(2) by simp
  have "itimediff sn ?b = int (woff ?b sn) - int (woff ?b ?b)"
    by (rule itimediff_woff) (use w I(3) in simp_all)
  moreover have "itimediff sn (k_snd_nxt k) = int (woff ?b sn) - int (woff ?b (k_snd_nxt k))"
    by (rule itimediff_woff) (use w I(3) in simp_all)
  ultimately have "\<not> (itimediff sn ?b < 0 \<or> itimediff sn (k_snd_nxt k) \<ge> 0)" using w by simp
  then show ?thesis by (simp add: ikcp_parse_ack_def split_beta parse_ack_loop_eq)
qed

end
