(* ===== verification/Ikcp_Flush.thy ===== *)
theory Ikcp_Flush
  imports Ikcp_Input
begin

text \<open>
  \<^verbatim>\<open>ikcp_flush\<close> (874 to 1097), \<^verbatim>\<open>ikcp_encode_seg\<close>'s caller, in the order of the source:
  acknowledgements, window probes, moving segments from \<^verbatim>\<open>snd_queue\<close> to \<^verbatim>\<open>snd_buf\<close> while the
  window allows it, transmission and retransmission, and the congestion window. The output
  buffer is the list of bytes between \<^verbatim>\<open>buffer\<close> and \<^verbatim>\<open>ptr\<close>; \<open>o_sent\<close> are the datagrams
  handed to the output callback so far.
\<close>

unbundle bit_operations_syntax

section \<open>Operations\<close>

record outbuf =
  o_ptr :: "u8 list"
  o_sent :: "u8 list list"

definition ikcp_wnd_unused :: "ikcpcb \<Rightarrow> int" where
  "ikcp_wnd_unused kcp =
     (if k_nrcv_que kcp < k_rcv_wnd kcp then sint (k_rcv_wnd kcp - k_nrcv_que kcp) else 0)"

text \<open>
  The test before every header of the first part compares unsigned, since \<^verbatim>\<open>IKCP_OVERHEAD\<close> is;
  the one before a data segment compares signed.
\<close>

definition out_room_hdr :: "u32 \<Rightarrow> outbuf \<Rightarrow> outbuf" where
  "out_room_hdr mtu ob =
     (if word_of_nat (length (o_ptr ob)) + IKCP_OVERHEAD > mtu
      then ob\<lparr>o_ptr := [], o_sent := ikcp_output (o_sent ob) (o_ptr ob)\<rparr> else ob)"

definition out_room_seg :: "u32 \<Rightarrow> u32 \<Rightarrow> outbuf \<Rightarrow> outbuf" where
  "out_room_seg mtu len ob =
     (if i32 (int (length (o_ptr ob)) + sint (IKCP_OVERHEAD + len)) > sint mtu
      then ob\<lparr>o_ptr := [], o_sent := ikcp_output (o_sent ob) (o_ptr ob)\<rparr> else ob)"

definition out_put :: "u8 list \<Rightarrow> outbuf \<Rightarrow> outbuf" where
  "out_put bytes ob = ob\<lparr>o_ptr := o_ptr ob @ bytes\<rparr>"

definition flush_ack_step :: "ikcpcb \<Rightarrow> nat \<Rightarrow> iseg \<times> outbuf \<Rightarrow> iseg \<times> outbuf" where
  "flush_ack_step kcp i st =
     (let (seg, ob) = st;
          ob = out_room_hdr (k_mtu kcp) ob;
          (sn, ts) = ikcp_ack_get kcp i;
          seg = seg\<lparr>s_sn := sn, s_ts := ts\<rparr>
      in (seg, out_put (ikcp_encode_seg seg) ob))"

definition flush_acks :: "ikcpcb \<Rightarrow> iseg \<Rightarrow> outbuf \<Rightarrow> iseg \<times> outbuf" where
  "flush_acks kcp seg ob = fold (flush_ack_step kcp) [0..<nat (sint (k_ackcount kcp))] (seg, ob)"

definition probe_timer :: "ikcpcb \<Rightarrow> ikcpcb" where
  "probe_timer kcp =
     (if k_rmt_wnd kcp = 0 then
        if k_probe_wait kcp = 0 then
          kcp\<lparr>k_probe_wait := IKCP_PROBE_INIT,
              k_ts_probe := k_current kcp + IKCP_PROBE_INIT\<rparr>
        else if itimediff (k_current kcp) (k_ts_probe kcp) \<ge> 0 then
          let wait = k_probe_wait kcp;
              wait = (if wait < IKCP_PROBE_INIT then IKCP_PROBE_INIT else wait);
              wait = wait + wait div 2;
              wait = (if wait > IKCP_PROBE_LIMIT then IKCP_PROBE_LIMIT else wait)
          in kcp\<lparr>k_probe_wait := wait, k_ts_probe := k_current kcp + wait,
                 k_probe := k_probe kcp OR IKCP_ASK_SEND\<rparr>
        else kcp
      else kcp\<lparr>k_ts_probe := 0, k_probe_wait := 0\<rparr>)"

definition flush_probe :: "ikcpcb \<Rightarrow> u32 \<Rightarrow> u32 \<Rightarrow> iseg \<times> outbuf \<Rightarrow> iseg \<times> outbuf" where
  "flush_probe kcp ask cmd st =
     (let (seg, ob) = st in
      if k_probe kcp AND ask \<noteq> 0 then
        let seg = seg\<lparr>s_cmd := cmd\<rparr>;
            ob = out_room_hdr (k_mtu kcp) ob
        in (seg, out_put (ikcp_encode_seg seg) ob)
      else (seg, ob))"

definition flush_window :: "ikcpcb \<Rightarrow> u32" where
  "flush_window kcp =
     (let cwnd = imin (k_snd_wnd kcp) (k_rmt_wnd kcp)
      in if k_nocwnd kcp = 0 then imin (k_cwnd kcp) cwnd else cwnd)"

fun snd_move_loop :: "u32 \<Rightarrow> u32 \<Rightarrow> u32 \<Rightarrow> iseg list \<Rightarrow> ikcpcb \<Rightarrow> ikcpcb" where
  "snd_move_loop current cwnd wnd [] kcp = kcp"
| "snd_move_loop current cwnd wnd (newseg # rest) kcp =
     (if itimediff (k_snd_nxt kcp) (k_snd_una kcp + cwnd) < 0 then
        let newseg = newseg
              \<lparr>s_conv := k_conv kcp, s_cmd := IKCP_CMD_PUSH, s_wnd := wnd, s_ts := current,
               s_sn := k_snd_nxt kcp, s_una := k_rcv_nxt kcp, s_resendts := current,
               s_rto := word_of_int (k_rx_rto kcp), s_fastack := 0, s_xmit := 0\<rparr>
        in snd_move_loop current cwnd wnd rest
             (kcp\<lparr>k_snd_queue := rest,
                  k_snd_buf := k_snd_buf kcp @ [newseg],
                  k_nsnd_que := k_nsnd_que kcp - 1,
                  k_nsnd_buf := k_nsnd_buf kcp + 1,
                  k_snd_nxt := k_snd_nxt kcp + 1\<rparr>)
      else kcp)"

definition snd_move :: "u32 \<Rightarrow> u32 \<Rightarrow> u32 \<Rightarrow> ikcpcb \<Rightarrow> ikcpcb" where
  "snd_move current cwnd wnd kcp = snd_move_loop current cwnd wnd (k_snd_queue kcp) kcp"

text \<open>
  The timer decision for one segment of \<^verbatim>\<open>snd_buf\<close>. \<open>Resend_lost\<close> is the retransmission timeout,
  \<open>Resend_fast\<close> the fast retransmission.
\<close>

datatype send_kind = No_send | First_send | Resend_lost | Resend_fast

definition send_decision :: "u32 \<Rightarrow> u32 \<Rightarrow> iseg \<Rightarrow> send_kind" where
  "send_decision current resent seg =
     (if s_xmit seg = 0 then First_send
      else if itimediff current (s_resendts seg) \<ge> 0 then Resend_lost
      else if s_fastack seg \<ge> resent then Resend_fast
      else No_send)"

definition send_update :: "ikcpcb \<Rightarrow> u32 \<Rightarrow> u32 \<Rightarrow> send_kind \<Rightarrow> iseg \<Rightarrow> iseg" where
  "send_update kcp current rtomin kind seg =
     (case kind of
        No_send \<Rightarrow> seg
      | First_send \<Rightarrow>
          let seg = seg\<lparr>s_xmit := s_xmit seg + 1, s_rto := word_of_int (k_rx_rto kcp)\<rparr>
          in seg\<lparr>s_resendts := current + s_rto seg + rtomin\<rparr>
      | Resend_lost \<Rightarrow>
          let seg = seg\<lparr>s_xmit := s_xmit seg + 1,
                        s_rto := s_rto seg + (if k_nodelay kcp = 0 then word_of_int (k_rx_rto kcp)
                                              else word_of_int (k_rx_rto kcp sdiv 2))\<rparr>
          in seg\<lparr>s_resendts := current + s_rto seg\<rparr>
      | Resend_fast \<Rightarrow>
          seg\<lparr>s_xmit := s_xmit seg + 1, s_fastack := 0, s_resendts := current + s_rto seg\<rparr>)"

record flush_state =
  f_kcp :: ikcpcb
  f_out :: outbuf
  f_lost :: bool
  f_change :: nat

definition flush_seg :: "u32 \<Rightarrow> u32 \<Rightarrow> u32 \<Rightarrow> u32 \<Rightarrow> iseg \<Rightarrow> flush_state \<Rightarrow> iseg \<times> flush_state" where
  "flush_seg current wnd resent rtomin seg st =
     (let kcp = f_kcp st;
          kind = send_decision current resent seg;
          seg = send_update kcp current rtomin kind seg;
          st = (case kind of
                  Resend_lost \<Rightarrow> st\<lparr>f_kcp := kcp\<lparr>k_xmit := k_xmit kcp + 1\<rparr>, f_lost := True\<rparr>
                | Resend_fast \<Rightarrow> st\<lparr>f_change := f_change st + 1\<rparr>
                | _ \<Rightarrow> st)
      in if kind = No_send then (seg, st)
         else
           let kcp = f_kcp st;
               seg = seg\<lparr>s_ts := current, s_wnd := wnd, s_una := k_rcv_nxt kcp\<rparr>;
               ob = out_room_seg (k_mtu kcp) (s_len seg) (f_out st);
               ob = out_put (ikcp_encode_seg seg) ob;
               ob = out_put (seg_bytes seg) ob;
               kcp = (if s_xmit seg \<ge> k_dead_link kcp then kcp\<lparr>k_state := -1\<rparr> else kcp)
           in (seg, st\<lparr>f_kcp := kcp, f_out := ob\<rparr>))"

fun flush_segs :: "u32 \<Rightarrow> u32 \<Rightarrow> u32 \<Rightarrow> u32 \<Rightarrow> iseg list \<Rightarrow> flush_state \<Rightarrow> iseg list \<times> flush_state" where
  "flush_segs current wnd resent rtomin [] st = ([], st)"
| "flush_segs current wnd resent rtomin (seg # p) st =
     (let (seg', st) = flush_seg current wnd resent rtomin seg st;
          (p', st) = flush_segs current wnd resent rtomin p st
      in (seg' # p', st))"

definition flush_cwnd :: "u32 \<Rightarrow> u32 \<Rightarrow> bool \<Rightarrow> nat \<Rightarrow> ikcpcb \<Rightarrow> ikcpcb" where
  "flush_cwnd cwnd resent lost change kcp =
     (let kcp = (if change \<noteq> 0 then
                   let inflight = k_snd_nxt kcp - k_snd_una kcp;
                       ssthresh = inflight div 2;
                       ssthresh = (if ssthresh < IKCP_THRESH_MIN then IKCP_THRESH_MIN else ssthresh)
                   in kcp\<lparr>k_ssthresh := ssthresh, k_cwnd := ssthresh + resent,
                          k_incr := (ssthresh + resent) * k_mss kcp\<rparr>
                 else kcp);
          kcp = (if lost then
                   let ssthresh = cwnd div 2;
                       ssthresh = (if ssthresh < IKCP_THRESH_MIN then IKCP_THRESH_MIN else ssthresh)
                   in kcp\<lparr>k_ssthresh := ssthresh, k_cwnd := 1, k_incr := k_mss kcp\<rparr>
                 else kcp)
      in if k_cwnd kcp < 1 then kcp\<lparr>k_cwnd := 1, k_incr := k_mss kcp\<rparr> else kcp)"

text \<open>The local \<^verbatim>\<open>seg\<close> as it is before the first use; its other fields are never read.\<close>

definition flush_hdr :: "ikcpcb \<Rightarrow> iseg" where
  "flush_hdr kcp =
     \<lparr>s_conv = k_conv kcp, s_cmd = IKCP_CMD_ACK, s_frg = 0,
      s_wnd = word_of_int (ikcp_wnd_unused kcp), s_ts = 0, s_sn = 0, s_una = k_rcv_nxt kcp,
      s_len = 0, s_resendts = 0, s_rto = 0, s_fastack = 0, s_xmit = 0, s_data = []\<rparr>"

definition flush_heads :: "ikcpcb \<Rightarrow> ikcpcb \<times> outbuf" where
  "flush_heads kcp =
     (let (seg, ob) = flush_acks kcp (flush_hdr kcp) \<lparr>o_ptr = [], o_sent = []\<rparr>;
          kcp = kcp\<lparr>k_ackcount := 0\<rparr>;
          kcp = probe_timer kcp;
          (seg, ob) = flush_probe kcp IKCP_ASK_SEND IKCP_CMD_WASK (seg, ob);
          (seg, ob) = flush_probe kcp IKCP_ASK_TELL IKCP_CMD_WINS (seg, ob)
      in (kcp\<lparr>k_probe := 0\<rparr>, ob))"

definition flush_resent :: "ikcpcb \<Rightarrow> u32" where
  "flush_resent kcp = (if k_fastresend kcp > 0 then word_of_int (k_fastresend kcp) else 0xffffffff)"

definition flush_rtomin :: "ikcpcb \<Rightarrow> u32" where
  "flush_rtomin kcp = (if k_nodelay kcp = 0 then word_of_int (drop_bit 3 (k_rx_rto kcp)) else 0)"

text \<open>\<^verbatim>\<open>ikcp_flush\<close>: the control block and the datagrams handed to the output callback, in order.\<close>

definition ikcp_flush :: "ikcpcb \<Rightarrow> ikcpcb \<times> u8 list list" where
  "ikcp_flush kcp =
     (if k_updated kcp = 0 then (kcp, [])
      else
        let current = k_current kcp;
            wnd = word_of_int (ikcp_wnd_unused kcp);
            (kcp, ob) = flush_heads kcp;
            cwnd = flush_window kcp;
            kcp = snd_move current cwnd wnd kcp;
            resent = flush_resent kcp;
            rtomin = flush_rtomin kcp;
            (buf, st) = flush_segs current wnd resent rtomin (k_snd_buf kcp)
                          \<lparr>f_kcp = kcp, f_out = ob, f_lost = False, f_change = 0\<rparr>;
            kcp = (f_kcp st)\<lparr>k_snd_buf := buf\<rparr>;
            sent = ikcp_output (o_sent (f_out st)) (o_ptr (f_out st))
        in (flush_cwnd cwnd resent (f_lost st) (f_change st) kcp, sent))"

section \<open>The output buffer\<close>

text \<open>
  \<open>out_repr M ob segs\<close>: the datagrams sent and the bytes in the buffer are, in order, the wire form of
  \<open>segs\<close>, no datagram is empty, and neither a datagram nor the buffer holds more than \<open>M\<close> bytes.
\<close>

definition out_repr :: "nat \<Rightarrow> outbuf \<Rightarrow> iseg list \<Rightarrow> bool" where
  "out_repr M ob segs \<longleftrightarrow>
     (\<exists>gss rest. o_sent ob = map dgram gss \<and> o_ptr ob = dgram rest \<and> concat gss @ rest = segs \<and>
        (\<forall>g \<in> set gss. g \<noteq> [] \<and> length (dgram g) \<le> M) \<and> length (dgram rest) \<le> M)"

definition out_flush :: "outbuf \<Rightarrow> outbuf" where
  "out_flush ob = ob\<lparr>o_ptr := [], o_sent := ikcp_output (o_sent ob) (o_ptr ob)\<rparr>"

lemma out_repr_empty: "out_repr M \<lparr>o_ptr = [], o_sent = []\<rparr> []"
  unfolding out_repr_def by (intro exI [of _ "[]"]) simp

lemma i32_nat: "n < 2 ^ 31 \<Longrightarrow> i32 (int n) = int n"
  by (rule i32_id) simp_all

lemma out_repr_flush:
  assumes "out_repr M ob segs"
  shows "out_repr M (out_flush ob) segs"
proof -
  obtain gss rest where g: "o_sent ob = map dgram gss" "o_ptr ob = dgram rest"
    "concat gss @ rest = segs" "\<forall>g \<in> set gss. g \<noteq> [] \<and> length (dgram g) \<le> M" "length (dgram rest) \<le> M"
    using assms by (auto simp: out_repr_def)
  show ?thesis
    unfolding out_repr_def
    by (rule exI [of _ "if rest = [] then gss else gss @ [rest]"], rule exI [of _ "[]"])
      (use g in \<open>auto simp: out_flush_def ikcp_output_def\<close>)
qed

lemma out_repr_put:
  assumes "out_repr M ob segs" "length (o_ptr ob) + length (wire_seg s) \<le> M"
  shows "out_repr M (out_put (wire_seg s) ob) (segs @ [s])"
proof -
  obtain gss rest where g: "o_sent ob = map dgram gss" "o_ptr ob = dgram rest"
    "concat gss @ rest = segs" "\<forall>g \<in> set gss. g \<noteq> [] \<and> length (dgram g) \<le> M"
    using assms by (auto simp: out_repr_def)
  show ?thesis
    unfolding out_repr_def
    by (rule exI [of _ gss], rule exI [of _ "rest @ [s]"])
      (use g assms(2) in \<open>auto simp: out_put_def wire_seg_def\<close>)
qed

lemma out_repr_sent:
  assumes "out_repr M ob segs"
  obtains gss where "ikcp_output (o_sent ob) (o_ptr ob) = map dgram gss" "concat gss = segs"
    "\<forall>g \<in> set gss. g \<noteq> [] \<and> length (dgram g) \<le> M"
proof -
  have "out_repr M (out_flush ob) segs" using assms by (rule out_repr_flush)
  then obtain gss rest where "o_sent (out_flush ob) = map dgram gss" "o_ptr (out_flush ob) = dgram rest"
    "concat gss @ rest = segs" "\<forall>g \<in> set gss. g \<noteq> [] \<and> length (dgram g) \<le> M"
    by (auto simp: out_repr_def)
  moreover from this have "rest = []" using dgram_eq_Nil [of rest] by (simp add: out_flush_def eq_commute)
  ultimately show thesis by (intro that [of gss]) (auto simp: out_flush_def)
qed

lemma out_repr_len: "out_repr M ob segs \<Longrightarrow> length (o_ptr ob) \<le> M"
  by (auto simp: out_repr_def)

lemma out_room_hdr_cases:
  assumes "unat mtu = M" "M < 2 ^ 30" "length (o_ptr ob) \<le> M"
  shows "out_room_hdr mtu ob = (if length (o_ptr ob) + 24 > M then out_flush ob else ob)"
proof -
  have "unat (word_of_nat (length (o_ptr ob)) :: u32) = length (o_ptr ob)"
    using assms by (intro word_of_nat_eq_32) simp
  then have "unat (word_of_nat (length (o_ptr ob)) + IKCP_OVERHEAD) = length (o_ptr ob) + 24"
    using assms by (simp add: unat_plus_32 IKCP_OVERHEAD_def)
  then show ?thesis
    by (simp add: out_room_hdr_def out_flush_def word_less_nat_alt assms(1))
qed

lemma out_room_seg_cases:
  assumes "unat mtu = M" "M < 2 ^ 30" "length (o_ptr ob) \<le> M" "unat len + 24 \<le> M"
  shows "out_room_seg mtu len ob = (if length (o_ptr ob) + (24 + unat len) > M then out_flush ob else ob)"
proof -
  have "unat (IKCP_OVERHEAD + len) = 24 + unat len"
    using assms by (simp add: unat_plus_32 IKCP_OVERHEAD_def)
  then have a: "sint (IKCP_OVERHEAD + len) = int (24 + unat len)"
    using assms by (simp only: sint_32) simp
  have b: "sint mtu = int M" using assms by (simp only: sint_32) simp
  have "length (o_ptr ob) + (24 + unat len) < 2 ^ 31" using assms by simp
  then have c: "i32 (int (length (o_ptr ob)) + int (24 + unat len)) = int (length (o_ptr ob) + (24 + unat len))"
    using i32_nat [of "length (o_ptr ob) + (24 + unat len)"] by (simp only: of_nat_add)
  show ?thesis
    unfolding out_room_seg_def a b c out_flush_def of_nat_less_iff ..
qed

lemma out_hdr_step:
  assumes "out_repr M ob segs" "unat mtu = M" "24 \<le> M" "M < 2 ^ 30" "s_len s = 0"
  shows "out_repr M (out_put (ikcp_encode_seg s) (out_room_hdr mtu ob)) (segs @ [s])"
proof -
  note len = out_repr_len [OF assms(1)]
  have w: "wire_seg s = ikcp_encode_seg s" using assms(5) by (simp add: wire_seg_def seg_bytes_def)
  show ?thesis
    unfolding out_room_hdr_cases [OF assms(2,4) len] w [symmetric]
    by (rule out_repr_put) (use assms(1,3) out_repr_flush len in \<open>auto simp: w out_flush_def\<close>)
qed

lemma out_seg_step:
  assumes "out_repr M ob segs" "unat mtu = M" "M < 2 ^ 30" "unat (s_len s) + 24 \<le> M" "seg_ok s"
  shows "out_repr M (out_put (seg_bytes s) (out_put (ikcp_encode_seg s) (out_room_seg mtu (s_len s) ob)))
    (segs @ [s])"
proof -
  note len = out_repr_len [OF assms(1)]
  have w: "out_put (seg_bytes s) (out_put (ikcp_encode_seg s) b) = out_put (wire_seg s) b" for b
    by (simp add: out_put_def wire_seg_def)
  have l: "length (wire_seg s) = 24 + unat (s_len s)"
    using assms(5) by (simp add: wire_seg_def seg_ok_def del: seg_bytes_ok) (simp add: seg_bytes_def)
  show ?thesis
    unfolding out_room_seg_cases [OF assms(2,3) len assms(4)] w
    by (rule out_repr_put) (use assms(1,4) out_repr_flush len l in \<open>auto simp: out_flush_def\<close>)
qed

section \<open>Acknowledgements and probes\<close>

definition ack_seg :: "ikcpcb \<Rightarrow> u32 \<times> u32 \<Rightarrow> iseg" where
  "ack_seg kcp = (\<lambda>(sn, ts). (flush_hdr kcp)\<lparr>s_sn := sn, s_ts := ts\<rparr>)"

definition probe_hdr :: "ikcpcb \<Rightarrow> iseg" where
  "probe_hdr kcp = (if acks kcp = [] then flush_hdr kcp else ack_seg kcp (last (acks kcp)))"

lemma flush_acks_fold:
  assumes "unat (k_mtu kcp) = M" "24 \<le> M" "M < 2 ^ 30" "out_repr M ob segs"
  shows "\<exists>ob'. fold (flush_ack_step kcp) [0..<n] (flush_hdr kcp, ob) =
      (let l = map (ikcp_ack_get kcp) [0..<n] in if l = [] then flush_hdr kcp else ack_seg kcp (last l), ob') \<and>
    out_repr M ob' (segs @ map (ack_seg kcp \<circ> ikcp_ack_get kcp) [0..<n])"
proof (induction n)
  case 0
  then show ?case using assms(4) by simp
next
  case (Suc n)
  let ?l = "map (ikcp_ack_get kcp) [0..<n]"
  let ?s = "if ?l = [] then flush_hdr kcp else ack_seg kcp (last ?l)"
  define t where "t = ?s"
  obtain ob' where ob: "fold (flush_ack_step kcp) [0..<n] (flush_hdr kcp, ob) = (t, ob')"
    "out_repr M ob' (segs @ map (ack_seg kcp \<circ> ikcp_ack_get kcp) [0..<n])"
    using Suc unfolding t_def by (auto simp: Let_def comp_def)
  obtain sn ts where g: "ikcp_ack_get kcp n = (sn, ts)" by fastforce
  have s: "t\<lparr>s_sn := sn, s_ts := ts\<rparr> = ack_seg kcp (sn, ts)"
    by (simp add: t_def ack_seg_def split_beta)
  have "s_len (ack_seg kcp (sn, ts)) = 0" by (simp add: ack_seg_def flush_hdr_def)
  note st = out_hdr_step [OF ob(2) assms(1-3) this]
  have "flush_ack_step kcp n (t, ob') =
      (ack_seg kcp (sn, ts), out_put (ikcp_encode_seg (ack_seg kcp (sn, ts))) (out_room_hdr (k_mtu kcp) ob'))"
    by (simp add: s g flush_ack_step_def Let_def)
  with st show ?case by (simp add: ob(1) g comp_def)
qed

lemma flush_acks_eq:
  assumes "unat (k_mtu kcp) = M" "24 \<le> M" "M < 2 ^ 30" "unat (k_ackcount kcp) < 2 ^ 31"
    and "out_repr M ob segs"
  obtains ob' where "flush_acks kcp (flush_hdr kcp) ob = (probe_hdr kcp, ob')"
    "out_repr M ob' (segs @ map (ack_seg kcp) (acks kcp))"
proof -
  have n: "nat (sint (k_ackcount kcp)) = unat (k_ackcount kcp)"
    using assms(4) by (simp only: sint_32 if_True nat_int)
  show thesis
    using flush_acks_fold [OF assms(1-3,5), of "unat (k_ackcount kcp)"]
    by (auto simp: flush_acks_def n acks_def probe_hdr_def Let_def intro!: that)
qed

text \<open>The segments the first part of the flush writes, and the control block it leaves.\<close>

definition heads_kcp :: "ikcpcb \<Rightarrow> ikcpcb" where
  "heads_kcp kcp = (probe_timer (kcp\<lparr>k_ackcount := 0\<rparr>))\<lparr>k_probe := 0\<rparr>"

definition probe_segs :: "ikcpcb \<Rightarrow> iseg list" where
  "probe_segs kcp =
     (let probe = k_probe (probe_timer kcp)
      in (if probe AND IKCP_ASK_SEND \<noteq> 0 then [(probe_hdr kcp)\<lparr>s_cmd := IKCP_CMD_WASK\<rparr>] else []) @
         (if probe AND IKCP_ASK_TELL \<noteq> 0 then [(probe_hdr kcp)\<lparr>s_cmd := IKCP_CMD_WINS\<rparr>] else []))"

definition head_segs :: "ikcpcb \<Rightarrow> iseg list" where
  "head_segs kcp = map (ack_seg kcp) (acks kcp) @ probe_segs kcp"

lemma probe_timer_frame [kcp_frame]:
  "probe_timer kcp = kcp\<lparr>k_probe_wait := k_probe_wait (probe_timer kcp),
     k_ts_probe := k_ts_probe (probe_timer kcp), k_probe := k_probe (probe_timer kcp)\<rparr>"
  by (simp add: probe_timer_def Let_def)

lemma probe_timer_probe: "k_probe (probe_timer (kcp\<lparr>k_ackcount := n\<rparr>)) = k_probe (probe_timer kcp)"
  by (simp add: probe_timer_def Let_def)

lemma probe_timer_mtu: "k_mtu (probe_timer kcp) = k_mtu kcp"
  by (subst probe_timer_frame) simp

lemma probe_hdr_len [simp]: "s_len (probe_hdr kcp) = 0"
  by (simp add: probe_hdr_def ack_seg_def flush_hdr_def split_beta)

lemma flush_probe_eq:
  assumes "out_repr M ob segs" "unat (k_mtu kcp) = M" "24 \<le> M" "M < 2 ^ 30" "s_len seg = 0"
  obtains ob' where "flush_probe kcp ask cmd (seg, ob) =
      (if k_probe kcp AND ask \<noteq> 0 then seg\<lparr>s_cmd := cmd\<rparr> else seg, ob')"
    "out_repr M ob' (segs @ (if k_probe kcp AND ask \<noteq> 0 then [seg\<lparr>s_cmd := cmd\<rparr>] else []))"
proof (cases "k_probe kcp AND ask = 0")
  case True
  with assms(1) show thesis by (intro that [of ob]) (simp_all add: flush_probe_def)
next
  case False
  have l: "s_len (seg\<lparr>s_cmd := cmd\<rparr>) = 0" using assms(5) by simp
  show thesis
    using out_hdr_step [OF assms(1-4) l] False
    by (intro that [of "out_put (ikcp_encode_seg (seg\<lparr>s_cmd := cmd\<rparr>)) (out_room_hdr (k_mtu kcp) ob)"])
      (simp_all add: flush_probe_def Let_def)
qed

lemma flush_heads_eq:
  assumes "unat (k_mtu kcp) = M" "24 \<le> M" "M < 2 ^ 30" "unat (k_ackcount kcp) < 2 ^ 31"
  obtains ob where "flush_heads kcp = (heads_kcp kcp, ob)" "out_repr M ob (head_segs kcp)"
proof -
  let ?p = "probe_timer (kcp\<lparr>k_ackcount := 0\<rparr>)"
  obtain ob1 where 1: "flush_acks kcp (flush_hdr kcp) \<lparr>o_ptr = [], o_sent = []\<rparr> = (probe_hdr kcp, ob1)"
    "out_repr M ob1 ([] @ map (ack_seg kcp) (acks kcp))"
    by (rule flush_acks_eq [OF assms out_repr_empty])
  have m: "unat (k_mtu ?p) = M" using assms(1) by (simp add: probe_timer_mtu)
  let ?s1 = "if k_probe ?p AND IKCP_ASK_SEND \<noteq> 0 then (probe_hdr kcp)\<lparr>s_cmd := IKCP_CMD_WASK\<rparr>
    else probe_hdr kcp"
  obtain ob2 where 2: "flush_probe ?p IKCP_ASK_SEND IKCP_CMD_WASK (probe_hdr kcp, ob1) = (?s1, ob2)"
    "out_repr M ob2 (([] @ map (ack_seg kcp) (acks kcp)) @
      (if k_probe ?p AND IKCP_ASK_SEND \<noteq> 0 then [(probe_hdr kcp)\<lparr>s_cmd := IKCP_CMD_WASK\<rparr>] else []))"
    by (rule flush_probe_eq [OF 1(2) m assms(2,3) probe_hdr_len])
  have l: "s_len ?s1 = 0" by simp
  have s: "?s1\<lparr>s_cmd := IKCP_CMD_WINS\<rparr> = (probe_hdr kcp)\<lparr>s_cmd := IKCP_CMD_WINS\<rparr>" by simp
  obtain ob3 where 3: "flush_probe ?p IKCP_ASK_TELL IKCP_CMD_WINS (?s1, ob2) =
      (if k_probe ?p AND IKCP_ASK_TELL \<noteq> 0 then ?s1\<lparr>s_cmd := IKCP_CMD_WINS\<rparr> else ?s1, ob3)"
    "out_repr M ob3 ((([] @ map (ack_seg kcp) (acks kcp)) @
      (if k_probe ?p AND IKCP_ASK_SEND \<noteq> 0 then [(probe_hdr kcp)\<lparr>s_cmd := IKCP_CMD_WASK\<rparr>] else [])) @
      (if k_probe ?p AND IKCP_ASK_TELL \<noteq> 0 then [?s1\<lparr>s_cmd := IKCP_CMD_WINS\<rparr>] else []))"
    by (rule flush_probe_eq [OF 2(2) m assms(2,3) l])
  have "out_repr M ob3 (head_segs kcp)"
    using 3(2) unfolding s
    by (simp only: probe_timer_probe head_segs_def probe_segs_def Let_def append_Nil append_assoc)
  moreover have "flush_heads kcp = (heads_kcp kcp, ob3)"
    unfolding flush_heads_def Let_def 1(1) prod.case 2(1) 3(1) heads_kcp_def ..
  ultimately show thesis using that by blast
qed

section \<open>Moving segments into flight\<close>

text \<open>\<open>stamp\<close> fills in what the code sets when it gives a segment its number.\<close>

definition stamp :: "ikcpcb \<Rightarrow> u32 \<Rightarrow> u32 \<Rightarrow> u32 \<Rightarrow> iseg \<Rightarrow> iseg" where
  "stamp kcp current wnd sn s =
     s\<lparr>s_conv := k_conv kcp, s_cmd := IKCP_CMD_PUSH, s_wnd := wnd, s_ts := current,
       s_sn := sn, s_una := k_rcv_nxt kcp, s_resendts := current,
       s_rto := word_of_int (k_rx_rto kcp), s_fastack := 0, s_xmit := 0\<rparr>"

fun stamp_all :: "ikcpcb \<Rightarrow> u32 \<Rightarrow> u32 \<Rightarrow> u32 \<Rightarrow> iseg list \<Rightarrow> iseg list" where
  "stamp_all kcp current wnd sn [] = []"
| "stamp_all kcp current wnd sn (s # q) =
     stamp kcp current wnd sn s # stamp_all kcp current wnd (sn + 1) q"

definition moved :: "u32 \<Rightarrow> ikcpcb \<Rightarrow> nat" where
  "moved cwnd kcp =
     min (length (k_snd_queue kcp)) (unat cwnd - woff (k_snd_una kcp) (k_snd_nxt kcp))"

lemma stamp_all_cong:
  "k_conv k = k_conv k' \<Longrightarrow> k_rcv_nxt k = k_rcv_nxt k' \<Longrightarrow> k_rx_rto k = k_rx_rto k' \<Longrightarrow>
   stamp_all k c w sn q = stamp_all k' c w sn q"
  by (induction q arbitrary: sn) (simp_all add: stamp_def)

lemma window_test:
  assumes "woff una nxt \<le> 65535" "unat cwnd \<le> 65535"
  shows "itimediff nxt (una + cwnd) < 0 \<longleftrightarrow> woff una nxt < unat cwnd"
proof -
  have "itimediff nxt (una + cwnd) = int (woff una nxt) - int (woff una (una + cwnd))"
    by (rule itimediff_woff) (use assms in \<open>simp_all add: woff_plus\<close>)
  then show ?thesis by (simp only: woff_plus) linarith
qed

lemma snd_move_loop_eq:
  assumes "k_snd_queue kcp = q" "woff (k_snd_una kcp) (k_snd_nxt kcp) \<le> 65535" "unat cwnd \<le> 65535"
  shows "snd_move_loop current cwnd wnd q kcp = kcp\<lparr>
    k_snd_queue := drop (moved cwnd kcp) q,
    k_snd_buf := k_snd_buf kcp @ stamp_all kcp current wnd (k_snd_nxt kcp) (take (moved cwnd kcp) q),
    k_nsnd_que := k_nsnd_que kcp - word_of_nat (moved cwnd kcp),
    k_nsnd_buf := k_nsnd_buf kcp + word_of_nat (moved cwnd kcp),
    k_snd_nxt := k_snd_nxt kcp + word_of_nat (moved cwnd kcp)\<rparr>"
  using assms
proof (induction q arbitrary: kcp)
  case Nil
  then show ?case by (simp add: moved_def)
next
  case (Cons s q)
  let ?o = "woff (k_snd_una kcp) (k_snd_nxt kcp)"
  note t = window_test [OF Cons.prems(2,3)]
  show ?case
  proof (cases "?o < unat cwnd")
    case False
    then have "moved cwnd kcp = 0" by (simp add: moved_def)
    with False t show ?thesis using Cons.prems(1) by simp
  next
    case True
    define k where "k = kcp\<lparr>k_snd_queue := q,
      k_snd_buf := k_snd_buf kcp @ [stamp kcp current wnd (k_snd_nxt kcp) s],
      k_nsnd_que := k_nsnd_que kcp - 1, k_nsnd_buf := k_nsnd_buf kcp + 1,
      k_snd_nxt := k_snd_nxt kcp + 1\<rparr>"
    have o: "woff (k_snd_una k) (k_snd_nxt k) = Suc ?o"
      using Cons.prems(2) by (simp add: k_def woff_Suc)
    have m: "moved cwnd kcp = Suc (moved cwnd k)"
      using True Cons.prems(1) o by (simp add: moved_def k_def)
    have "snd_move_loop current cwnd wnd (s # q) kcp = snd_move_loop current cwnd wnd q k"
      using True t by (simp add: k_def stamp_def)
    also have "\<dots> = k\<lparr>k_snd_queue := drop (moved cwnd k) q,
      k_snd_buf := k_snd_buf k @ stamp_all k current wnd (k_snd_nxt k) (take (moved cwnd k) q),
      k_nsnd_que := k_nsnd_que k - word_of_nat (moved cwnd k),
      k_nsnd_buf := k_nsnd_buf k + word_of_nat (moved cwnd k),
      k_snd_nxt := k_snd_nxt k + word_of_nat (moved cwnd k)\<rparr>"
      using True Cons.prems(3) o by (intro Cons.IH) (simp_all add: k_def)
    also have "\<dots> = kcp\<lparr>k_snd_queue := drop (moved cwnd kcp) (s # q),
      k_snd_buf := k_snd_buf kcp @ stamp_all kcp current wnd (k_snd_nxt kcp) (take (moved cwnd kcp) (s # q)),
      k_nsnd_que := k_nsnd_que kcp - word_of_nat (moved cwnd kcp),
      k_nsnd_buf := k_nsnd_buf kcp + word_of_nat (moved cwnd kcp),
      k_snd_nxt := k_snd_nxt kcp + word_of_nat (moved cwnd kcp)\<rparr>"
    proof -
      have c: "stamp_all k c w sn p = stamp_all kcp c w sn p" for c w sn p
        by (rule stamp_all_cong) (simp_all add: k_def)
      show ?thesis unfolding m c by (simp add: k_def diff_diff_eq ac_simps)
    qed
    finally show ?thesis .
  qed
qed

lemma length_stamp_all [simp]: "length (stamp_all k c w n q) = length q"
  by (induction q arbitrary: n) simp_all

lemma consec_stamp_all: "consec n (stamp_all k c w n q)"
  by (induction q arbitrary: n) (simp_all add: stamp_def)

lemma stamp_sel [simp]:
  "s_frg (stamp k c w n s) = s_frg s" "s_len (stamp k c w n s) = s_len s"
  "s_data (stamp k c w n s) = s_data s" "payload (stamp k c w n s) = payload s"
  "s_conv (stamp k c w n s) = k_conv k" "s_cmd (stamp k c w n s) = IKCP_CMD_PUSH"
  "s_sn (stamp k c w n s) = n" "seg_frg_ok (stamp k c w n s) = seg_frg_ok s"
  by (simp_all add: stamp_def payload_def seg_frg_ok_def seg_ok_def)

lemma stamp_all_mem:
  "t \<in> set (stamp_all k c w n q) \<Longrightarrow> \<exists>i < length q. t = stamp k c w (n + word_of_nat i) (q ! i)"
proof (induction q arbitrary: n)
  case (Cons s q)
  then consider "t = stamp k c w n s" | "t \<in> set (stamp_all k c w (n + 1) q)" by auto
  then show ?case
  proof cases
    case 1
    then show ?thesis by (intro exI [of _ 0]) simp
  next
    case 2
    then obtain i where "i < length q" "t = stamp k c w (n + 1 + word_of_nat i) (q ! i)"
      using Cons.IH by blast
    then show ?thesis by (intro exI [of _ "Suc i"]) (simp add: ac_simps)
  qed
qed simp

lemma woff_add: "woff b x + m < 4294967296 \<Longrightarrow> woff b (x + word_of_nat m) = woff b x + m"
proof -
  assume a: "woff b x + m < 4294967296"
  then have u: "unat (word_of_nat m :: u32) = m" by (intro word_of_nat_eq_32) simp
  have e: "x + word_of_nat m - b = (x - b) + word_of_nat m" by simp
  show ?thesis using a by (simp only: woff_def e unat_plus_32 u if_True)
qed

lemma ordered_consec:
  "consec n q \<Longrightarrow> woff b n + length q \<le> 4294967295 \<Longrightarrow> ordered b q"
proof (induction q arbitrary: n)
  case (Cons s q)
  have o: "woff b (n + 1) = Suc (woff b n)" using Cons.prems(2) by (intro woff_Suc) simp
  have "woff b n < woff b (s_sn t)" if t: "t \<in> set q" for t
  proof -
    obtain i where i: "i < length q" "t = q ! i" using t by (auto simp: in_set_conv_nth)
    have "s_sn t = n + 1 + word_of_nat i" using Cons.prems(1) i consec_nth [of "n + 1" q i] by simp
    moreover have "woff b (n + 1 + word_of_nat i) = woff b (n + 1) + i"
      using o i(1) Cons.prems(2) by (intro woff_add) simp
    ultimately show ?thesis using o by simp
  qed
  moreover have "ordered b q" using Cons.IH [of "n + 1"] Cons.prems o by simp
  ultimately show ?case using Cons.prems(1) by (simp add: ordered_Cons)
qed simp

lemma snd_move_eq:
  assumes "snd_win kcp" "unat cwnd \<le> 65535"
  shows "snd_move current cwnd wnd kcp = kcp\<lparr>
    k_snd_queue := drop (moved cwnd kcp) (k_snd_queue kcp),
    k_snd_buf := k_snd_buf kcp @
      stamp_all kcp current wnd (k_snd_nxt kcp) (take (moved cwnd kcp) (k_snd_queue kcp)),
    k_nsnd_que := k_nsnd_que kcp - word_of_nat (moved cwnd kcp),
    k_nsnd_buf := k_nsnd_buf kcp + word_of_nat (moved cwnd kcp),
    k_snd_nxt := k_snd_nxt kcp + word_of_nat (moved cwnd kcp)\<rparr>"
  unfolding snd_move_def using snd_winD(3) [OF assms(1)] assms(2) by (intro snd_move_loop_eq) simp_all

lemma snd_move_win:
  assumes "snd_inv kcp" "unat cwnd \<le> 65535"
  shows "snd_inv (snd_move current cwnd wnd kcp)"
    and "woff (k_snd_una kcp) (k_snd_nxt (snd_move current cwnd wnd kcp)) \<le>
      max (woff (k_snd_una kcp) (k_snd_nxt kcp)) (unat cwnd)"
proof -
  have win: "snd_win kcp" and hd: "snd_head kcp" using assms(1) by (simp_all add: snd_inv_def)
  note I = snd_winD [OF win]
  let ?m = "moved cwnd kcp" and ?q = "k_snd_queue kcp" and ?una = "k_snd_una kcp" and ?nxt = "k_snd_nxt kcp"
  let ?new = "stamp_all kcp current wnd ?nxt (take ?m ?q)"
  have m: "?m \<le> length ?q" "woff ?una ?nxt + ?m \<le> max (woff ?una ?nxt) (unat cwnd)"
    by (auto simp: moved_def)
  have l: "length ?new = ?m" using m(1) by simp
  have o: "woff ?una (?nxt + word_of_nat ?m) = woff ?una ?nxt + ?m"
    using m(2) I(3) assms(2) by (intro woff_add) simp
  then show bnd: "woff ?una (k_snd_nxt (snd_move current cwnd wnd kcp)) \<le> max (woff ?una ?nxt) (unat cwnd)"
    using m(2) by (simp add: snd_move_eq [OF win assms(2)])
  have oi: "woff ?una ?nxt \<le> woff ?una (s_sn t) \<and> woff ?una (s_sn t) < woff ?una ?nxt + ?m \<and>
      seg_frg_ok t \<and> s_conv t = k_conv kcp \<and> s_cmd t = IKCP_CMD_PUSH"
    if t: "t \<in> set ?new" for t
  proof -
    obtain i where i: "i < ?m" "t = stamp kcp current wnd (?nxt + word_of_nat i) (take ?m ?q ! i)"
      using stamp_all_mem [OF t] m(1) by auto
    have "woff ?una (?nxt + word_of_nat i) = woff ?una ?nxt + i"
      using m(2) I(3) assms(2) i(1) by (intro woff_add) simp
    then show ?thesis using i m(1) I(7) [of "take ?m ?q ! i"] by simp
  qed
  have on: "ordered ?una ?new"
    by (rule ordered_consec [OF consec_stamp_all]) (use l m(2) I(3) assms(2) in simp)
  have ob: "ordered ?una (k_snd_buf kcp @ ?new)"
    using I(1,2) on oi by (fastforce simp: ordered_append)
  have q: "k_nsnd_que kcp - word_of_nat ?m = word_of_nat (length (drop ?m ?q))"
    using I(6) m(1) by (simp add: of_nat_diff)
  have w: "snd_win (snd_move current cwnd wnd kcp)"
    unfolding snd_move_eq [OF win assms(2)]
  proof (rule snd_winI, goal_cases)
    case (2 s)
    then show ?case using I(2) [of s] oi [of s] o by fastforce
  next
    case 5
    then show ?case using I(5) l by simp
  next
    case (7 s)
    then show ?case using I(7) oi by (auto dest: in_set_dropD)
  next
    case (8 s)
    then show ?case using I(8) oi by auto
  qed (use ob o m(2) I(3,4) assms(2) q in auto)
  have "snd_head (snd_move current cwnd wnd kcp)"
  proof (cases "k_snd_buf kcp")
    case (Cons s p)
    with hd show ?thesis by (simp add: snd_head_def snd_move_eq [OF win assms(2)])
  next
    case Nil
    with hd show ?thesis
      by (cases "take ?m ?q") (auto simp: snd_head_def snd_move_eq [OF win assms(2)] moved_def)
  qed
  with w show "snd_inv (snd_move current cwnd wnd kcp)" by (simp add: snd_inv_def)
qed

section \<open>Transmission\<close>

text \<open>\<open>resend\<close> is a segment of \<^verbatim>\<open>snd_buf\<close> after the loop visited it, \<open>sending\<close> whether it went out.\<close>

definition sending :: "u32 \<Rightarrow> u32 \<Rightarrow> iseg \<Rightarrow> bool" where
  "sending current resent s \<longleftrightarrow> send_decision current resent s \<noteq> No_send"

definition resend :: "ikcpcb \<Rightarrow> u32 \<Rightarrow> u32 \<Rightarrow> u32 \<Rightarrow> u32 \<Rightarrow> iseg \<Rightarrow> iseg" where
  "resend kcp current wnd resent rtomin s =
     (if sending current resent s
      then (send_update kcp current rtomin (send_decision current resent s) s)
             \<lparr>s_ts := current, s_wnd := wnd, s_una := k_rcv_nxt kcp\<rparr>
      else s)"

lemma resend_sel [simp]:
  "s_sn (resend k c w r m s) = s_sn s" "s_frg (resend k c w r m s) = s_frg s"
  "s_len (resend k c w r m s) = s_len s" "s_data (resend k c w r m s) = s_data s"
  "s_conv (resend k c w r m s) = s_conv s" "s_cmd (resend k c w r m s) = s_cmd s"
  "payload (resend k c w r m s) = payload s" "seg_ok (resend k c w r m s) = seg_ok s"
  "seg_frg_ok (resend k c w r m s) = seg_frg_ok s"
  by (simp_all add: resend_def send_update_def payload_def seg_ok_def seg_frg_ok_def Let_def
      split: send_kind.split)

lemma resend_cong:
  "resend (kcp\<lparr>k_xmit := x, k_state := y\<rparr>) c w r m s = resend kcp c w r m s"
  by (simp add: resend_def send_update_def cong: send_kind.case_cong)


definition flush_dead :: "ikcpcb \<Rightarrow> u32 \<Rightarrow> u32 \<Rightarrow> u32 \<Rightarrow> u32 \<Rightarrow> iseg \<Rightarrow> bool" where
  "flush_dead kcp current wnd resent rtomin s \<longleftrightarrow>
     sending current resent s \<and> s_xmit (resend kcp current wnd resent rtomin s) \<ge> k_dead_link kcp"

definition n_kind :: "u32 \<Rightarrow> u32 \<Rightarrow> send_kind \<Rightarrow> iseg list \<Rightarrow> nat" where
  "n_kind current resent kind buf = length (filter (\<lambda>s. send_decision current resent s = kind) buf)"

lemma flush_seg_eq:
  assumes "f_kcp st = kcp\<lparr>k_xmit := x, k_state := y\<rparr>"
  shows "flush_seg current wnd resent rtomin s st =
    (let s' = resend kcp current wnd resent rtomin s;
         kind = send_decision current resent s
     in (s', \<lparr>f_kcp = kcp\<lparr>k_xmit := x + (if kind = Resend_lost then 1 else 0),
                k_state := if flush_dead kcp current wnd resent rtomin s then -1 else y\<rparr>,
              f_out = (if sending current resent s
                       then out_put (seg_bytes s') (out_put (ikcp_encode_seg s')
                              (out_room_seg (k_mtu kcp) (s_len s') (f_out st)))
                       else f_out st),
              f_lost = (f_lost st \<or> kind = Resend_lost),
              f_change = f_change st + (if kind = Resend_fast then 1 else 0)\<rparr>))"
proof (cases "send_decision current resent s")
  case No_send
  then show ?thesis
    using assms by (simp add: flush_seg_def Let_def resend_def sending_def send_update_def flush_dead_def)
next
  case First_send
  then show ?thesis
    using assms by (simp add: flush_seg_def Let_def resend_def sending_def send_update_def flush_dead_def)
next
  case Resend_lost
  then show ?thesis
    using assms by (simp add: flush_seg_def Let_def resend_def sending_def send_update_def flush_dead_def)
next
  case Resend_fast
  then show ?thesis
    using assms by (simp add: flush_seg_def Let_def resend_def sending_def send_update_def flush_dead_def)
qed

lemma flush_segs_eq:
  assumes "f_kcp st = kcp\<lparr>k_xmit := x, k_state := y\<rparr>" "out_repr M (f_out st) segs"
    and "unat (k_mtu kcp) = M" "M < 2 ^ 30" "\<forall>s \<in> set buf. unat (s_len s) + 24 \<le> M \<and> seg_ok s"
  shows "\<exists>ob. flush_segs current wnd resent rtomin buf st =
      (map (resend kcp current wnd resent rtomin) buf,
       \<lparr>f_kcp = kcp\<lparr>k_xmit := x + word_of_nat (n_kind current resent Resend_lost buf),
                  k_state := if \<exists>s \<in> set buf. flush_dead kcp current wnd resent rtomin s then -1 else y\<rparr>,
        f_out = ob,
        f_lost = (f_lost st \<or> 0 < n_kind current resent Resend_lost buf),
        f_change = f_change st + n_kind current resent Resend_fast buf\<rparr>) \<and>
    out_repr M ob (segs @ map (resend kcp current wnd resent rtomin) (filter (sending current resent) buf))"
  using assms
proof (induction buf arbitrary: st x y segs)
  case Nil
  then show ?case by (cases st) (auto simp: n_kind_def)
next
  case (Cons s buf)
  let ?s = "resend kcp current wnd resent rtomin s"
  define st' where "st' = snd (flush_seg current wnd resent rtomin s st)"
  note e = flush_seg_eq [OF Cons.prems(1), of current wnd resent rtomin s, unfolded Let_def]
  have 1: "flush_seg current wnd resent rtomin s st = (?s, st')"
    by (simp add: st'_def e)
  let ?kind = "send_decision current resent s"
  have k: "f_kcp st' = kcp\<lparr>k_xmit := x + (if ?kind = Resend_lost then 1 else 0),
      k_state := if flush_dead kcp current wnd resent rtomin s then -1 else y\<rparr>"
    by (simp add: st'_def e)
  have o: "out_repr M (f_out st') (segs @ (if sending current resent s then [?s] else []))"
  proof (cases "sending current resent s")
    case True
    have "unat (s_len ?s) + 24 \<le> M" "seg_ok ?s" using Cons.prems(5) by simp_all
    from out_seg_step [OF Cons.prems(2,3,4) this] True show ?thesis by (simp add: st'_def e del: seg_bytes_ok)
  qed (use Cons.prems(2) in \<open>simp add: st'_def e\<close>)
  have lc: "f_lost st' = (f_lost st \<or> ?kind = Resend_lost)"
    "f_change st' = f_change st + (if ?kind = Resend_fast then 1 else 0)"
    by (simp_all add: st'_def e)
  from Cons.IH [OF k o Cons.prems(3,4)] Cons.prems(5) obtain ob where
    "flush_segs current wnd resent rtomin buf st' =
      (map (resend kcp current wnd resent rtomin) buf,
       \<lparr>f_kcp = kcp\<lparr>k_xmit := x + (if ?kind = Resend_lost then 1 else 0) + word_of_nat (n_kind current resent Resend_lost buf),
                  k_state := if \<exists>s \<in> set buf. flush_dead kcp current wnd resent rtomin s then -1
                    else if flush_dead kcp current wnd resent rtomin s then -1 else y\<rparr>,
        f_out = ob,
        f_lost = (f_lost st' \<or> 0 < n_kind current resent Resend_lost buf),
        f_change = f_change st' + n_kind current resent Resend_fast buf\<rparr>)"
    "out_repr M ob ((segs @ (if sending current resent s then [?s] else [])) @
       map (resend kcp current wnd resent rtomin) (filter (sending current resent) buf))"
    by auto
  then show ?case
    using 1 by (intro exI [of _ ob]) (auto simp: lc n_kind_def)
qed

section \<open>The whole flush\<close>

text \<open>
  \<open>mtu_ok M\<close>: the settings \<^verbatim>\<open>ikcp_setmtu\<close> establishes for an MTU of \<open>M\<close>, and every segment that waits or is
  in flight fits into one datagram.
\<close>

definition mtu_ok :: "nat \<Rightarrow> ikcpcb \<Rightarrow> bool" where
  "mtu_ok M kcp \<longleftrightarrow>
     unat (k_mtu kcp) = M \<and> 50 \<le> M \<and> M < 2 ^ 30 \<and> unat (k_mss kcp) = M - 24 \<and>
     (case k_buffer kcp of None \<Rightarrow> False | Some b \<Rightarrow> M \<le> b) \<and>
     (\<forall>s \<in> set (k_snd_buf kcp) \<union> set (k_snd_queue kcp). unat (s_len s) + 24 \<le> M)"

text \<open>
  The three stages of a flush: the control block when transmission starts, the segments written, and
  the control block at the end.
\<close>

definition flush_moved :: "ikcpcb \<Rightarrow> ikcpcb" where
  "flush_moved kcp =
     snd_move (k_current kcp) (flush_window kcp) (word_of_int (ikcp_wnd_unused kcp)) (heads_kcp kcp)"

definition flush_resend :: "ikcpcb \<Rightarrow> iseg \<Rightarrow> iseg" where
  "flush_resend kcp = resend (flush_moved kcp) (k_current kcp) (word_of_int (ikcp_wnd_unused kcp))
     (flush_resent kcp) (flush_rtomin kcp)"

definition flush_sent :: "ikcpcb \<Rightarrow> iseg list" where
  "flush_sent kcp = head_segs kcp @
     map (flush_resend kcp)
       (filter (sending (k_current kcp) (flush_resent kcp)) (k_snd_buf (flush_moved kcp)))"

definition flush_kcp :: "ikcpcb \<Rightarrow> ikcpcb" where
  "flush_kcp kcp =
     (let k = flush_moved kcp; buf = k_snd_buf k;
          current = k_current kcp; resent = flush_resent kcp;
          lost = n_kind current resent Resend_lost buf;
          fast = n_kind current resent Resend_fast buf
      in flush_cwnd (flush_window kcp) resent (0 < lost) fast
           (k\<lparr>k_xmit := k_xmit k + word_of_nat lost,
              k_state := if \<exists>s \<in> set buf. flush_dead k current (word_of_int (ikcp_wnd_unused kcp)) resent (flush_rtomin kcp) s
                         then -1 else k_state k,
              k_snd_buf := map (flush_resend kcp) buf\<rparr>))"

lemma heads_kcp_frame:
  obtains a b c d where "heads_kcp kcp =
    kcp\<lparr>k_ackcount := 0, k_probe_wait := a, k_ts_probe := b, k_probe := c\<rparr>"
proof -
  let ?k = "kcp\<lparr>k_ackcount := 0\<rparr>"
  show thesis
    by (rule that [where a = "k_probe_wait (probe_timer ?k)" and b = "k_ts_probe (probe_timer ?k)" and c = 0], unfold heads_kcp_def)
      (subst probe_timer_frame, simp)
qed

lemma heads_inv:
  assumes "kcp_ok kcp"
  shows "kcp_ok (heads_kcp kcp)"
  by (rule heads_kcp_frame [of kcp])
    (use assms in \<open>auto simp: kcp_ok_def snd_side rcv_inv_def rto_ok_def ack_inv_def
      cong: list.case_cong option.case_cong\<close>)

lemma heads_window: "flush_window (heads_kcp kcp) = flush_window kcp"
  by (rule heads_kcp_frame [of kcp]) (simp add: flush_window_def Let_def)

lemma flush_window_le:
  "unat (flush_window kcp) \<le> unat (k_rmt_wnd kcp) \<and> unat (flush_window kcp) \<le> unat (k_snd_wnd kcp) \<and>
   (k_nocwnd kcp = 0 \<longrightarrow> unat (flush_window kcp) \<le> unat (k_cwnd kcp))"
  by (auto simp: flush_window_def Let_def unat_imin min_def)

lemma kcp_ok_window: "kcp_ok kcp \<Longrightarrow> unat (flush_window kcp) \<le> 65535"
  using flush_window_le [of kcp] snd_winD(4) [of kcp] by (simp add: kcp_ok_def snd_inv_def)

lemma heads_queues:
  "k_snd_buf (heads_kcp kcp) = k_snd_buf kcp" "k_snd_queue (heads_kcp kcp) = k_snd_queue kcp"
  "k_snd_una (heads_kcp kcp) = k_snd_una kcp" "k_snd_nxt (heads_kcp kcp) = k_snd_nxt kcp"
  "k_conv (heads_kcp kcp) = k_conv kcp" "k_mtu (heads_kcp kcp) = k_mtu kcp"
  by (rule heads_kcp_frame [of kcp], simp)+

lemma flush_moved_eq:
  assumes "kcp_ok kcp"
  shows "flush_moved kcp = (heads_kcp kcp)\<lparr>
    k_snd_queue := drop (moved (flush_window kcp) kcp) (k_snd_queue kcp),
    k_snd_buf := k_snd_buf kcp @ stamp_all (heads_kcp kcp) (k_current kcp) (word_of_int (ikcp_wnd_unused kcp))
      (k_snd_nxt kcp) (take (moved (flush_window kcp) kcp) (k_snd_queue kcp)),
    k_nsnd_que := k_nsnd_que (heads_kcp kcp) - word_of_nat (moved (flush_window kcp) kcp),
    k_nsnd_buf := k_nsnd_buf (heads_kcp kcp) + word_of_nat (moved (flush_window kcp) kcp),
    k_snd_nxt := k_snd_nxt kcp + word_of_nat (moved (flush_window kcp) kcp)\<rparr>"
proof -
  have "snd_win (heads_kcp kcp)" using heads_inv [OF assms] by (simp add: kcp_ok_def snd_inv_def)
  from snd_move_eq [OF this kcp_ok_window [OF assms]] show ?thesis
    by (simp add: flush_moved_def moved_def heads_queues)
qed

lemma flush_moved_inv: "kcp_ok kcp \<Longrightarrow> snd_inv (flush_moved kcp)"
  unfolding flush_moved_def using heads_inv [of kcp] kcp_ok_window [of kcp]
  by (intro snd_move_win) (simp_all add: kcp_ok_def)

lemma flush_moved_segs:
  assumes "kcp_ok kcp" "s \<in> set (k_snd_buf (flush_moved kcp))"
  shows "\<exists>t \<in> set (k_snd_buf kcp) \<union> set (k_snd_queue kcp). s_len s = s_len t \<and> s_data s = s_data t \<and> s_frg s = s_frg t"
proof -
  let ?q = "take (moved (flush_window kcp) kcp) (k_snd_queue kcp)"
  let ?new = "stamp_all (heads_kcp kcp) (k_current kcp) (word_of_int (ikcp_wnd_unused kcp)) (k_snd_nxt kcp) ?q"
  from assms(2) consider "s \<in> set (k_snd_buf kcp)" | "s \<in> set ?new"
    by (auto simp: flush_moved_eq [OF assms(1)])
  then show ?thesis
  proof cases
    case 2
    then obtain i where i: "i < length ?q" "s = stamp (heads_kcp kcp) (k_current kcp)
        (word_of_int (ikcp_wnd_unused kcp)) (k_snd_nxt kcp + word_of_nat i) (?q ! i)"
      using stamp_all_mem by blast
    have "?q ! i \<in> set (k_snd_queue kcp)" using in_set_takeD [OF nth_mem [OF i(1)]] by simp
    then show ?thesis using i(2) by (intro bexI [of _ "?q ! i"]) auto
  qed blast
qed

theorem flush_eq:
  assumes ok: "kcp_ok kcp" and mtu: "mtu_ok M kcp" and up: "k_updated kcp \<noteq> 0"
    and n: "unat (k_ackcount kcp) < 2 ^ 31"
  obtains gss where "ikcp_flush kcp = (flush_kcp kcp, map dgram gss)" "concat gss = flush_sent kcp"
    "\<forall>g \<in> set gss. g \<noteq> [] \<and> length (dgram g) \<le> M"
proof -
  let ?wnd = "word_of_int (ikcp_wnd_unused kcp)" and ?k = "flush_moved kcp"
  have M: "unat (k_mtu kcp) = M" "24 \<le> M" "M < 2 ^ 30" using mtu by (auto simp: mtu_ok_def)
  obtain ob where h: "flush_heads kcp = (heads_kcp kcp, ob)" "out_repr M ob (head_segs kcp)"
    using flush_heads_eq [OF M n] .
  have km: "unat (k_mtu ?k) = M" using M(1) by (simp add: flush_moved_eq [OF ok] heads_queues)
  have r: "flush_resent ?k = flush_resent kcp" "flush_rtomin ?k = flush_rtomin kcp"
    unfolding flush_moved_eq [OF ok]
    by (rule heads_kcp_frame [of kcp], simp add: flush_resent_def flush_rtomin_def)+
  have segs: "\<forall>s \<in> set (k_snd_buf ?k). unat (s_len s) + 24 \<le> M \<and> seg_ok s"
    using flush_moved_segs [OF ok] mtu snd_winD(7) [of kcp] ok
    by (fastforce simp: mtu_ok_def kcp_ok_def snd_inv_def seg_frg_ok_def seg_ok_def)
  have f: "f_kcp \<lparr>f_kcp = ?k, f_out = ob, f_lost = False, f_change = 0\<rparr> =
      ?k\<lparr>k_xmit := k_xmit ?k, k_state := k_state ?k\<rparr>" by simp
  have o: "out_repr M (f_out \<lparr>f_kcp = ?k, f_out = ob, f_lost = False, f_change = 0\<rparr>) (head_segs kcp)"
    using h(2) by simp
  obtain ob' where st: "flush_segs (k_current kcp) ?wnd (flush_resent kcp) (flush_rtomin kcp) (k_snd_buf ?k)
      \<lparr>f_kcp = ?k, f_out = ob, f_lost = False, f_change = 0\<rparr> =
      (map (flush_resend kcp) (k_snd_buf ?k),
       \<lparr>f_kcp = ?k\<lparr>k_xmit := k_xmit ?k + word_of_nat (n_kind (k_current kcp) (flush_resent kcp) Resend_lost (k_snd_buf ?k)),
          k_state := if \<exists>s \<in> set (k_snd_buf ?k). flush_dead ?k (k_current kcp) ?wnd (flush_resent kcp) (flush_rtomin kcp) s
                     then -1 else k_state ?k\<rparr>,
        f_out = ob',
        f_lost = (False \<or> 0 < n_kind (k_current kcp) (flush_resent kcp) Resend_lost (k_snd_buf ?k)),
        f_change = 0 + n_kind (k_current kcp) (flush_resent kcp) Resend_fast (k_snd_buf ?k)\<rparr>)"
    "out_repr M ob' (flush_sent kcp)"
    using flush_segs_eq [OF f o km M(3) segs, of "k_current kcp" ?wnd "flush_resent kcp" "flush_rtomin kcp"]
    unfolding flush_resend_def [symmetric] flush_sent_def flush_state.simps by blast
  obtain gss where g: "ikcp_output (o_sent ob') (o_ptr ob') = map dgram gss" "concat gss = flush_sent kcp"
    "\<forall>g \<in> set gss. g \<noteq> [] \<and> length (dgram g) \<le> M"
    by (rule out_repr_sent [OF st(2)])
  have mv: "snd_move (k_current kcp) (flush_window kcp) ?wnd (heads_kcp kcp) = ?k"
    by (simp add: flush_moved_def)
  have "ikcp_flush kcp = (flush_kcp kcp, map dgram gss)"
    unfolding ikcp_flush_def if_not_P [OF up] Let_def h(1) prod.case mv r st(1) flush_state.simps g(1)
      heads_window flush_kcp_def
    by simp
  then show thesis using g(2,3) by (rule that)
qed

section \<open>What the flush keeps\<close>

lemma flush_cwnd_frame [kcp_frame]:
  "flush_cwnd w r l n kcp = kcp\<lparr>k_ssthresh := k_ssthresh (flush_cwnd w r l n kcp),
     k_cwnd := k_cwnd (flush_cwnd w r l n kcp), k_incr := k_incr (flush_cwnd w r l n kcp)\<rparr>"
  by (simp add: flush_cwnd_def Let_def)

lemma one_le_32: "(1 :: u32) \<le> x \<longleftrightarrow> x \<noteq> 0"
  by (metis not_less word_less_1)

lemma flush_cwnd_bounds:
  "1 \<le> k_cwnd (flush_cwnd w r l n kcp)"
  "l \<or> n \<noteq> 0 \<Longrightarrow> IKCP_THRESH_MIN \<le> k_ssthresh (flush_cwnd w r l n kcp)"
  "l \<Longrightarrow> k_cwnd (flush_cwnd w r l n kcp) = 1"
  "\<not> l \<Longrightarrow> n = 0 \<Longrightarrow> k_ssthresh (flush_cwnd w r l n kcp) = k_ssthresh kcp \<and>
     k_cwnd (flush_cwnd w r l n kcp) = (if k_cwnd kcp = 0 then 1 else k_cwnd kcp)"
  by (auto simp: flush_cwnd_def Let_def one_le_32 not_less IKCP_THRESH_MIN_def)

lemma flush_kcp_shape:
  obtains f g h i j where "flush_kcp kcp = (flush_moved kcp)\<lparr>
    k_snd_buf := map (flush_resend kcp) (k_snd_buf (flush_moved kcp)),
    k_xmit := f, k_state := g, k_ssthresh := h, k_cwnd := i, k_incr := j\<rparr>"
proof -
  obtain w r l n x y where 1: "flush_kcp kcp = flush_cwnd w r l n ((flush_moved kcp)\<lparr>k_xmit := x, k_state := y,
      k_snd_buf := map (flush_resend kcp) (k_snd_buf (flush_moved kcp))\<rparr>)"
    unfolding flush_kcp_def Let_def by blast
  have "\<exists>h i j. flush_cwnd w r l n k = k\<lparr>k_ssthresh := h, k_cwnd := i, k_incr := j\<rparr>" for k
    using flush_cwnd_frame by blast
  then obtain h i j where 2: "flush_kcp kcp = (flush_moved kcp)\<lparr>k_xmit := x, k_state := y,
      k_snd_buf := map (flush_resend kcp) (k_snd_buf (flush_moved kcp)),
      k_ssthresh := h, k_cwnd := i, k_incr := j\<rparr>"
    unfolding 1 by blast
  show thesis
    by (rule that [where f = x and g = y and h = h and i = i and j = j]) (simp add: 2)
qed

text \<open>Every field outside the sending side is as before the flush.\<close>

lemma flush_kcp_frame:
  assumes "kcp_ok kcp"
  obtains a b c d e f g h i j where "flush_kcp kcp =
    kcp\<lparr>k_ackcount := 0, k_probe_wait := a, k_ts_probe := b, k_probe := c,
        k_snd_queue := drop (moved (flush_window kcp) kcp) (k_snd_queue kcp),
        k_snd_buf := map (flush_resend kcp) (k_snd_buf (flush_moved kcp)),
        k_nsnd_que := d, k_nsnd_buf := e,
        k_snd_nxt := k_snd_nxt kcp + word_of_nat (moved (flush_window kcp) kcp),
        k_xmit := f, k_state := g, k_ssthresh := h, k_cwnd := i, k_incr := j\<rparr>"
proof (rule heads_kcp_frame [of kcp], rule flush_kcp_shape [of kcp])
  fix a b c f g h i j
  assume h: "heads_kcp kcp = kcp\<lparr>k_ackcount := 0, k_probe_wait := a, k_ts_probe := b, k_probe := c\<rparr>"
    and s: "flush_kcp kcp = (flush_moved kcp)\<lparr>
      k_snd_buf := map (flush_resend kcp) (k_snd_buf (flush_moved kcp)),
      k_xmit := f, k_state := g, k_ssthresh := h, k_cwnd := i, k_incr := j\<rparr>"
  have "flush_kcp kcp = kcp\<lparr>k_ackcount := 0, k_probe_wait := a, k_ts_probe := b, k_probe := c,
        k_snd_queue := k_snd_queue (flush_moved kcp),
        k_snd_buf := map (flush_resend kcp) (k_snd_buf (flush_moved kcp)),
        k_nsnd_que := k_nsnd_que (flush_moved kcp), k_nsnd_buf := k_nsnd_buf (flush_moved kcp),
        k_snd_nxt := k_snd_nxt (flush_moved kcp),
        k_xmit := f, k_state := g, k_ssthresh := h, k_cwnd := i, k_incr := j\<rparr>"
    unfolding s by (subst (1) flush_moved_eq [OF assms], unfold h) (simp add: flush_moved_eq [OF assms] h)
  moreover have "k_snd_queue (flush_moved kcp) = drop (moved (flush_window kcp) kcp) (k_snd_queue kcp)"
    "k_snd_nxt (flush_moved kcp) = k_snd_nxt kcp + word_of_nat (moved (flush_window kcp) kcp)"
    by (simp_all add: flush_moved_eq [OF assms])
  ultimately show thesis using that by metis
qed

lemma snd_inv_map:
  assumes "snd_inv kcp" "\<And>s. s_sn (f s) = s_sn s" "\<And>s. seg_frg_ok (f s) = seg_frg_ok s"
    "\<And>s. s_conv (f s) = s_conv s" "\<And>s. s_cmd (f s) = s_cmd s"
  shows "snd_inv (kcp\<lparr>k_snd_buf := map f (k_snd_buf kcp)\<rparr>)"
proof -
  have "snd_win (kcp\<lparr>k_snd_buf := map f (k_snd_buf kcp)\<rparr>)"
    using assms by (auto simp: snd_inv_def snd_win_def ordered_map)
  moreover have "snd_head (kcp\<lparr>k_snd_buf := map f (k_snd_buf kcp)\<rparr>)"
    using assms(1,2) by (auto simp: snd_inv_def snd_head_def split: list.splits)
  ultimately show ?thesis by (simp add: snd_inv_def)
qed

lemma snd_inv_rest:
  "snd_inv (kcp\<lparr>k_xmit := f, k_state := g, k_ssthresh := h, k_cwnd := i, k_incr := j\<rparr>) = snd_inv kcp"
  by (simp add: snd_side cong: list.case_cong)

lemma flush_kcp_ok [kcp_inv]:
  assumes "kcp_ok kcp"
  shows "kcp_ok (flush_kcp kcp)"
proof -
  let ?k = "flush_moved kcp"
  have 1: "snd_inv (?k\<lparr>k_snd_buf := map (flush_resend kcp) (k_snd_buf ?k)\<rparr>)"
    by (rule snd_inv_map [OF flush_moved_inv [OF assms]]) (simp_all add: flush_resend_def)
  have 2: "snd_inv (flush_kcp kcp)"
    by (rule flush_kcp_shape [of kcp]) (simp only: snd_inv_rest 1)
  have 3: "rcv_inv (flush_kcp kcp)"
    by (rule flush_kcp_frame [OF assms]) (use assms in \<open>simp add: kcp_ok_def rcv_inv_def\<close>)
  have 4: "rto_ok (flush_kcp kcp)"
    by (rule flush_kcp_frame [OF assms]) (use assms in \<open>simp add: kcp_ok_def rto_ok_def\<close>)
  have "ack_inv (flush_kcp kcp)"
    by (rule flush_kcp_frame [OF assms])
      (use assms in \<open>simp add: kcp_ok_def ack_inv_def cong: option.case_cong\<close>)
  with 2 3 4 show ?thesis by (simp add: kcp_ok_def)
qed

lemma flush_kcp_mtu [kcp_inv]:
  assumes "kcp_ok kcp" "mtu_ok M kcp"
  shows "mtu_ok M (flush_kcp kcp)"
proof -
  have "unat (s_len s) + 24 \<le> M" if "s \<in> set (k_snd_buf (flush_moved kcp))" for s
    using flush_moved_segs [OF assms(1) that] assms(2) by (auto simp: mtu_ok_def)
  note segs = this
  show ?thesis
    by (rule flush_kcp_frame [OF assms(1)])
      (use assms(2) segs in \<open>auto simp: mtu_ok_def flush_resend_def dest: in_set_dropD\<close>)
qed

lemma flush_kcp_rcv [simp]:
  assumes "kcp_ok kcp"
  shows "rcv_stream P N (flush_kcp kcp) = rcv_stream P N kcp"
    and "k_rcv_queue (flush_kcp kcp) = k_rcv_queue kcp"
    and "k_ackcount (flush_kcp kcp) = 0"
    and "k_conv (flush_kcp kcp) = k_conv kcp"
  by (rule flush_kcp_frame [OF assms], simp add: rcv_stream_def)+

lemma flush_kcp_window:
  assumes "kcp_ok kcp"
  shows "woff (k_snd_una kcp) (k_snd_nxt (flush_kcp kcp)) \<le>
      max (woff (k_snd_una kcp) (k_snd_nxt kcp)) (unat (flush_window kcp))"
    and "k_snd_una (flush_kcp kcp) = k_snd_una kcp"
proof -
  have i: "snd_inv (heads_kcp kcp)" using heads_inv [OF assms] by (simp add: kcp_ok_def)
  have n: "k_snd_nxt (flush_kcp kcp) = k_snd_nxt (flush_moved kcp)"
    by (rule flush_kcp_shape [of kcp]) simp
  show "woff (k_snd_una kcp) (k_snd_nxt (flush_kcp kcp)) \<le>
      max (woff (k_snd_una kcp) (k_snd_nxt kcp)) (unat (flush_window kcp))"
    unfolding n flush_moved_def
    using snd_move_win(2) [OF i kcp_ok_window [OF assms]] by (simp add: heads_queues)
  show "k_snd_una (flush_kcp kcp) = k_snd_una kcp"
    by (rule flush_kcp_frame [OF assms]) simp
qed

text \<open>The three counters a datagram carries: every segment written says how much room is left.\<close>

lemma flush_sent_wire:
  assumes "kcp_ok kcp" "s \<in> set (flush_sent kcp)"
  shows "wire_ok (k_conv kcp) s"
proof -
  have h: "wire_ok (k_conv kcp) (ack_seg kcp a)" for a
    by (simp add: wire_ok_def ack_seg_def flush_hdr_def split_beta seg_frg_ok_def seg_ok_def)
  have p: "wire_ok (k_conv kcp) ((probe_hdr kcp)\<lparr>s_cmd := c\<rparr>)" if "c \<in> {IKCP_CMD_WASK, IKCP_CMD_WINS}" for c
    using that by (auto simp: wire_ok_def probe_hdr_def ack_seg_def flush_hdr_def split_beta seg_frg_ok_def seg_ok_def)
  have c: "k_conv (flush_moved kcp) = k_conv kcp"
    by (simp add: flush_moved_eq [OF assms(1)] heads_queues)
  have m: "wire_ok (k_conv kcp) (flush_resend kcp t)" if "t \<in> set (k_snd_buf (flush_moved kcp))" for t
    using flush_moved_inv [OF assms(1)] snd_winD(7,8) [of "flush_moved kcp"] that c
    by (auto simp: wire_ok_def flush_resend_def snd_inv_def)
  show ?thesis
    using assms(2) h p m by (auto simp: flush_sent_def head_segs_def probe_segs_def Let_def split: if_splits)
qed

lemma mtu_ok_room: "mtu_ok M kcp \<Longrightarrow> M = unat (k_mtu kcp) \<and> M \<le> the (k_buffer kcp)"
  unfolding mtu_ok_def by (cases "k_buffer kcp") auto

end
