(* ===== verification/Ikcp_Update.thy ===== *)
theory Ikcp_Update
  imports Ikcp_Flush
begin

text \<open>
  The clock: \<^verbatim>\<open>ikcp_update\<close> (1105 to 1131), which flushes every \<^verbatim>\<open>interval\<close> milliseconds, and
  \<^verbatim>\<open>ikcp_check\<close> (1143 to 1181), which says when to call it next.
\<close>

section \<open>Operations\<close>

text \<open>The bookkeeping of \<^verbatim>\<open>ikcp_update\<close> before the flush; the flag says whether it flushes.\<close>

definition update_clock :: "ikcpcb \<Rightarrow> u32 \<Rightarrow> ikcpcb \<times> bool" where
  "update_clock kcp current =
     (let kcp = kcp\<lparr>k_current := current\<rparr>;
          kcp = (if k_updated kcp = 0
                 then kcp\<lparr>k_updated := 1, k_ts_flush := k_current kcp\<rparr> else kcp);
          slap = itimediff (k_current kcp) (k_ts_flush kcp);
          (kcp, slap) = (if slap \<ge> 10000 \<or> slap < -10000
                         then (kcp\<lparr>k_ts_flush := k_current kcp\<rparr>, 0) else (kcp, slap))
      in if slap \<ge> 0 then
           let kcp = kcp\<lparr>k_ts_flush := k_ts_flush kcp + k_interval kcp\<rparr>;
               kcp = (if itimediff (k_current kcp) (k_ts_flush kcp) \<ge> 0
                      then kcp\<lparr>k_ts_flush := k_current kcp + k_interval kcp\<rparr> else kcp)
           in (kcp, True)
         else (kcp, False))"

definition ikcp_update :: "ikcpcb \<Rightarrow> u32 \<Rightarrow> ikcpcb \<times> u8 list list" where
  "ikcp_update kcp current =
     (let (kcp, flush) = update_clock kcp current
      in if flush then ikcp_flush kcp else (kcp, []))"

text \<open>
  The loop of \<^verbatim>\<open>ikcp_check\<close> over \<^verbatim>\<open>snd_buf\<close>: \<open>None\<close> is the early return (a segment is due),
  \<open>Some\<close> the least time to the next resend.
\<close>

fun check_packets :: "u32 \<Rightarrow> iseg list \<Rightarrow> int \<Rightarrow> int option" where
  "check_packets current [] tm_packet = Some tm_packet"
| "check_packets current (seg # p) tm_packet =
     (let diff = itimediff (s_resendts seg) current
      in if diff \<le> 0 then None
         else check_packets current p (if diff < tm_packet then diff else tm_packet))"

definition ikcp_check :: "ikcpcb \<Rightarrow> u32 \<Rightarrow> u32" where
  "ikcp_check kcp current =
     (if k_updated kcp = 0 then current
      else
        let ts_flush = k_ts_flush kcp;
            ts_flush = (if itimediff current ts_flush \<ge> 10000 \<or> itimediff current ts_flush < -10000
                        then current else ts_flush)
        in if itimediff current ts_flush \<ge> 0 then current
           else
             let tm_flush = itimediff ts_flush current
             in case check_packets current (k_snd_buf kcp) 0x7fffffff of
                  None \<Rightarrow> current
                | Some tm_packet \<Rightarrow>
                    let minimal = word_of_int (if tm_packet < tm_flush then tm_packet else tm_flush);
                        minimal = (if minimal \<ge> k_interval kcp then k_interval kcp else minimal)
                    in current + minimal)"

section \<open>The schedule\<close>

text \<open>The time to the next flush that \<^verbatim>\<open>ikcp_update\<close> and \<^verbatim>\<open>ikcp_check\<close> both compute first.\<close>

definition flush_slap :: "ikcpcb \<Rightarrow> u32 \<Rightarrow> int" where
  "flush_slap kcp current =
     (let slap = itimediff current (k_ts_flush kcp)
      in if slap \<ge> 10000 \<or> slap < -10000 then 0 else slap)"

definition settings_ok :: "ikcpcb \<Rightarrow> bool" where
  "settings_ok kcp \<longleftrightarrow> 10 \<le> unat (k_interval kcp) \<and> unat (k_interval kcp) \<le> 5000"

lemma update_clock_frame [kcp_frame]:
  "fst (update_clock kcp current) = kcp\<lparr>k_current := current,
     k_updated := k_updated (fst (update_clock kcp current)),
     k_ts_flush := k_ts_flush (fst (update_clock kcp current))\<rparr>"
  by (simp add: update_clock_def Let_def split_beta)

lemma update_clock_updated: "k_updated (fst (update_clock kcp current)) \<noteq> 0"
  by (simp add: update_clock_def Let_def split_beta)

lemma update_clock_flush:
  "k_updated kcp \<noteq> 0 \<Longrightarrow> snd (update_clock kcp current) \<longleftrightarrow> 0 \<le> flush_slap kcp current"
  "k_updated kcp = 0 \<Longrightarrow> snd (update_clock kcp current)"
  by (auto simp: update_clock_def flush_slap_def Let_def split_beta)

lemma itimediff_plus: "unat d < 2 ^ 31 \<Longrightarrow> itimediff (t + d) t = int (unat d)"
  by (subst itimediff_eq) simp_all

lemma i32_id_num: "- 2147483648 \<le> x \<Longrightarrow> x < 2147483648 \<Longrightarrow> i32 x = x"
  by (rule i32_id) simp_all

lemma sint_arith_32:
  "sint ((x :: u32) - y) = i32 (sint x - sint y)" "sint (x + y) = i32 (sint x + sint y)"
  "sint (- x) = i32 (- sint x)"
  by (simp_all add: i32_def sint_word_ariths)

lemma itimediff_shift:
  assumes "- 1073741824 \<le> itimediff a b" "itimediff a b < 1073741824" "unat d \<le> 1073741824"
  shows "itimediff a (b + d) = itimediff a b - int (unat d)"
    and "itimediff (a + d) b = itimediff a b + int (unat d)"
proof -
  have s: "sint d = int (unat d)" using assms(3) by (simp only: sint_32) simp
  have d: "0 \<le> sint d" "sint d \<le> 1073741824" unfolding s using assms(3) by linarith+
  have e: "a - (b + d) = (a - b) - d" "a + d - b = (a - b) + d" by simp_all
  show "itimediff a (b + d) = itimediff a b - int (unat d)"
    unfolding s [symmetric] itimediff_def e sint_arith_32(1) [of "a - b" d]
    by (rule i32_id_num) (use assms d in \<open>unfold itimediff_def, linarith+\<close>)
  show "itimediff (a + d) b = itimediff a b + int (unat d)"
    unfolding s [symmetric] itimediff_def e sint_arith_32(2) [of "a - b" d]
    by (rule i32_id_num) (use assms d in \<open>unfold itimediff_def, linarith+\<close>)
qed

lemma itimediff_swap: "itimediff a b \<noteq> - (2 ^ 31) \<Longrightarrow> itimediff b a = - itimediff a b"
proof -
  assume n: "itimediff a b \<noteq> - (2 ^ 31)"
  have e: "b - a = - (a - b)" by simp
  have "- (2 ^ 31) \<le> sint (a - b)" "sint (a - b) < 2 ^ 31"
    using sint_greater_eq [of "a - b"] sint_less [of "a - b"] by simp_all
  then show ?thesis
    using n unfolding itimediff_def e sint_arith_32 by (intro i32_id) auto
qed

lemma update_next_flush:
  assumes "settings_ok kcp" "update_clock kcp current = (kcp', True)"
  shows "0 < itimediff (k_ts_flush kcp') current \<and>
    itimediff (k_ts_flush kcp') current \<le> int (unat (k_interval kcp))"
proof -
  let ?i = "k_interval kcp"
  have i: "10 \<le> unat ?i" "unat ?i \<le> 5000" using assms(1) by (auto simp: settings_ok_def)
  define t where "t = (if k_updated kcp = 0 then current else k_ts_flush kcp)"
  define t1 where "t1 = (if itimediff current t \<ge> 10000 \<or> itimediff current t < -10000 then current else t)"
  have s: "0 \<le> itimediff current t1" "itimediff current t1 < 10000"
    using assms(2) by (auto simp: update_clock_def Let_def t_def t1_def split_beta split: if_splits)
  have k: "k_ts_flush kcp' = (if itimediff current (t1 + ?i) \<ge> 0 then current + ?i else t1 + ?i)"
    using assms(2) by (auto simp: update_clock_def Let_def t_def t1_def split_beta split: if_splits)
  have d: "itimediff current (t1 + ?i) = itimediff current t1 - int (unat ?i)"
    using s i by (intro itimediff_shift) auto
  show ?thesis
  proof (cases "itimediff current (t1 + ?i) \<ge> 0")
    case True
    then show ?thesis using k i itimediff_plus [of ?i current] by (simp del: of_nat_unat)
  next
    case False
    have "- 2147483648 < itimediff current (t1 + ?i)" using d s i by linarith
    then have "itimediff (t1 + ?i) current = - itimediff current (t1 + ?i)"
      by (intro itimediff_swap) simp
    then show ?thesis using False k d s by auto
  qed
qed


section \<open>The promise of \<^verbatim>\<open>ikcp_check\<close>\<close>

lemma check_packets_props:
  assumes "check_packets current p tm = Some m" "0 < tm"
  shows "0 < m \<and> m \<le> tm \<and> (\<forall>s \<in> set p. m \<le> itimediff (s_resendts s) current) \<and>
    (m = tm \<or> (\<exists>s \<in> set p. m = itimediff (s_resendts s) current))"
  using assms
proof (induction p arbitrary: tm)
  case (Cons s p)
  let ?d = "itimediff (s_resendts s) current"
  have d: "0 < ?d" and r: "check_packets current p (min ?d tm) = Some m"
    using Cons.prems(1) by (auto simp: Let_def min_def split: if_splits)
  have "0 < min ?d tm" using d Cons.prems(2) by simp
  from Cons.IH [OF r this] show ?case by auto
qed simp

lemma check_packets_None:
  "check_packets current p tm = None \<longleftrightarrow> (\<exists>s \<in> set p. itimediff (s_resendts s) current \<le> 0)"
  by (induction p arbitrary: tm) (auto simp: Let_def)

definition packet_due :: "ikcpcb \<Rightarrow> u32 \<Rightarrow> bool" where
  "packet_due kcp current \<longleftrightarrow> (\<exists>s \<in> set (k_snd_buf kcp). itimediff (s_resendts s) current \<le> 0)"

text \<open>
  The delay \<^verbatim>\<open>ikcp_check\<close> returns: nothing when a flush or a segment is due, otherwise the least of the
  interval, the time to the flush and the times to the resends.
\<close>

lemma ikcp_check_due:
  "k_updated kcp = 0 \<or> 0 \<le> flush_slap kcp current \<or> packet_due kcp current \<Longrightarrow>
   ikcp_check kcp current = current"
  using check_packets_None [of current "k_snd_buf kcp" "0x7fffffff"]
  by (cases "check_packets current (k_snd_buf kcp) 0x7fffffff")
    (auto simp: ikcp_check_def flush_slap_def Let_def packet_due_def)

lemma ikcp_check_wait:
  assumes up: "k_updated kcp \<noteq> 0" and f: "flush_slap kcp current < 0"
    and p: "\<not> packet_due kcp current" and i: "settings_ok kcp"
  obtains d where "ikcp_check kcp current = current + d" "0 < unat d"
    "unat d \<le> unat (k_interval kcp)"
    "int (unat d) \<le> - flush_slap kcp current"
    "\<forall>s \<in> set (k_snd_buf kcp). int (unat d) \<le> itimediff (s_resendts s) current"
proof -
  let ?s = "itimediff current (k_ts_flush kcp)"
  have s: "flush_slap kcp current = ?s" "- 10000 \<le> ?s" "?s < 0"
    using f by (auto simp: flush_slap_def Let_def split: if_splits)
  have t: "itimediff (k_ts_flush kcp) current = - ?s" using s by (intro itimediff_swap) simp
  obtain m where m: "check_packets current (k_snd_buf kcp) 0x7fffffff = Some m"
    using p check_packets_None by (auto simp: packet_due_def not_le) (metis not_le option.exhaust)
  note mp = check_packets_props [OF m]
  let ?m = "if m < - ?s then m else - ?s"
  have pos: "0 < ?m" "?m \<le> 10000" using mp s by auto
  let ?w = "word_of_int ?m :: u32"
  let ?d = "if ?w \<ge> k_interval kcp then k_interval kcp else ?w"
  have u: "int (unat ?w) = ?m" using pos by (simp add: unat_word_of_int_32)
  have c: "ikcp_check kcp current = current + ?d"
    using up s m t by (simp add: ikcp_check_def Let_def)
  have le: "unat ?d \<le> unat (k_interval kcp)" "unat ?d \<le> unat ?w"
    by (simp_all add: word_le_nat_alt)
  have "0 < unat ?w" using pos u by linarith
  then have "0 < unat ?d" using i by (simp add: settings_ok_def)
  moreover have "?m \<le> - ?s" "?m \<le> m" by simp_all
  then have "int (unat ?d) \<le> - ?s" "int (unat ?d) \<le> m" using le(2) u by linarith+
  ultimately show thesis using c le(1) mp s(1) by (intro that [of ?d]) auto
qed

lemma no_flush_before:
  assumes up: "k_updated kcp \<noteq> 0" and f: "flush_slap kcp current < 0"
    and d: "int (unat d) < - flush_slap kcp current"
  shows "\<not> snd (update_clock kcp (current + d))"
proof -
  let ?s = "itimediff current (k_ts_flush kcp)"
  have s: "flush_slap kcp current = ?s" "- 10000 \<le> ?s" "?s < 0"
    using f by (auto simp: flush_slap_def Let_def split: if_splits)
  have "unat d \<le> 1073741824" using d s by linarith
  then have "itimediff (current + d) (k_ts_flush kcp) = ?s + int (unat d)"
    using s by (intro itimediff_shift) auto
  then have "flush_slap kcp (current + d) < 0"
    unfolding flush_slap_def Let_def using d s by (simp del: of_nat_unat)
  then show ?thesis using update_clock_flush(1) [OF up] by simp
qed

end
