(* ===== verification/Endpoint.thy ===== *)
theory Endpoint
  imports Ikcp_Update
begin

text \<open>
  Two endpoints and the network between them: the contract of the whole protocol. The sender's
  stream and the receiver's stream of the component theories meet here, first as fragments and then
  as messages: what \<^verbatim>\<open>ikcp_recv\<close> has returned on one side is an initial part of the messages
  \<^verbatim>\<open>ikcp_send\<close> has accepted on the other, whatever the network loses, duplicates or reorders.
\<close>

section \<open>What input leaves of the sending side\<close>

text \<open>
  \<open>snd_sub k' k\<close>: the queue, the next number and the settings are the same, and every segment in flight
  in \<open>k'\<close> is one of \<open>k\<close> up to its counters.
\<close>

definition snd_sub :: "ikcpcb \<Rightarrow> ikcpcb \<Rightarrow> bool" where
  "snd_sub k' k \<longleftrightarrow>
     k_snd_queue k' = k_snd_queue k \<and> k_snd_nxt k' = k_snd_nxt k \<and> k_conv k' = k_conv k \<and>
     k_mtu k' = k_mtu k \<and> k_mss k' = k_mss k \<and> k_buffer k' = k_buffer k \<and>
     k_interval k' = k_interval k \<and>
     (\<forall>s \<in> set (k_snd_buf k'). \<exists>t \<in> set (k_snd_buf k).
        s_sn s = s_sn t \<and> s_len s = s_len t \<and> payload s = payload t)"

lemma snd_sub_refl [simp]: "snd_sub k k"
  by (auto simp: snd_sub_def)

lemma snd_sub_trans [trans]: "snd_sub a b \<Longrightarrow> snd_sub b c \<Longrightarrow> snd_sub a c"
  unfolding snd_sub_def by (metis (no_types, lifting))

lemma snd_sub_same:
  "k_snd_queue k' = k_snd_queue k \<Longrightarrow> k_snd_nxt k' = k_snd_nxt k \<Longrightarrow> k_conv k' = k_conv k \<Longrightarrow>
   k_mtu k' = k_mtu k \<Longrightarrow> k_mss k' = k_mss k \<Longrightarrow> k_buffer k' = k_buffer k \<Longrightarrow>
   k_interval k' = k_interval k \<Longrightarrow> k_snd_buf k' = k_snd_buf k \<Longrightarrow> snd_sub k' k"
  by (auto simp: snd_sub_def)

lemma snd_sub_ops:
  "snd_sub (ikcp_parse_data k s) k" "snd_sub (ikcp_ack_push mem k sn ts) k"
  "snd_sub (ikcp_update_ack k rtt) k" "snd_sub (ikcp_shrink_buf k) k"
  "snd_sub (grow_cwnd k) k" "snd_sub (rcv_move k) k" "snd_sub (recv_take b k) k"
  "snd_sub (recv_tell b k) k" "snd_sub (fst (update_clock k t)) k"
  "snd_sub (k\<lparr>k_rmt_wnd := w\<rparr>) k" "snd_sub (k\<lparr>k_probe := p\<rparr>) k"
proof -
  show "snd_sub (ikcp_parse_data k s) k" by (subst parse_data_frame) (simp add: snd_sub_same)
  show "snd_sub (ikcp_ack_push mem k sn ts) k" by (subst ack_push_frame) (simp add: snd_sub_same)
  show "snd_sub (ikcp_update_ack k rtt) k" by (subst update_ack_frame) (simp add: snd_sub_same)
  show "snd_sub (ikcp_shrink_buf k) k" by (subst shrink_buf_frame) (simp add: snd_sub_same)
  show "snd_sub (grow_cwnd k) k" by (subst grow_cwnd_frame) (simp add: snd_sub_same)
  show "snd_sub (rcv_move k) k" by (subst rcv_move_frame) (simp add: snd_sub_same)
  show "snd_sub (fst (update_clock k t)) k" by (subst update_clock_frame) (simp add: snd_sub_same)
qed (simp_all add: snd_sub_same recv_take_def recv_tell_def Let_def)

lemma parse_una_sub: "snd_sub (ikcp_parse_una k una) k"
  by (auto simp: snd_sub_def parse_una_eq dest: set_dropWhileD)

lemma parse_ack_sub: "snd_sub (ikcp_parse_ack k sn) k"
proof (cases "itimediff sn (k_snd_una k) < 0 \<or> itimediff sn (k_snd_nxt k) \<ge> 0")
  case True
  then show ?thesis by (simp add: ikcp_parse_ack_def)
next
  case False
  have "\<exists>t \<in> set (k_snd_buf k). s_sn s = s_sn t \<and> s_len s = s_len t \<and> payload s = payload t"
    if "s \<in> set (fst (parse_ack_loop sn (k_snd_buf k)))" for s
    using parse_ack_loop_sub [OF that] by auto
  then show ?thesis using False by (simp add: snd_sub_def ikcp_parse_ack_def split_beta)
qed

lemma input_seg_sub: "snd_sub (input_seg mem k h d) k"
proof -
  note ops = snd_sub_ops parse_una_sub parse_ack_sub
  define k0 where "k0 = ikcp_shrink_buf (ikcp_parse_una (k\<lparr>k_rmt_wnd := ucast (h_wnd h)\<rparr>) (h_una h))"
  have 0: "snd_sub k0 k" unfolding k0_def
    by (rule snd_sub_trans [OF ops(4) snd_sub_trans [OF parse_una_sub ops(10)]])
  have a: "snd_sub (input_ack k0 h) k0"
    unfolding input_ack_def Let_def
    by (rule snd_sub_trans [OF ops(4) snd_sub_trans [OF parse_ack_sub]]) (simp add: snd_sub_ops)
  have p: "snd_sub (input_push mem k0 h d) k0"
    unfolding input_push_def Let_def
    by (auto intro: snd_sub_trans [OF snd_sub_ops(1) snd_sub_ops(2)] snd_sub_ops(2))
  have "snd_sub (input_seg mem k h d) k0"
    unfolding input_seg_def Let_def k0_def [symmetric] using a p ops by simp
  then show ?thesis using 0 by (rule snd_sub_trans)
qed

lemma input_loop_sub: "input_loop mem k d = (r, k') \<Longrightarrow> snd_sub k' k"
proof (induction "length d" arbitrary: d k rule: less_induct)
  case less
  show ?case
  proof (cases "length d < 24")
    case True
    with less.prems show ?thesis by (simp add: input_loop_stop)
  next
    case False
    obtain h rest where e: "decode_hdr d = (h, rest)" by fastforce
    have ge: "24 \<le> length d" using False by simp
    have len: "length (drop (unat (h_len h)) rest) < length d"
      using snd_decode_hdr [of d] e ge by simp
    show ?thesis
      using less.prems less.hyps [OF len] input_seg_sub [of "mem (length d)" k h rest] snd_sub_trans
      by (auto simp: input_loop_step [OF ge e] split: if_splits)
  qed
qed

lemma ikcp_input_sub: "snd_sub (snd (ikcp_input mem k (Some d))) k"
proof -
  obtain r k' where l: "input_loop mem k d = (r, k')" by fastforce
  have "snd_sub k' k" using l by (rule input_loop_sub)
  moreover from this have "snd_sub (grow_cwnd k') k" using snd_sub_ops(5) snd_sub_trans by blast
  ultimately show ?thesis by (simp add: ikcp_input_def Let_def l)
qed

lemma mtu_ok_sub: "mtu_ok M k \<Longrightarrow> snd_sub k' k \<Longrightarrow> mtu_ok M k'"
  unfolding mtu_ok_def snd_sub_def by fastforce

section \<open>The sender and its stream\<close>

text \<open>
  \<open>snd_stream H kcp\<close>: the queue holds the end of the accepted stream \<open>H\<close>, \<^verbatim>\<open>snd_nxt\<close> is the position
  where the queue starts, and every segment in flight carries what the stream has at its number.
\<close>

definition snd_stream :: "stream \<Rightarrow> ikcpcb \<Rightarrow> bool" where
  "snd_stream H kcp \<longleftrightarrow>
     (\<exists>n. n + length (k_snd_queue kcp) = length H \<and> k_snd_nxt kcp = word_of_nat n \<and>
        map payload (k_snd_queue kcp) = drop n H \<and>
        (\<forall>s \<in> set (k_snd_buf kcp). \<exists>i < n. s_sn s = word_of_nat i \<and> payload s = H ! i))"

lemma snd_stream_sub: "snd_stream H k \<Longrightarrow> snd_sub k' k \<Longrightarrow> snd_stream H k'"
  unfolding snd_stream_def snd_sub_def by fastforce

lemma snd_stream_queue:
  assumes "snd_stream H k"
  shows "snd_stream (H @ map payload q) (k\<lparr>k_snd_queue := k_snd_queue k @ q, k_nsnd_que := n\<rparr>)"
proof -
  obtain m where m: "m + length (k_snd_queue k) = length H" "k_snd_nxt k = word_of_nat m"
    "map payload (k_snd_queue k) = drop m H"
    "\<forall>s \<in> set (k_snd_buf k). \<exists>i < m. s_sn s = word_of_nat i \<and> payload s = H ! i"
    using assms by (auto simp: snd_stream_def)
  show ?thesis
    unfolding snd_stream_def
    by (rule exI [of _ m]) (use m in \<open>fastforce simp: nth_append\<close>)
qed

lemma snd_stream_flush:
  assumes "kcp_ok k" "snd_stream H k"
  shows "snd_stream H (flush_kcp k)" "\<forall>s \<in> set (flush_sent k). from_stream H s"
proof -
  let ?m = "moved (flush_window k) k" and ?q = "k_snd_queue k"
  obtain n where n: "n + length ?q = length H" "k_snd_nxt k = word_of_nat n"
    "map payload ?q = drop n H"
    "\<forall>s \<in> set (k_snd_buf k). \<exists>i < n. s_sn s = word_of_nat i \<and> payload s = H ! i"
    using assms(2) by (auto simp: snd_stream_def)
  have m: "?m \<le> length ?q" by (simp add: moved_def)
  have pay: "payload (?q ! i) = H ! (n + i)" if "i < length ?q" for i
    using that n(1,3) by (metis nth_drop nth_map le_add1)
  have new: "\<exists>i < n + ?m. s_sn s = word_of_nat i \<and> payload s = H ! i"
    if s: "s \<in> set (k_snd_buf (flush_moved k))" for s
  proof -
    let ?new = "stamp_all (heads_kcp k) (k_current k) (word_of_int (ikcp_wnd_unused k)) (k_snd_nxt k) (take ?m ?q)"
    consider "s \<in> set (k_snd_buf k)" | "s \<in> set ?new"
      using s by (auto simp: flush_moved_eq [OF assms(1)])
    then show ?thesis
    proof cases
      case 1
      then obtain i where "i < n" "s_sn s = word_of_nat i" "payload s = H ! i" using n(4) by blast
      then show ?thesis by (intro exI [of _ i]) simp
    next
      case 2
      then obtain i where i: "i < ?m" "s = stamp (heads_kcp k) (k_current k)
          (word_of_int (ikcp_wnd_unused k)) (k_snd_nxt k + word_of_nat i) (take ?m ?q ! i)"
        using stamp_all_mem m by fastforce
      then show ?thesis using pay [of i] m n(2) by (intro exI [of _ "n + i"]) simp
    qed
  qed
  show "snd_stream H (flush_kcp k)"
  proof (rule flush_kcp_frame [OF assms(1)], unfold snd_stream_def, rule exI [of _ "n + ?m"], goal_cases)
    case (1 a b c d e f g h i j)
    then show ?case using n m new by (auto simp: drop_map [symmetric] flush_resend_def drop_drop add.commute)
  qed
  have len: "n + ?m \<le> length H" using n(1) m by simp
  have c: "s_cmd (ack_seg k a) \<noteq> IKCP_CMD_PUSH" for a
    by (simp add: ack_seg_def split_beta flush_hdr_def ikcp_consts)
  have p: "from_stream H ((probe_hdr k)\<lparr>s_cmd := x\<rparr>)" if "x \<in> {IKCP_CMD_WASK, IKCP_CMD_WINS}" for x
    using that by (auto simp: from_stream_def ikcp_consts)
  have r: "from_stream H (flush_resend k s)" if "s \<in> set (k_snd_buf (flush_moved k))" for s
    using new [OF that] len by (auto simp: from_stream_def flush_resend_def intro: less_le_trans)
  show "\<forall>s \<in> set (flush_sent k). from_stream H s"
    using c p r by (auto simp: flush_sent_def head_segs_def probe_segs_def Let_def from_stream_def [of H "ack_seg k _"] split: if_splits)
qed

section \<open>Messages in a stream\<close>

text \<open>
  A message is a run of at most 255 fragments whose numbers count down to 0. \<open>msgs_at P ms n t\<close>: the stream
  \<open>P\<close> is the sequence of the messages \<open>ms\<close>, and the first \<open>n\<close> of them end at position \<open>t\<close>.
\<close>

definition is_msg :: "stream \<Rightarrow> u8 list \<Rightarrow> bool" where
  "is_msg fl m \<longleftrightarrow> 0 < length fl \<and> length fl \<le> 255 \<and>
     map fst fl = map word_of_nat (rev [0..<length fl]) \<and> concat (map snd fl) = m"

definition msgs_at :: "stream \<Rightarrow> u8 list list \<Rightarrow> nat \<Rightarrow> nat \<Rightarrow> bool" where
  "msgs_at P ms n t \<longleftrightarrow>
     (\<exists>fls. P = concat fls \<and> list_all2 is_msg fls ms \<and> n \<le> length ms \<and> t = length (concat (take n fls)))"

lemma msgs_at_Nil: "msgs_at [] [] 0 0"
  by (simp add: msgs_at_def)

lemma msgs_at_start: "msgs_at P ms n t \<Longrightarrow> msgs_at P ms 0 0"
  by (auto simp: msgs_at_def)

lemma msgs_at_snoc:
  assumes "msgs_at P ms n t" "is_msg fl m"
  shows "msgs_at (P @ fl) (ms @ [m]) n t"
proof -
  obtain fls where f: "P = concat fls" "list_all2 is_msg fls ms" "n \<le> length ms"
    "t = length (concat (take n fls))"
    using assms(1) by (auto simp: msgs_at_def)
  then have "length fls = length ms" by (simp add: list_all2_lengthD)
  with f assms(2) show ?thesis
    unfolding msgs_at_def by (intro exI [of _ "fls @ [fl]"]) (simp add: list_all2_appendI)
qed

lemma first_msg_count:
  "map s_frg (take c q) = map word_of_nat (rev [0..<c]) \<Longrightarrow> 0 < c \<Longrightarrow> c \<le> 256 \<Longrightarrow> c \<le> length q \<Longrightarrow>
   first_msg q = take c q"
proof (induction q arbitrary: c)
  case (Cons s q)
  obtain c' where c: "c = Suc c'" using Cons.prems(2) by (cases c) auto
  have s: "s_frg s = word_of_nat c'" and r: "map s_frg (take c' q) = map word_of_nat (rev [0..<c'])"
    using Cons.prems(1) by (simp_all add: c)
  show ?case
  proof (cases "c' = 0")
    case False
    have "unat (word_of_nat c' :: u32) = c'" using Cons.prems(3) c by (intro word_of_nat_eq_32) simp
    then have "s_frg s \<noteq> 0" using s False by auto
    then show ?thesis using Cons.IH [OF r] Cons.prems(3,4) c False by simp
  qed (simp add: s c)
qed simp

text \<open>
  The message at the head of the queue: its first segment tells how many fragments it has, and when that many are there
  they are the next message.
\<close>

lemma queue_msg:
  assumes inv: "rcv_inv k" and str: "rcv_stream P N k" and at: "msgs_at P ms n (rcv_taken N k)"
    and q: "k_rcv_queue k \<noteq> []"
  obtains c where "n < length ms" "0 < c" "c \<le> 255" "unat (s_frg (hd (k_rcv_queue k))) = c - 1"
    "N = length P \<Longrightarrow> c \<le> length (k_rcv_queue k)"
    "c \<le> length (k_rcv_queue k) \<Longrightarrow> length (first_msg (k_rcv_queue k)) = c \<and>
       concat (map seg_bytes (first_msg (k_rcv_queue k))) = ms ! n \<and> msgs_at P ms (Suc n) (rcv_taken N k + c)"
proof -
  let ?q = "k_rcv_queue k" and ?t = "rcv_taken N k"
  obtain fls where f: "P = concat fls" "list_all2 is_msg fls ms" "n \<le> length ms"
    "?t = length (concat (take n fls))"
    using at by (auto simp: msgs_at_def)
  have lf: "length fls = length ms" using f(2) by (rule list_all2_lengthD)
  have N: "length ?q \<le> N" "N \<le> length P" "map payload ?q = map (nth P) [?t..<N]" "?t + length ?q = N"
    using str by (auto simp: rcv_stream_def rcv_taken_def)
  have "?t < length P" using N q by (cases ?q) auto
  then have "concat (take n fls) \<noteq> concat fls" using f(1,4) by auto
  then have n: "n < length fls" using f(3) lf by (cases "n = length fls") auto
  let ?fl = "fls ! n" and ?c = "length (fls ! n)"
  have msg: "is_msg ?fl (ms ! n)" using f(2) n by (rule list_all2_nthD)
  have P: "P = concat (take n fls) @ ?fl @ concat (drop (Suc n) fls)"
    using f(1) n by (metis append.assoc concat.simps(2) concat_append id_take_nth_drop)
  have nthP: "P ! (?t + i) = ?fl ! i" if "i < ?c" for i
    using that by (subst P) (simp add: f(4) nth_append)
  have pay: "payload (?q ! i) = P ! (?t + i)" if "i < length ?q" for i
  proof -
    have "map payload ?q ! i = map (nth P) [?t..<N] ! i" by (simp only: N(3))
    then show ?thesis using that N(4) by simp
  qed
  have c: "0 < ?c" "?c \<le> 255" using msg by (auto simp: is_msg_def)
  have "map fst ?fl ! 0 = map word_of_nat (rev [0..<?c]) ! 0" using msg by (simp only: is_msg_def)
  then have "fst (?fl ! 0) = word_of_nat (?c - 1)" using c(1) by (simp add: rev_nth del: of_nat_diff)
  moreover have "s_frg (hd ?q) = fst (payload (?q ! 0))" using q by (simp add: payload_def hd_conv_nth)
  moreover have "payload (?q ! 0) = ?fl ! 0" using pay [of 0] nthP [of 0] c(1) q by simp
  ultimately have "s_frg (hd ?q) = word_of_nat (?c - 1)" by metis
  then have s: "unat (s_frg (hd ?q)) = ?c - 1" using c(2) by (simp add: word_of_nat_eq_32)
  have all: "?c \<le> length ?q" if "N = length P"
  proof -
    have "length P = ?t + ?c + length (concat (drop (Suc n) fls))" by (subst P) (simp add: f(4))
    then show ?thesis using that N(4) by simp
  qed
  have m: "length (first_msg ?q) = ?c \<and> concat (map seg_bytes (first_msg ?q)) = ms ! n \<and> msgs_at P ms (Suc n) (?t + ?c)"
    if enough: "?c \<le> length ?q"
  proof -
    have pq: "map payload (take ?c ?q) = ?fl"
      by (rule nth_equalityI) (use enough pay nthP in auto)
    then have "map fst (map payload (take ?c ?q)) = map word_of_nat (rev [0..<?c])"
      using msg by (simp add: is_msg_def)
    then have "map s_frg (take ?c ?q) = map word_of_nat (rev [0..<?c])"
      by (simp add: payload_def comp_def)
    then have fm: "first_msg ?q = take ?c ?q" using c enough by (intro first_msg_count) auto
    have "seg_bytes x = snd (payload x)" if "x \<in> set (take ?c ?q)" for x
      using rcv_invD(8) [OF inv, of x] in_set_takeD [OF that] by (simp add: payload_def)
    then have "map seg_bytes (take ?c ?q) = map snd (map payload (take ?c ?q))" by simp
    then have o: "concat (map seg_bytes (first_msg ?q)) = ms ! n" using msg unfolding fm pq by (simp add: is_msg_def)
    have "?t + ?c = length (concat (take (Suc n) fls))" using n by (simp add: f(4) take_Suc_conv_app_nth)
    then have "msgs_at P ms (Suc n) (?t + ?c)"
      unfolding msgs_at_def using f(1,2) n lf by (intro exI [of _ fls]) simp
    then show ?thesis using o fm enough by simp
  qed
  show thesis using n lf c s all m by (intro that [of ?c]) simp_all
qed

lemma peek_enough:
  assumes inv: "rcv_inv k" and q: "k_rcv_queue k \<noteq> []" and size: "0 \<le> ikcp_peeksize k"
  shows "unat (s_frg (hd (k_rcv_queue k))) < length (k_rcv_queue k) \<or> unat (s_frg (hd (k_rcv_queue k))) \<ge> 255"
proof -
  let ?q = "k_rcv_queue k" and ?f = "s_frg (hd (k_rcv_queue k))"
  obtain s p where sp: "?q = s # p" using q by (cases ?q) auto
  have n: "unat (k_nrcv_que k) = length ?q"
    unfolding rcv_invD(5) [OF inv] using rcv_invD(6) [OF inv] by (intro word_of_nat_eq_32) simp
  show ?thesis
  proof (cases "?f = 0 \<or> 255 \<le> unat ?f")
    case False
    then have "\<not> k_nrcv_que k < ?f + 1" using size sp by (auto simp: peeksize_eq split: if_splits)
    moreover have "unat (?f + 1) = unat ?f + 1" using False by (subst unat_Suc_32) simp_all
    ultimately show ?thesis using n by (simp add: word_less_nat_alt)
  qed (use sp in auto)
qed

text \<open>A successful receive returns the next message.\<close>

lemma recv_msg:
  assumes inv: "rcv_inv k" and str: "rcv_stream P N k" and at: "msgs_at P ms n (rcv_taken N k)"
    and recv: "ikcp_recv k True len = (r, out, k')" "0 \<le> len" and r: "0 \<le> r"
  shows "\<exists>N' \<ge> N. rcv_stream P N' k' \<and> n < length ms \<and> out = ms ! n \<and>
    msgs_at P ms (Suc n) (rcv_taken N' k')"
proof -
  let ?q = "k_rcv_queue k" and ?m = "recv_take False k"
  have q: "?q \<noteq> []" and size: "0 \<le> ikcp_peeksize k"
    and out: "out = concat (map seg_bytes (first_msg ?q))"
    and k': "k' = recv_tell (k_rcv_wnd k \<le> k_nrcv_que k) (rcv_move ?m)"
    using recv r by (auto simp: ikcp_recv_eq Let_def split: if_splits)
  obtain c where c: "n < length ms" "0 < c" "c \<le> 255" "unat (s_frg (hd ?q)) = c - 1"
    "c \<le> length ?q \<Longrightarrow> length (first_msg ?q) = c \<and> concat (map seg_bytes (first_msg ?q)) = ms ! n \<and>
       msgs_at P ms (Suc n) (rcv_taken N k + c)"
    by (rule queue_msg [OF inv str at q]) blast
  have "c \<le> length ?q" using peek_enough [OF inv q size] c(2-4) by linarith
  note m = c(5) [OF this]
  note t = recv_take_stream [OF str]
  have "rcv_inv ?m" by (simp add: kcp_inv inv)
  then obtain N' where N': "N' \<ge> N" "rcv_stream P N' (rcv_move ?m)"
    "rcv_taken N' (rcv_move ?m) = rcv_taken N ?m"
    using rcv_move_stream [OF _ t(1)] by blast
  have "rcv_taken N' k' = rcv_taken N k + c" using N'(3) t(2) m by (simp add: k')
  then show ?thesis using N'(1,2) m c(1) out by (intro exI [of _ N']) (simp add: k')
qed

text \<open>A message that is complete can be read.\<close>

lemma peek_msg:
  assumes inv: "rcv_inv k" and str: "rcv_stream P N k" and at: "msgs_at P ms n (rcv_taken N k)"
    and q: "k_rcv_queue k \<noteq> []" and short: "\<forall>m \<in> set ms. length m < 2 ^ 31"
    and enough: "unat (s_frg (hd (k_rcv_queue k))) < length (k_rcv_queue k)"
  shows "0 \<le> ikcp_peeksize k"
proof -
  let ?q = "k_rcv_queue k"
  obtain c where c: "n < length ms" "0 < c" "c \<le> 255" "unat (s_frg (hd ?q)) = c - 1"
    "c \<le> length ?q \<Longrightarrow> length (first_msg ?q) = c \<and> concat (map seg_bytes (first_msg ?q)) = ms ! n \<and>
       msgs_at P ms (Suc n) (rcv_taken N k + c)"
    by (rule queue_msg [OF inv str at q]) blast
  have m: "concat (map seg_bytes (first_msg ?q)) = ms ! n" using c enough by simp
  then have l: "length (concat (map seg_bytes (first_msg ?q))) < 2 ^ 31" using short c(1) by simp
  have "\<forall>s \<in> set (first_msg ?q). seg_ok s" using rcv_invD(8) [OF inv] set_first_msg [of ?q] by blast
  then have "unat (sum_len (first_msg ?q)) = length (concat (map seg_bytes (first_msg ?q)))"
    using l by (intro sum_len_unat) simp_all
  then have "sint (sum_len (first_msg ?q)) = int (length (concat (map seg_bytes (first_msg ?q))))"
    by (rule sint_of_unat [OF _ l])
  moreover have "unat (k_nrcv_que k) = length ?q"
    unfolding rcv_invD(5) [OF inv] using rcv_invD(6) [OF inv] by (intro word_of_nat_eq_32) simp
  then have "\<not> k_nrcv_que k < s_frg (hd ?q) + 1"
    using enough c(3,4) unat_Suc_32 [of "s_frg (hd ?q)"] by (simp add: word_less_nat_alt)
  ultimately show ?thesis using q by (auto simp: peeksize_eq split: list.splits)
qed

text \<open>When everything has arrived and no message can be read, every message has been read.\<close>

lemma all_read:
  assumes inv: "rcv_inv k" and str: "rcv_stream P (length P) k" and at: "msgs_at P ms n (rcv_taken (length P) k)"
    and short: "\<forall>m \<in> set ms. length m < 2 ^ 31" and stop: "k_rcv_queue k = [] \<or> ikcp_peeksize k < 0"
  shows "n = length ms"
proof (rule ccontr)
  assume "n \<noteq> length ms"
  show False
  proof (cases "k_rcv_queue k = []")
    case False
    obtain c where c: "0 < c" "unat (s_frg (hd (k_rcv_queue k))) = c - 1" "c \<le> length (k_rcv_queue k)"
      by (rule queue_msg [OF inv str at False]) blast
    then have "unat (s_frg (hd (k_rcv_queue k))) < length (k_rcv_queue k)" by linarith
    then show False using peek_msg [OF inv str at False short] stop False by simp
  next
    case True
    obtain fls where f: "P = concat fls" "list_all2 is_msg fls ms" "n \<le> length ms"
      "rcv_taken (length P) k = length (concat (take n fls))"
      using at by (auto simp: msgs_at_def)
    have "length (concat (take n fls)) = length (concat fls)" using f(1,4) True by (simp add: rcv_taken_def)
    moreover have "length (concat fls) = length (concat (take n fls)) + length (concat (drop n fls))"
      by (metis append_take_drop_id concat_append length_append)
    ultimately have "concat (drop n fls) = []" by simp
    moreover have "n < length fls" using f(2,3) \<open>n \<noteq> length ms\<close> by (simp add: list_all2_lengthD)
    then have "drop n fls = fls ! n # drop (Suc n) fls" "is_msg (fls ! n) (ms ! n)"
      using f(2) by (simp_all add: Cons_nth_drop_Suc list_all2_nthD)
    ultimately show False by (auto simp: is_msg_def)
  qed
qed

lemma recv_error:
  "ikcp_recv k b len = (r, out, k') \<Longrightarrow> r < 0 \<Longrightarrow> k' = k \<and> out = [] \<and> r \<in> {-1, -2, -3}"
  using peeksize_first_msg [of k] by (auto simp: ikcp_recv_eq Let_def split: if_splits)

section \<open>Endpoints\<close>

text \<open>
  An endpoint is a control block with the messages it accepted, their fragments, and the messages it
  returned to its application. \<open>ep_step net e out e'\<close>: one call of the application or of the event loop;
  \<open>net\<close> are the datagrams that can arrive and \<open>out\<close> the ones sent. A datagram may arrive any number
  of times, in any order, or never. The side conditions keep the run within 2^31 fragments per direction
  and 2^29 pending acknowledgements.
\<close>

record endpoint =
  e_kcp :: ikcpcb
  e_sent :: "u8 list list"
  e_hist :: stream
  e_got :: "u8 list list"

inductive ep_step :: "u8 list set \<Rightarrow> endpoint \<Rightarrow> u8 list set \<Rightarrow> endpoint \<Rightarrow> bool" where
  ep_send: "\<lbrakk>\<forall>i. alloc i \<noteq> None; length b < 2 ^ 31;
      ikcp_send alloc (e_kcp e) (Some b) (int (length b)) = (r, k');
      hist' = e_hist e @ map payload (drop (length (k_snd_queue (e_kcp e))) (k_snd_queue k'));
      length hist' \<le> 2 ^ 31\<rbrakk>
    \<Longrightarrow> ep_step net e {} (e\<lparr>e_kcp := k', e_hist := hist',
          e_sent := (if r = 0 then e_sent e @ [b] else e_sent e)\<rparr>)"
| ep_recv: "\<lbrakk>0 \<le> len; ikcp_recv (e_kcp e) True len = (r, out, k')\<rbrakk>
    \<Longrightarrow> ep_step net e {} (e\<lparr>e_kcp := k', e_got := (if 0 \<le> r then e_got e @ [out] else e_got e)\<rparr>)"
| ep_input: "\<lbrakk>d \<in> net; unat (k_ackcount (e_kcp e)) + length d < 2 ^ 29;
      ikcp_input mem (e_kcp e) (Some d) = (r, k')\<rbrakk>
    \<Longrightarrow> ep_step net e {} (e\<lparr>e_kcp := k'\<rparr>)"
| ep_update: "\<lbrakk>ikcp_update (e_kcp e) t = (k', out)\<rbrakk>
    \<Longrightarrow> ep_step net e (set out) (e\<lparr>e_kcp := k'\<rparr>)"
| ep_nodelay: "\<lbrakk>ikcp_nodelay (e_kcp e) nodelay interval fast nc = (r, k')\<rbrakk>
    \<Longrightarrow> ep_step net e {} (e\<lparr>e_kcp := k'\<rparr>)"
| ep_wndsize: "\<lbrakk>rcvwnd < 2 ^ 31; ikcp_wndsize (Some (e_kcp e)) sndwnd rcvwnd = (r, Some k')\<rbrakk>
    \<Longrightarrow> ep_step net e {} (e\<lparr>e_kcp := k'\<rparr>)"

inductive_cases ep_stepE: "ep_step net e out e'"

section \<open>The invariant of an endpoint\<close>

definition ep_own :: "u32 \<Rightarrow> endpoint \<Rightarrow> bool" where
  "ep_own conv e \<longleftrightarrow>
     kcp_ok (e_kcp e) \<and> mtu_ok 1400 (e_kcp e) \<and> k_conv (e_kcp e) = conv \<and>
     snd_stream (e_hist e) (e_kcp e) \<and> length (e_hist e) \<le> 2 ^ 31 \<and>
     unat (k_ackcount (e_kcp e)) < 2 ^ 29 \<and> msgs_at (e_hist e) (e_sent e) 0 0"

definition ep_reads :: "stream \<Rightarrow> u8 list list \<Rightarrow> endpoint \<Rightarrow> bool" where
  "ep_reads P ms e \<longleftrightarrow>
     (\<exists>N n. rcv_stream P N (e_kcp e) \<and> msgs_at P ms n (rcv_taken N (e_kcp e)) \<and>
        n \<le> length ms \<and> e_got e = take n ms)"

definition net_ok :: "u32 \<Rightarrow> stream \<Rightarrow> u8 list set \<Rightarrow> bool" where
  "net_ok conv P net \<longleftrightarrow>
     (\<forall>d \<in> net. \<exists>gs. d = dgram gs \<and> (\<forall>g \<in> set gs. wire_ok conv g \<and> from_stream P g))"

lemma from_stream_extend: "from_stream P s \<Longrightarrow> from_stream (P @ Q) s"
  by (fastforce simp: from_stream_def nth_append)

lemma net_ok_extend: "net_ok conv P net \<Longrightarrow> net_ok conv (P @ Q) net"
  unfolding net_ok_def using from_stream_extend by metis

lemma net_ok_Un: "net_ok conv P (a \<union> b) \<longleftrightarrow> net_ok conv P a \<and> net_ok conv P b"
  by (auto simp: net_ok_def)

lemma input_segs_reads:
  assumes "kcp_ok k" "rcv_stream P N k" "length P \<le> 2 ^ 31"
    and "\<forall>g \<in> set gs. wire_ok conv g \<and> from_stream P g"
    and "unat (k_ackcount k) + length gs < 2 ^ 29"
  shows "\<exists>N' \<ge> N. rcv_stream P N' (input_segs mem k gs) \<and> rcv_taken N' (input_segs mem k gs) = rcv_taken N k"
  using assms
proof (induction gs arbitrary: k N)
  case (Cons g gs)
  let ?k = "input_seg (mem (length (dgram (g # gs)))) k (hdr_of_seg g) (s_data g)"
  have g: "wire_ok conv g" "from_stream P g" using Cons.prems(4) by auto
  have len: "unat (h_len (hdr_of_seg g)) \<le> length (s_data g)"
    using g(1) by (simp add: wire_ok_def seg_frg_ok_def seg_ok_def hdr_of_seg_def)
  have c: "unat (k_ackcount k) < 2 ^ 29" using Cons.prems(5) by simp
  note ok = input_seg_ok [OF Cons.prems(1) len c]
  have inv: "rcv_inv k" using Cons.prems(1) by (simp add: kcp_ok_def)
  obtain N1 where N1: "N1 \<ge> N" "rcv_stream P N1 ?k" "rcv_taken N1 ?k = rcv_taken N k"
    using input_seg_stream [OF inv Cons.prems(2,3) g] by blast
  have "unat (k_ackcount ?k) + length gs < 2 ^ 29"
    using ok [of "mem (length (dgram (g # gs)))"] Cons.prems(5) by simp
  then obtain N2 where "N2 \<ge> N1" "rcv_stream P N2 (input_segs mem ?k gs)"
    "rcv_taken N2 (input_segs mem ?k gs) = rcv_taken N1 ?k"
    using Cons.IH [of ?k N1] ok N1(2) Cons.prems(3,4) by auto
  then show ?case using N1 by (intro exI [of _ N2]) simp
qed auto

lemma input_reads:
  assumes k: "kcp_ok k" "rcv_stream P N k" "length P \<le> 2 ^ 31" "k_conv k = conv"
    and d: "d = dgram gs" "\<forall>g \<in> set gs. wire_ok conv g \<and> from_stream P g"
    and n: "unat (k_ackcount k) + length d < 2 ^ 29" and i: "ikcp_input mem k (Some d) = (r, k')"
  shows "\<exists>N' \<ge> N. rcv_stream P N' k' \<and> rcv_taken N' k' = rcv_taken N k"
proof -
  have l: "input_loop mem k d = (0, input_segs mem k gs)"
    unfolding d(1) using d(2) k(4) by (intro input_loop_dgram) auto
  have "unat (k_ackcount k) + length gs < 2 ^ 29" using n length_dgram [of gs] d(1) by simp
  then obtain N' where N': "N' \<ge> N" "rcv_stream P N' (input_segs mem k gs)"
    "rcv_taken N' (input_segs mem k gs) = rcv_taken N k"
    using input_segs_reads [OF k(1-3) d(2)] by blast
  have "k' = input_segs mem k gs \<or> k' = grow_cwnd (input_segs mem k gs)"
    using i ikcp_input_eq [OF l] l by (auto simp: Let_def split: if_splits)
  then show ?thesis using N' by (intro exI [of _ N']) (auto simp: rcv_taken_def)
qed

section \<open>Every call keeps the invariant\<close>

lemma rcv_side_fields:
  "snd_inv (k\<lparr>k_rcv_buf := u, k_nrcv_buf := v, k_rcv_queue := w, k_nrcv_que := x, k_rcv_nxt := y,
     k_probe := z\<rparr>) = snd_inv k"
  "ack_inv (k\<lparr>k_rcv_buf := u, k_nrcv_buf := v, k_rcv_queue := w, k_nrcv_que := x, k_rcv_nxt := y,
     k_probe := z\<rparr>) = ack_inv k"
  "rto_ok (k\<lparr>k_rcv_buf := u, k_nrcv_buf := v, k_rcv_queue := w, k_nrcv_que := x, k_rcv_nxt := y,
     k_probe := z\<rparr>) = rto_ok k"
  by (simp_all add: snd_side ack_inv_def rto_ok_def cong: list.case_cong option.case_cong)

lemma clock_fields:
  "kcp_ok (k\<lparr>k_current := t, k_updated := x, k_ts_flush := y\<rparr>) = kcp_ok k"
  "mtu_ok M (k\<lparr>k_current := t, k_updated := x, k_ts_flush := y\<rparr>) = mtu_ok M k"
  "snd_stream H (k\<lparr>k_current := t, k_updated := x, k_ts_flush := y\<rparr>) = snd_stream H k"
  "rcv_stream P N (k\<lparr>k_current := t, k_updated := x, k_ts_flush := y\<rparr>) = rcv_stream P N k"
  by (simp_all add: kcp_ok_def snd_side rcv_inv_def ack_inv_def rto_ok_def mtu_ok_def snd_stream_def
      rcv_stream_def cong: list.case_cong option.case_cong)

lemma queue_fields:
  "rcv_inv (k\<lparr>k_snd_queue := q, k_nsnd_que := n\<rparr>) = rcv_inv k"
  "ack_inv (k\<lparr>k_snd_queue := q, k_nsnd_que := n\<rparr>) = ack_inv k"
  "rto_ok (k\<lparr>k_snd_queue := q, k_nsnd_que := n\<rparr>) = rto_ok k"
  "snd_head (k\<lparr>k_snd_queue := q, k_nsnd_que := n\<rparr>) = snd_head k"
  by (simp_all add: snd_head_def rcv_inv_def ack_inv_def rto_ok_def cong: list.case_cong option.case_cong)

lemma recv_shape:
  assumes "ikcp_recv k b len = (r, out, k')"
  obtains u v w x y z where "k' = k\<lparr>k_rcv_buf := u, k_nrcv_buf := v, k_rcv_queue := w,
    k_nrcv_que := x, k_rcv_nxt := y, k_probe := z\<rparr>"
proof -
  have m: "\<exists>u v w x y. rcv_move j = j\<lparr>k_rcv_buf := u, k_nrcv_buf := v, k_rcv_queue := w,
      k_nrcv_que := x, k_rcv_nxt := y\<rparr>" for j
    using rcv_move_frame by blast
  have t: "\<exists>w x. recv_take q j = j\<lparr>k_rcv_queue := w, k_nrcv_que := x\<rparr>" for q j
  proof (cases q)
    case True
    then show ?thesis
      by (intro exI [of _ "k_rcv_queue j"] exI [of _ "k_nrcv_que j"]) (simp add: recv_take_def)
  next
    case False
    then show ?thesis by (auto simp: recv_take_def Let_def)
  qed
  have l: "\<exists>z. recv_tell q j = j\<lparr>k_probe := z\<rparr>" for q j
    by (rule exI [of _ "k_probe (recv_tell q j)"]) (simp add: recv_tell_def)
  consider "k' = k" | q q' where "k' = recv_tell q (rcv_move (recv_take q' k))"
    using assms by (auto simp: ikcp_recv_eq Let_def split: if_splits)
  then show thesis
  proof cases
    case 1
    then show thesis
      by (intro that [where u = "k_rcv_buf k" and v = "k_nrcv_buf k" and w = "k_rcv_queue k"
        and x = "k_nrcv_que k" and y = "k_rcv_nxt k" and z = "k_probe k"]) simp
  next
    case 2
    obtain w x where a: "recv_take q' k = k\<lparr>k_rcv_queue := w, k_nrcv_que := x\<rparr>" using t by blast
    obtain u v w' x' y where b: "rcv_move (recv_take q' k) = (recv_take q' k)\<lparr>k_rcv_buf := u,
      k_nrcv_buf := v, k_rcv_queue := w', k_nrcv_que := x', k_rcv_nxt := y\<rparr>" using m by blast
    obtain z where "k' = (rcv_move (recv_take q' k))\<lparr>k_probe := z\<rparr>" using l 2 by blast
    then show thesis unfolding a b [unfolded a] by (intro that [where u = u and v = v and w = w' and x = x' and y = y and z = z]) simp
  qed
qed

lemma recv_ok:
  assumes "kcp_ok k" "ikcp_recv k b len = (r, out, k')"
  shows "kcp_ok k' \<and> snd_sub k' k \<and> k_ackcount k' = k_ackcount k"
proof (rule recv_shape [OF assms(2)])
  fix u v w x y z
  assume s: "k' = k\<lparr>k_rcv_buf := u, k_nrcv_buf := v, k_rcv_queue := w,
    k_nrcv_que := x, k_rcv_nxt := y, k_probe := z\<rparr>"
  have "rcv_inv k'" using recv_inv [of k b len] assms by (simp add: kcp_ok_def)
  then have "kcp_ok k'" using assms(1) unfolding kcp_ok_def s rcv_side_fields by simp
  then show ?thesis by (simp add: s snd_sub_same)
qed

lemma update_ok:
  assumes "kcp_ok k" "mtu_ok M k" "unat (k_ackcount k) < 2 ^ 31" "snd_stream H k"
    and "ikcp_update k t = (k', out)"
  shows "kcp_ok k'" "mtu_ok M k'" "snd_stream H k'" "k_conv k' = k_conv k"
    "unat (k_ackcount k') \<le> unat (k_ackcount k)"
    "rcv_stream P N k' = rcv_stream P N k" "k_rcv_queue k' = k_rcv_queue k"
    "net_ok (k_conv k) H (set out)" "\<forall>d \<in> set out. d \<noteq> [] \<and> length d \<le> M"
proof -
  obtain c f where u: "update_clock k t = (c, f)" by fastforce
  have c: "\<exists>x y. c = k\<lparr>k_current := t, k_updated := x, k_ts_flush := y\<rparr>"
    using update_clock_frame [of k t] u by (metis fst_conv)
  then have cs: "kcp_ok c" "mtu_ok M c" "snd_stream H c" "k_conv c = k_conv k" "k_ackcount c = k_ackcount k"
    "rcv_stream P N c = rcv_stream P N k" "k_rcv_queue c = k_rcv_queue k"
    using assms(1,2,4)
    by (auto simp: clock_fields)
  have up: "k_updated c \<noteq> 0" using update_clock_updated [of k t] u by simp
  have all: "kcp_ok k' \<and> mtu_ok M k' \<and> snd_stream H k' \<and> k_conv k' = k_conv k \<and>
      unat (k_ackcount k') \<le> unat (k_ackcount k) \<and> (rcv_stream P N k' = rcv_stream P N k) \<and>
      k_rcv_queue k' = k_rcv_queue k \<and> net_ok (k_conv k) H (set out) \<and>
      (\<forall>d \<in> set out. d \<noteq> [] \<and> length d \<le> M)"
  proof (cases f)
    case False
    then have "k' = c" "out = []" using assms(5) u by (simp_all add: ikcp_update_def)
    then show ?thesis
      using cs by (simp add: net_ok_def)
  next
    case True
    obtain gss where g: "ikcp_flush c = (flush_kcp c, map dgram gss)" "concat gss = flush_sent c"
      "\<forall>g \<in> set gss. g \<noteq> [] \<and> length (dgram g) \<le> M"
      by (rule flush_eq [OF cs(1,2) up]) (use assms(3) cs(5) in simp_all)
    have k: "k' = flush_kcp c" "out = map dgram gss"
      using assms(5) u g(1) True by (simp_all add: ikcp_update_def)
    have seg: "wire_ok (k_conv k) s \<and> from_stream H s" if "g \<in> set gss" "s \<in> set g" for g s
    proof -
      have "s \<in> set (flush_sent c)" using that g(2) by (metis UN_I set_concat)
      then show ?thesis
        using flush_sent_wire [OF cs(1)] snd_stream_flush(2) [OF cs(1,3)] cs(4) by auto
    qed
    have "net_ok (k_conv k) H (set out)" unfolding net_ok_def k(2) using seg by auto
    moreover have "\<forall>d \<in> set out. d \<noteq> [] \<and> length d \<le> M" using g(3) k(2) by auto
    ultimately show ?thesis
      using cs flush_kcp_ok [OF cs(1)] flush_kcp_mtu [OF cs(1,2)] snd_stream_flush(1) [OF cs(1,3)]
      by (simp add: k(1))
  qed
  then show "kcp_ok k'" "mtu_ok M k'" "snd_stream H k'" "k_conv k' = k_conv k"
    "unat (k_ackcount k') \<le> unat (k_ackcount k)"
    "rcv_stream P N k' = rcv_stream P N k" "k_rcv_queue k' = k_rcv_queue k"
    "net_ok (k_conv k) H (set out)" "\<forall>d \<in> set out. d \<noteq> [] \<and> length d \<le> M"
    by blast+
qed

lemma send_ok:
  assumes ok: "kcp_ok k" and mtu: "mtu_ok M k" and alloc: "\<forall>i. alloc i \<noteq> None" and len: "length b < 2 ^ 31"
    and send: "ikcp_send alloc k (Some b) (int (length b)) = (r, k')"
  obtains q where "k' = k\<lparr>k_snd_queue := k_snd_queue k @ q, k_nsnd_que := k_nsnd_que k'\<rparr>"
    "kcp_ok k'" "mtu_ok M k'" "if r = 0 then is_msg (map payload q) b else q = []"
proof -
  have M: "unat (k_mss k) = M - 24" "0 < M - 24" "M - 24 < 2 ^ 31" using mtu by (auto simp: mtu_ok_def)
  show thesis
  proof (cases "n_fragments (M - 24) (length b) \<le> 255")
    case False
    then have "(r, k') = (-2, k)" using ikcp_send_too_long [OF M len] send by simp
    then show thesis using ok mtu by (intro that [of "[]"]) simp_all
  next
    case True
    obtain q where q: "ikcp_send alloc k (Some b) (int (length b)) =
      (0, k\<lparr>k_snd_queue := k_snd_queue k @ q, k_nsnd_que := k_nsnd_que k + word_of_nat (length q)\<rparr>)"
      "length q = n_fragments (M - 24) (length b)" "concat (map s_data q) = b"
      "map s_frg q = map word_of_nat (rev [0..<length q])"
      "\<And>s. s \<in> set q \<Longrightarrow> seg_ok s \<and> unat (s_len s) \<le> M - 24"
      using ikcp_send_spec [OF M alloc len True] by blast
    let ?k = "k\<lparr>k_snd_queue := k_snd_queue k @ q, k_nsnd_que := k_nsnd_que k + word_of_nat (length q)\<rparr>"
    have k': "k' = ?k" "r = 0" using q(1) send by simp_all
    have n: "0 < length q" "length q \<le> 255" using q(2) True n_fragments_pos [OF M(2)] by simp_all
    have "is_msg (map payload q) b"
      using n q(3,4) by (simp add: is_msg_def comp_def payload_def)
    have frg: "seg_frg_ok s" if "s \<in> set q" for s
    proof -
      have "s_frg s \<in> set (map s_frg q)" using that by simp
      then obtain i where "i < length q" "s_frg s = word_of_nat i" unfolding q(4) by auto
      then have "unat (s_frg s) = i" using n(2) by (simp add: word_of_nat_eq_32)
      then show ?thesis using \<open>i < length q\<close> n(2) q(5) [OF that] by (simp add: seg_frg_ok_def)
    qed
    have "snd_win ?k"
      using ok frg by (auto simp: kcp_ok_def snd_inv_def snd_win_def)
    then have "kcp_ok ?k"
      using ok by (simp add: kcp_ok_def snd_inv_def queue_fields)
    moreover have "mtu_ok M ?k" using mtu q(5) by (fastforce simp: mtu_ok_def cong: option.case_cong)
    ultimately show thesis using \<open>is_msg (map payload q) b\<close> k' by (intro that [of q]) simp_all
  qed
qed

lemma nodelay_ok:
  assumes "ikcp_nodelay k nodelay interval fast nc = (r, k')"
  shows "kcp_ok k \<Longrightarrow> kcp_ok k'" "snd_sub (k'\<lparr>k_interval := k_interval k\<rparr>) k"
    "rcv_stream P N k' = rcv_stream P N k" "k_rcv_queue k' = k_rcv_queue k" "k_ackcount k' = k_ackcount k"
proof -
  obtain a b c d i where k: "k' = k\<lparr>k_nodelay := a, k_rx_minrto := b, k_interval := i, k_fastresend := c, k_nocwnd := d\<rparr>"
    "b \<in> {30, 100} \<or> b = k_rx_minrto k"
  proof (rule that [where a = "k_nodelay k'" and b = "k_rx_minrto k'" and i = "k_interval k'"
        and c = "k_fastresend k'" and d = "k_nocwnd k'"])
    show "k' = k\<lparr>k_nodelay := k_nodelay k', k_rx_minrto := k_rx_minrto k', k_interval := k_interval k',
      k_fastresend := k_fastresend k', k_nocwnd := k_nocwnd k'\<rparr>"
      "k_rx_minrto k' \<in> {30, 100} \<or> k_rx_minrto k' = k_rx_minrto k"
      using assms by (auto simp: ikcp_nodelay_def Let_def ikcp_consts split: if_splits)
  qed
  show "kcp_ok k'" if "kcp_ok k"
  proof -
    have "snd_inv k' = snd_inv k" "rcv_inv k' = rcv_inv k" "ack_inv k' = ack_inv k"
      by (simp_all add: k(1) snd_side rcv_inv_def ack_inv_def cong: list.case_cong option.case_cong)
    moreover have "rto_ok k'" using that k(2) by (auto simp: kcp_ok_def rto_ok_def k(1))
    ultimately show ?thesis using that by (simp add: kcp_ok_def)
  qed
qed (use assms in \<open>auto simp: ikcp_nodelay_def Let_def rcv_stream_def intro!: snd_sub_same split: if_splits\<close>)

lemma wndsize_ok:
  assumes "ikcp_wndsize (Some k) sndwnd rcvwnd = (r, Some k')" "rcvwnd < 2 ^ 31"
  shows "kcp_ok k \<Longrightarrow> kcp_ok k'" "snd_sub k' k" "rcv_stream P N k' = rcv_stream P N k"
    "k_rcv_queue k' = k_rcv_queue k" "k_ackcount k' = k_ackcount k"
proof -
  obtain a b where k: "k' = k\<lparr>k_snd_wnd := a, k_rcv_wnd := b\<rparr>" "b = k_rcv_wnd k \<or> unat b < 2 ^ 31"
  proof (rule that [where a = "k_snd_wnd k'" and b = "k_rcv_wnd k'"])
    show "k' = k\<lparr>k_snd_wnd := k_snd_wnd k', k_rcv_wnd := k_rcv_wnd k'\<rparr>"
      using assms(1) by (auto simp: ikcp_wndsize_def Let_def)
    have "unat (word_of_int rcvwnd :: u32) < 2 ^ 31" if "0 < rcvwnd"
      using that assms(2) by (subst unat_word_of_int_32) simp_all
    then show "k_rcv_wnd k' = k_rcv_wnd k \<or> unat (k_rcv_wnd k') < 2 ^ 31"
      using assms(1) by (auto simp: ikcp_wndsize_def Let_def)
  qed
  show "kcp_ok k'" if "kcp_ok k"
  proof -
    have "snd_inv k' = snd_inv k" "ack_inv k' = ack_inv k" "rto_ok k' = rto_ok k"
      by (simp_all add: k(1) snd_side rto_ok_def ack_inv_def cong: list.case_cong option.case_cong)
    moreover have "rcv_inv k'" using that k(2) by (auto simp: kcp_ok_def rcv_inv_def k(1))
    ultimately show ?thesis using that by (simp add: kcp_ok_def)
  qed
  show "snd_sub k' k" "rcv_stream P N k' = rcv_stream P N k" "k_rcv_queue k' = k_rcv_queue k"
    "k_ackcount k' = k_ackcount k"
    by (simp_all add: k(1) snd_sub_same rcv_stream_def)
qed

text \<open>\<open>ep_extends e e'\<close>: the streams only grow, by whole messages.\<close>

definition ep_extends :: "endpoint \<Rightarrow> endpoint \<Rightarrow> bool" where
  "ep_extends e e' \<longleftrightarrow>
     (\<exists>Q xs. e_hist e' = e_hist e @ Q \<and> e_sent e' = e_sent e @ xs \<and>
        (\<forall>n t. msgs_at (e_hist e) (e_sent e) n t \<longrightarrow> msgs_at (e_hist e') (e_sent e') n t))"

lemma ep_extends_same: "e_hist e' = e_hist e \<Longrightarrow> e_sent e' = e_sent e \<Longrightarrow> ep_extends e e'"
  by (auto simp: ep_extends_def)

lemma ep_step_own:
  assumes own: "ep_own conv e" and step: "ep_step net e out e'"
  shows "ep_own conv e' \<and> ep_extends e e' \<and> net_ok conv (e_hist e') out"
proof -
  let ?k = "e_kcp e"
  have E: "kcp_ok ?k" "mtu_ok 1400 ?k" "k_conv ?k = conv" "snd_stream (e_hist e) ?k"
    "length (e_hist e) \<le> 2 ^ 31" "unat (k_ackcount ?k) < 2 ^ 29" "msgs_at (e_hist e) (e_sent e) 0 0"
    using own by (simp_all add: ep_own_def)
  have sub: "ep_own conv (e\<lparr>e_kcp := k'\<rparr>)" if "kcp_ok k'" "snd_sub k' ?k" "unat (k_ackcount k') < 2 ^ 29" for k'
    using that E mtu_ok_sub [OF E(2) that(2)] snd_stream_sub [OF E(4) that(2)]
    by (simp add: ep_own_def snd_sub_def)
  show ?thesis
    using step
  proof cases
    case (ep_send alloc b r k' hist')
    obtain q where q: "k' = ?k\<lparr>k_snd_queue := k_snd_queue ?k @ q, k_nsnd_que := k_nsnd_que k'\<rparr>"
      "kcp_ok k'" "mtu_ok 1400 k'" "if r = 0 then is_msg (map payload q) b else q = []"
      by (rule send_ok [OF E(1,2) ep_send(3-5)])
    have d: "drop (length (k_snd_queue ?k)) (k_snd_queue k') = q" by (subst q(1)) simp
    then have h: "hist' = e_hist e @ map payload q" using ep_send(6) by simp
    have s: "snd_stream hist' k'" unfolding h by (subst q(1)) (rule snd_stream_queue [OF E(4)])
    have c: "k_conv k' = conv" "k_ackcount k' = k_ackcount ?k" using E(3) by (subst q(1), simp)+
    have at: "msgs_at hist' (if r = 0 then e_sent e @ [b] else e_sent e) n t"
      if "msgs_at (e_hist e) (e_sent e) n t" for n t
      using q(4) that msgs_at_snoc [OF that, of "map payload q" b] by (auto simp: h split: if_splits)
    have own': "ep_own conv e'"
      using ep_send(1,2,7) q(2,3) s c at [OF E(7)] E(6) by (simp add: ep_own_def)
    have ext: "ep_extends e e'"
      unfolding ep_extends_def using ep_send(2) at h
      by (intro exI [of _ "map payload q"] exI [of _ "if r = 0 then [b] else []"]) auto
    show ?thesis using own' ext ep_send(1) by (simp add: net_ok_def)
  next
    case (ep_recv len r out' k')
    then show ?thesis
      using recv_ok [OF E(1) ep_recv(4)] E mtu_ok_sub [OF E(2), of k'] snd_stream_sub [OF E(4), of k']
      by (auto simp: ep_own_def net_ok_def ep_extends_same snd_sub_def)
  next
    case (ep_input d mem r k')
    have "unat (k_ackcount k') < 2 ^ 29" "kcp_ok k'"
      using ikcp_input_ok [OF E(1) ep_input(4,5)] ep_input(4) by simp_all
    moreover have "snd_sub k' ?k" using ikcp_input_sub [of mem ?k d] ep_input(5) by simp
    ultimately show ?thesis using sub [of k'] ep_input(1,2) by (simp add: net_ok_def ep_extends_same)
  next
    case (ep_update t k' o')
    have n: "unat (k_ackcount ?k) < 2 ^ 31" using E(6) by simp
    note u = update_ok [OF E(1,2) n E(4) ep_update(3)]
    have "unat (k_ackcount k') < 2 ^ 29" using u(5) E(6) by simp
    then show ?thesis
      using ep_update(1,2) u E by (simp add: ep_own_def ep_extends_same)
  next
    case (ep_nodelay nodelay interval fast nc r k')
    note n = nodelay_ok [OF ep_nodelay(3)]
    have "snd_stream (e_hist e) k'" "mtu_ok 1400 k'" "k_conv k' = conv"
      using snd_stream_sub [OF E(4) n(2)] mtu_ok_sub [OF E(2) n(2)] n(2) E(3)
      by (simp_all add: snd_stream_def mtu_ok_def snd_sub_def cong: option.case_cong)
    then show ?thesis
      using ep_nodelay(1,2) n E by (simp add: ep_own_def ep_extends_same net_ok_def)
  next
    case (ep_wndsize rcvwnd sndwnd r k')
    note n = wndsize_ok [OF ep_wndsize(4,3)]
    show ?thesis using sub [OF n(1) [OF E(1)] n(2)] n(5) E(6) ep_wndsize(1,2)
      by (simp add: net_ok_def ep_extends_same)
  qed
qed

lemma ep_step_reads:
  assumes own: "ep_own conv e" and reads: "ep_reads P ms e" and net: "net_ok conv P net"
    and P: "length P \<le> 2 ^ 31" and step: "ep_step net e out e'"
  shows "ep_reads P ms e'"
proof -
  let ?k = "e_kcp e"
  have E: "kcp_ok ?k" "mtu_ok 1400 ?k" "k_conv ?k = conv" "snd_stream (e_hist e) ?k"
    "unat (k_ackcount ?k) < 2 ^ 29" "rcv_inv ?k"
    using own by (simp_all add: ep_own_def kcp_ok_def)
  obtain N n where R: "rcv_stream P N ?k" "msgs_at P ms n (rcv_taken N ?k)" "n \<le> length ms"
    "e_got e = take n ms"
    using reads by (auto simp: ep_reads_def)
  have keep: "ep_reads P ms e'" if "rcv_stream P N' (e_kcp e')" "rcv_taken N' (e_kcp e') = rcv_taken N ?k"
    "e_got e' = e_got e" for N'
    unfolding ep_reads_def using that R by (intro exI [of _ N'] exI [of _ n]) simp
  show ?thesis
    using step
  proof cases
    case (ep_send alloc b r k' hist')
    obtain q where "k' = ?k\<lparr>k_snd_queue := k_snd_queue ?k @ q, k_nsnd_que := k_nsnd_que k'\<rparr>"
      by (rule send_ok [OF E(1,2) ep_send(3-5)])
    then obtain x y where k': "k' = ?k\<lparr>k_snd_queue := x, k_nsnd_que := y\<rparr>" by blast
    have "rcv_stream P N k' = rcv_stream P N ?k" "rcv_taken N k' = rcv_taken N ?k"
      by (simp_all add: k' rcv_stream_def rcv_taken_def)
    then show ?thesis using ep_send(2) R(1) by (intro keep [of N]) simp_all
  next
    case (ep_recv len r out' k')
    show ?thesis
    proof (cases "0 \<le> r")
      case True
      obtain N' where N': "rcv_stream P N' k'" "n < length ms" "out' = ms ! n"
        "msgs_at P ms (Suc n) (rcv_taken N' k')"
        using recv_msg [OF E(6) R(1,2) ep_recv(4,3) True] by blast
      show ?thesis
        unfolding ep_reads_def using N' R(4) True ep_recv(2)
        by (intro exI [of _ N'] exI [of _ "Suc n"]) (simp add: take_Suc_conv_app_nth)
    next
      case False
      then have "k' = ?k" using recv_error [OF ep_recv(4)] by simp
      then show ?thesis using False ep_recv(2) R(1) by (intro keep [of N]) simp_all
    qed
  next
    case (ep_input d mem r k')
    obtain gs where "d = dgram gs" "\<forall>g \<in> set gs. wire_ok conv g \<and> from_stream P g"
      using net ep_input(3) by (auto simp: net_ok_def)
    then obtain N' where "rcv_stream P N' k'" "rcv_taken N' k' = rcv_taken N ?k"
      using input_reads [OF E(1) R(1) P E(3) _ _ ep_input(4,5)] by blast
    then show ?thesis using ep_input(2) by (intro keep [of N']) simp_all
  next
    case (ep_update t k' o')
    have m: "unat (k_ackcount ?k) < 2 ^ 31" using E(5) by simp
    note u = update_ok [OF E(1,2) m E(4) ep_update(3)]
    show ?thesis using ep_update(2) u(6,7) R(1) by (intro keep [of N]) (simp_all add: rcv_taken_def)
  next
    case (ep_nodelay nodelay interval fast nc r k')
    note n = nodelay_ok [OF ep_nodelay(3)]
    show ?thesis using ep_nodelay(2) n(3,4) R(1) by (intro keep [of N]) (simp_all add: rcv_taken_def)
  next
    case (ep_wndsize rcvwnd sndwnd r k')
    note n = wndsize_ok [OF ep_wndsize(4,3)]
    show ?thesis using ep_wndsize(2) n(3,4) R(1) by (intro keep [of N]) (simp_all add: rcv_taken_def)
  qed
qed

lemma ep_reads_extend:
  assumes "ep_reads (e_hist a) (e_sent a) b" "ep_extends a a'"
  shows "ep_reads (e_hist a') (e_sent a') b"
proof -
  obtain Q xs where x: "e_hist a' = e_hist a @ Q" "e_sent a' = e_sent a @ xs"
    "\<And>n t. msgs_at (e_hist a) (e_sent a) n t \<Longrightarrow> msgs_at (e_hist a') (e_sent a') n t"
    using assms(2) unfolding ep_extends_def by blast
  obtain N n where R: "rcv_stream (e_hist a) N (e_kcp b)"
    "msgs_at (e_hist a) (e_sent a) n (rcv_taken N (e_kcp b))" "n \<le> length (e_sent a)"
    "e_got b = take n (e_sent a)"
    using assms(1) by (auto simp: ep_reads_def)
  show ?thesis
    unfolding ep_reads_def
    using x(3) [OF R(2)] R(3,4) rcv_stream_extend [OF R(1), of Q]
    by (intro exI [of _ N] exI [of _ n]) (simp add: x(1,2))
qed

section \<open>Two endpoints\<close>

record sys =
  y_a :: endpoint
  y_b :: endpoint
  y_ab :: "u8 list set"
  y_ba :: "u8 list set"

definition ep_new :: "u32 \<Rightarrow> nat \<Rightarrow> endpoint \<Rightarrow> bool" where
  "ep_new conv user e \<longleftrightarrow>
     (case ikcp_create True True conv user of None \<Rightarrow> False
      | Some kcp \<Rightarrow> e = \<lparr>e_kcp = kcp, e_sent = [], e_hist = [], e_got = []\<rparr>)"

definition sys_init :: "u32 \<Rightarrow> sys \<Rightarrow> bool" where
  "sys_init conv s \<longleftrightarrow>
     (\<exists>u. ep_new conv u (y_a s)) \<and> (\<exists>u. ep_new conv u (y_b s)) \<and> y_ab s = {} \<and> y_ba s = {}"

inductive sys_step :: "sys \<Rightarrow> sys \<Rightarrow> bool" where
  step_a: "ep_step (y_ba s) (y_a s) out a' \<Longrightarrow> sys_step s (s\<lparr>y_a := a', y_ab := y_ab s \<union> out\<rparr>)"
| step_b: "ep_step (y_ab s) (y_b s) out b' \<Longrightarrow> sys_step s (s\<lparr>y_b := b', y_ba := y_ba s \<union> out\<rparr>)"

definition sys_inv :: "u32 \<Rightarrow> sys \<Rightarrow> bool" where
  "sys_inv conv s \<longleftrightarrow>
     ep_own conv (y_a s) \<and> ep_own conv (y_b s) \<and>
     ep_reads (e_hist (y_a s)) (e_sent (y_a s)) (y_b s) \<and>
     ep_reads (e_hist (y_b s)) (e_sent (y_b s)) (y_a s) \<and>
     net_ok conv (e_hist (y_a s)) (y_ab s) \<and> net_ok conv (e_hist (y_b s)) (y_ba s)"

text \<open>The interface of an invariant of a transition system, and what follows from it.\<close>

locale invariant =
  fixes init :: "'s \<Rightarrow> bool"
    and trans :: "'s \<Rightarrow> 's \<Rightarrow> bool"
    and good :: "'s \<Rightarrow> bool"
  assumes init_good: "init s \<Longrightarrow> good s"
    and trans_good: "good s \<Longrightarrow> trans s t \<Longrightarrow> good t"
begin

lemma run_good: "trans\<^sup>*\<^sup>* s t \<Longrightarrow> good s \<Longrightarrow> good t"
  by (induction rule: rtranclp_induct) (auto intro: trans_good)

lemma reach_good: "init s \<Longrightarrow> trans\<^sup>*\<^sup>* s t \<Longrightarrow> good t"
  using init_good run_good by blast

lemma reach_induct:
  assumes "init s" "trans\<^sup>*\<^sup>* s t" "P s"
    and "\<And>x y. good x \<Longrightarrow> P x \<Longrightarrow> trans x y \<Longrightarrow> P y"
  shows "P t"
  using assms(2,1,3)
proof (induction rule: rtranclp_induct)
  case (step y z)
  then show ?case using assms(4) reach_good by blast
qed

end

lemma ep_new_own:
  assumes "ep_new conv u e"
  shows "ep_own conv e" "e_hist e = []" "e_sent e = []" "e_got e = []"
    "ep_reads [] [] e"
proof -
  obtain k where k: "ikcp_create True True conv u = Some k"
    "e = \<lparr>e_kcp = k, e_sent = [], e_hist = [], e_got = []\<rparr>"
    using assms by (auto simp: ep_new_def split: option.splits)
  note d = k(1) [unfolded ikcp_create_def, simplified, symmetric]
  have "kcp_ok k" unfolding d kcp_ok_def
    by (simp add: snd_side rcv_inv_def ack_inv_def rto_ok_def ikcp_consts)
  moreover have "mtu_ok 1400 k" unfolding d by (simp add: mtu_ok_def ikcp_consts)
  moreover have "snd_stream [] k" "rcv_stream [] 0 k" "rcv_taken 0 k = 0" "k_conv k = conv" "k_ackcount k = 0"
    unfolding d by (simp_all add: snd_stream_def rcv_stream_def rcv_taken_def)
  ultimately show "ep_own conv e" "ep_reads [] [] e"
    by (auto simp: k(2) ep_own_def ep_reads_def msgs_at_Nil)
qed (use assms in \<open>auto simp: ep_new_def split: option.splits\<close>)

lemma sys_init_inv: "sys_init conv s \<Longrightarrow> sys_inv conv s"
  using ep_new_own by (fastforce simp: sys_init_def sys_inv_def net_ok_def)

lemma sys_step_inv:
  assumes inv: "sys_inv conv s" and step: "sys_step s t"
  shows "sys_inv conv t"
proof -
  have I: "ep_own conv (y_a s)" "ep_own conv (y_b s)"
    "ep_reads (e_hist (y_a s)) (e_sent (y_a s)) (y_b s)"
    "ep_reads (e_hist (y_b s)) (e_sent (y_b s)) (y_a s)"
    "net_ok conv (e_hist (y_a s)) (y_ab s)" "net_ok conv (e_hist (y_b s)) (y_ba s)"
    "length (e_hist (y_a s)) \<le> 2 ^ 31" "length (e_hist (y_b s)) \<le> 2 ^ 31"
    using inv by (auto simp: sys_inv_def ep_own_def)
  have ext: "net_ok conv (e_hist e') n" if "ep_extends e e'" "net_ok conv (e_hist e) n" for e e' n
    using that net_ok_extend by (auto simp: ep_extends_def)
  show ?thesis
    using step
  proof cases
    case (step_a out a')
    note o = ep_step_own [OF I(1) step_a(2)] and r = ep_step_reads [OF I(1,4,6,8) step_a(2)]
    then show ?thesis
      using I step_a(1) ext [of "y_a s" a'] ep_reads_extend [OF I(3), of a'] by (simp add: sys_inv_def net_ok_Un)
  next
    case (step_b out b')
    note o = ep_step_own [OF I(2) step_b(2)] and r = ep_step_reads [OF I(2,3,5,7) step_b(2)]
    then show ?thesis
      using I step_b(1) ext [of "y_b s" b'] ep_reads_extend [OF I(4), of b'] by (simp add: sys_inv_def net_ok_Un)
  qed
qed

interpretation sysi: invariant "sys_init conv" sys_step "sys_inv conv"
  by unfold_locales (rule sys_init_inv, assumption, rule sys_step_inv)

end
