(* ===== verification/No_Loss.thy ===== *)
theory No_Loss
  imports Endpoint
begin

text \<open>
  Nothing is lost: a fragment that has left the sender's queue stays in \<^verbatim>\<open>snd_buf\<close> until the receiver has
  it. What can take it from there are the \<^verbatim>\<open>una\<close> field of any segment and the number of an
  acknowledgement; both name only what the peer has received. The second part shows what follows for
  a sender with nothing in flight.
\<close>

section \<open>Received and in flight\<close>

definition received :: "ikcpcb \<Rightarrow> u32 \<Rightarrow> bool" where
  "received kcp sn \<longleftrightarrow> sn < k_rcv_nxt kcp \<or> sn \<in> s_sn ` set (k_rcv_buf kcp)"

definition in_flight :: "ikcpcb \<Rightarrow> u32 \<Rightarrow> bool" where
  "in_flight kcp sn \<longleftrightarrow> sn \<in> s_sn ` set (k_snd_buf kcp)"

definition covered :: "ikcpcb \<Rightarrow> ikcpcb \<Rightarrow> bool" where
  "covered a b \<longleftrightarrow> (\<forall>sn < k_snd_nxt a. in_flight a sn \<or> received b sn)"

definition acks_ok :: "ikcpcb \<Rightarrow> bool" where
  "acks_ok kcp \<longleftrightarrow> (\<forall>a \<in> set (acks kcp). received kcp (fst a))"

text \<open>\<open>good_ack b g\<close>: what the segment \<open>g\<close> acknowledges, the receiver \<open>b\<close> has.\<close>

definition good_ack :: "ikcpcb \<Rightarrow> iseg \<Rightarrow> bool" where
  "good_ack b g \<longleftrightarrow> s_una g \<le> k_rcv_nxt b \<and> (s_cmd g = IKCP_CMD_ACK \<longrightarrow> received b (s_sn g))"

definition rcv_grows :: "ikcpcb \<Rightarrow> ikcpcb \<Rightarrow> bool" where
  "rcv_grows k k' \<longleftrightarrow> k_rcv_nxt k \<le> k_rcv_nxt k' \<and> (\<forall>sn. received k sn \<longrightarrow> received k' sn)"

lemma rcv_grows_refl [simp]: "rcv_grows k k"
  by (simp add: rcv_grows_def)

lemma rcv_grows_trans [trans]: "rcv_grows a b \<Longrightarrow> rcv_grows b c \<Longrightarrow> rcv_grows a c"
  by (auto simp: rcv_grows_def intro: order_trans)

lemma rcv_grows_same: "k_rcv_nxt k' = k_rcv_nxt k \<Longrightarrow> k_rcv_buf k' = k_rcv_buf k \<Longrightarrow> rcv_grows k k'"
  by (simp add: rcv_grows_def received_def)

lemma good_ack_grows: "good_ack b g \<Longrightarrow> rcv_grows b b' \<Longrightarrow> good_ack b' g"
  by (auto simp: good_ack_def rcv_grows_def intro: order_trans)

lemma covered_grows: "covered a b \<Longrightarrow> rcv_grows b b' \<Longrightarrow> covered a b'"
  by (auto simp: covered_def rcv_grows_def)

lemma rcv_same_frames:
  "rcv_grows k (ikcp_ack_push mem k sn ts)" "rcv_grows k (ikcp_update_ack k rtt)"
  "rcv_grows k (ikcp_parse_ack k sn)" "rcv_grows k (ikcp_shrink_buf k)"
  "rcv_grows k (ikcp_parse_una k una)" "rcv_grows k (grow_cwnd k)"
  "rcv_grows k (k\<lparr>k_rmt_wnd := w\<rparr>)" "rcv_grows k (k\<lparr>k_probe := p\<rparr>)"
proof -
  show "rcv_grows k (ikcp_ack_push mem k sn ts)" by (subst ack_push_frame) (simp add: rcv_grows_same)
  show "rcv_grows k (ikcp_update_ack k rtt)" by (subst update_ack_frame) (simp add: rcv_grows_same)
  show "rcv_grows k (ikcp_parse_ack k sn)" by (subst parse_ack_frame) (simp add: rcv_grows_same)
  show "rcv_grows k (ikcp_shrink_buf k)" by (subst shrink_buf_frame) (simp add: rcv_grows_same)
  show "rcv_grows k (ikcp_parse_una k una)" by (subst parse_una_frame) (simp add: rcv_grows_same)
  show "rcv_grows k (grow_cwnd k)" by (subst grow_cwnd_frame) (simp add: rcv_grows_same)
qed (simp_all add: rcv_grows_same)

section \<open>The receiver\<close>

lemma rcv_move_grows:
  assumes inv: "rcv_inv k" and str: "rcv_stream P N k" and P: "length P \<le> 2 ^ 31"
  shows "rcv_grows k (rcv_move k)"
proof (rule rcv_move_offsets [OF inv])
  fix m
  let ?nxt = "k_rcv_nxt k" and ?buf = "k_rcv_buf k"
  assume le: "m \<le> length ?buf" and m31: "m \<le> 2 ^ 31"
    and m: "rcv_move k = k\<lparr>k_rcv_buf := drop m ?buf,
        k_nrcv_buf := k_nrcv_buf k - word_of_nat m,
        k_rcv_queue := k_rcv_queue k @ take m ?buf,
        k_nrcv_que := k_nrcv_que k + word_of_nat m,
        k_rcv_nxt := ?nxt + word_of_nat m\<rparr>"
    and sns: "\<And>i. i < m \<Longrightarrow> s_sn (?buf ! i) = ?nxt + word_of_nat i"
  have N: "?nxt = word_of_nat N" "N \<le> 2 ^ 31"
    "\<And>s. s \<in> set ?buf \<Longrightarrow> N + woff ?nxt (s_sn s) < length P"
    using str P by (auto simp: rcv_stream_def)
  have u: "unat ?nxt = N" using N(1,2) by (simp add: word_of_nat_eq_32)
  have room: "N + i < 2 ^ 31" if "i < m" for i
  proof -
    have "woff ?nxt (s_sn (?buf ! i)) = i"
      using sns [OF that] that m31 by (simp add: woff_plus word_of_nat_eq_32)
    then show ?thesis using N(3) [of "?buf ! i"] that le P by simp
  qed
  have plus: "unat (?nxt + word_of_nat i) = N + i" if "i \<le> m" for i
  proof -
    have "N + i \<le> 2 ^ 31" using room [of "i - 1"] that N(2) by (cases i) auto
    then show ?thesis using u by (simp add: unat_plus_32 word_of_nat_eq_32)
  qed
  have nxt: "?nxt \<le> ?nxt + word_of_nat m"
    using plus [of m] u by (simp add: word_le_nat_alt)
  have "received (rcv_move k) sn" if r: "received k sn" for sn
  proof (cases "sn < ?nxt")
    case True
    show ?thesis using less_le_trans [OF True nxt] by (simp add: received_def m)
  next
    case False
    then obtain i where i: "i < length ?buf" "sn = s_sn (?buf ! i)"
      using r unfolding received_def by (metis imageE in_set_conv_nth)
    show ?thesis
    proof (cases "i < m")
      case True
      then have "sn < ?nxt + word_of_nat m"
        using sns [of i] i(2) plus [of i] plus [of m] by (simp add: word_less_nat_alt)
      then show ?thesis by (simp add: received_def m)
    next
      case False
      then have "?buf ! i \<in> set (drop m ?buf)"
        using i(1) by (auto simp: in_set_conv_nth intro!: exI [of _ "i - m"])
      then show ?thesis using i(2) by (simp add: received_def m)
    qed
  qed
  then show ?thesis using nxt by (simp add: rcv_grows_def m)
qed

lemma rcv_store_grows: "rcv_grows k (rcv_store k s)" "received (rcv_store k s) (s_sn s)"
  by (auto simp: rcv_grows_def received_def rcv_store_def set_insort_key)

lemma parse_data_grows:
  assumes inv: "rcv_inv k" and str: "rcv_stream P N k" and P: "length P \<le> 2 ^ 31" and s: "seg_ok s"
    and at: "in_rcv_window k (s_sn s) \<Longrightarrow> N + woff (k_rcv_nxt k) (s_sn s) < length P \<and>
      payload s = P ! (N + woff (k_rcv_nxt k) (s_sn s))"
  shows "rcv_grows k (ikcp_parse_data k s)"
    and "in_rcv_window k (s_sn s) \<Longrightarrow> received (ikcp_parse_data k s) (s_sn s)"
proof -
  have w: "rcv_grows (rcv_store k s) (rcv_move (rcv_store k s))" if "in_rcv_window k (s_sn s)"
    using that at [OF that] rcv_store_inv [OF inv that s] rcv_store_stream(1) [OF str] P
    by (intro rcv_move_grows) auto
  show "rcv_grows k (ikcp_parse_data k s)"
    using w rcv_store_grows(1) [of k s] by (auto simp: parse_data_eq [OF inv] intro: rcv_grows_trans)
  show "received (ikcp_parse_data k s) (s_sn s)" if "in_rcv_window k (s_sn s)"
    using w [OF that] rcv_store_grows(2) [of k s] that
    by (simp add: parse_data_eq [OF inv] rcv_grows_def)
qed

section \<open>Input at the receiver\<close>

lemma itimediff_neg_less:
  assumes "itimediff x y < 0" "unat x < 2 ^ 31" "unat y \<le> 2 ^ 31"
  shows "x < y"
proof (rule ccontr)
  assume "\<not> x < y"
  then have "unat y \<le> unat x" by (simp add: word_less_nat_alt)
  moreover have "unat (x - y) < 2 ^ 31" using calculation assms(2) by (simp add: unat_diff_32)
  ultimately show False using assms(1) sint_neg_32 [of "x - y"] by (simp add: itimediff_def)
qed

lemma itimediff_pos_less:
  assumes "0 < itimediff x y" "unat y < 2 ^ 31" "unat x \<le> 2 ^ 31"
  shows "y < x"
proof (rule ccontr)
  assume n: "\<not> y < x"
  then have le: "unat x \<le> unat y" by (simp add: word_less_nat_alt)
  have "0 < unat (x - y)" "unat (x - y) < 2 ^ 31"
    using assms(1) unfolding itimediff_def sint_pos_32 by blast+
  moreover have "unat (x - y) = (if unat y \<le> unat x then unat x - unat y else unat x + 4294967296 - unat y)"
    by (rule unat_diff_32)
  ultimately show False using le assms(2) by (cases "unat y \<le> unat x") simp_all
qed

lemma acks_frames [simp]:
  "acks (ikcp_parse_data k s) = acks k" "acks (ikcp_update_ack k rtt) = acks k"
  "acks (ikcp_parse_ack k sn) = acks k" "acks (ikcp_shrink_buf k) = acks k"
  "acks (ikcp_parse_una k una) = acks k" "acks (grow_cwnd k) = acks k"
  "acks (k\<lparr>k_rmt_wnd := w\<rparr>) = acks k" "acks (k\<lparr>k_probe := p\<rparr>) = acks k"
proof -
  show "acks (ikcp_parse_data k s) = acks k" by (subst parse_data_frame) (rule acks_cong, simp_all)
  show "acks (ikcp_update_ack k rtt) = acks k" by (subst update_ack_frame) (rule acks_cong, simp_all)
  show "acks (ikcp_parse_ack k sn) = acks k" by (subst parse_ack_frame) (rule acks_cong, simp_all)
  show "acks (ikcp_shrink_buf k) = acks k" by (subst shrink_buf_frame) (rule acks_cong, simp_all)
  show "acks (ikcp_parse_una k una) = acks k" by (subst parse_una_frame) (rule acks_cong, simp_all)
  show "acks (grow_cwnd k) = acks k" by (subst grow_cwnd_frame) (rule acks_cong, simp_all)
qed (rule acks_cong, simp, simp)+

lemma acks_ok_grows: "acks_ok k \<Longrightarrow> rcv_grows k k' \<Longrightarrow> acks k' = acks k \<Longrightarrow> acks_ok k'"
  by (auto simp: acks_ok_def rcv_grows_def)

lemma input_push_grows:
  assumes inv: "kcp_ok k" "rcv_stream P N k" and P: "length P \<le> 2 ^ 31"
    and s: "wire_ok conv s" "from_stream P s" "s_cmd s = IKCP_CMD_PUSH"
    and n: "unat (k_ackcount k) < 2 ^ 29" and acks: "acks_ok k"
  shows "rcv_grows k (input_push mem k (hdr_of_seg s) (s_data s))"
    and "acks_ok (input_push mem k (hdr_of_seg s) (s_data s))"
    and "itimediff (s_sn s) (k_rcv_nxt k + k_rcv_wnd k) < 0 \<Longrightarrow>
      received (input_push mem k (hdr_of_seg s) (s_data s)) (s_sn s)"
proof -
  let ?h = "hdr_of_seg s" and ?k = "ikcp_ack_push mem k (s_sn s) (s_ts s)"
  let ?s = "(fresh_seg mem)\<lparr>s_conv := h_conv ?h, s_cmd := ucast (h_cmd ?h), s_frg := ucast (h_frg ?h),
     s_wnd := ucast (h_wnd ?h), s_ts := h_ts ?h, s_sn := h_sn ?h, s_una := h_una ?h,
     s_len := h_len ?h, s_data := take (unat (h_len ?h)) (s_data s)\<rparr>"
  let ?r = "input_push mem k ?h (s_data s)"
  have sn: "s_sn ?s = s_sn s" by (simp add: hdr_of_seg_def)
  have ok: "seg_ok ?s" and pay: "payload ?s = payload s"
    using s(1) by (simp_all add: wire_ok_def seg_frg_ok_def seg_ok_def payload_def hdr_of_seg_def ucast_frg)
  have kinv: "rcv_inv k" "ack_inv k" using inv(1) by (simp_all add: kcp_ok_def)
  obtain i where i: "i < length P" "s_sn s = word_of_nat i" "payload s = P ! i"
    using s by (auto simp: from_stream_def)
  have same: "k_rcv_nxt ?k = k_rcv_nxt k" "k_rcv_wnd ?k = k_rcv_wnd k" "k_rcv_buf ?k = k_rcv_buf k"
    by (subst ack_push_frame, simp)+
  have N: "N \<le> length P" "k_rcv_nxt k = word_of_nat N" using inv(2) by (auto simp: rcv_stream_def)
  have bounds: "unat (s_sn s) < 2 ^ 31" "unat (k_rcv_nxt k) \<le> 2 ^ 31"
    using i(1,2) N P by (simp_all add: word_of_nat_eq_32)
  have at: "N + woff (k_rcv_nxt ?k) (s_sn ?s) < length P \<and>
      payload ?s = P ! (N + woff (k_rcv_nxt ?k) (s_sn ?s))" if "in_rcv_window ?k (s_sn ?s)"
  proof -
    have "unat (k_rcv_wnd ?k) < 2 ^ 31" using rcv_invD(7) [of ?k] kinv(1) by simp
    then have "woff (k_rcv_nxt ?k) (s_sn s) < 2 ^ 31" using that unfolding in_rcv_window_def sn by linarith
    then have "N + woff (k_rcv_nxt ?k) (s_sn s) = i"
      using woff_of_nat [OF N(1) i(1) P] N(2) i(2) same(1) by metis
    then show ?thesis using i pay sn by simp
  qed
  have inv': "rcv_inv ?k" "rcv_stream P N ?k" using kinv(1) inv(2) by simp_all
  note p = parse_data_grows [OF inv' P ok at]
  have g0: "rcv_grows k ?k" by (rule rcv_same_frames)
  have a: "acks ?k = acks k @ [(s_sn s, s_ts s)]" by (rule ack_push_acks(1) [OF kinv(2) n])
  have h: "h_sn ?h = s_sn s" "h_ts ?h = s_ts s" by (simp_all add: hdr_of_seg_def)
  have r: "?r = (if itimediff (s_sn s) (k_rcv_nxt k + k_rcv_wnd k) < 0 then
      if itimediff (s_sn s) (k_rcv_nxt k) \<ge> 0 then ikcp_parse_data ?k ?s else ?k else k)"
    unfolding input_push_def Let_def h same ..
  show g: "rcv_grows k ?r" unfolding r using g0 p(1) by (auto intro: rcv_grows_trans)
  show rec: "received ?r (s_sn s)" if w: "itimediff (s_sn s) (k_rcv_nxt k + k_rcv_wnd k) < 0"
  proof (cases "itimediff (s_sn s) (k_rcv_nxt k) \<ge> 0")
    case True
    have "in_rcv_window ?k (s_sn ?s)"
      using w True rcv_invD(7) [OF inv'(1)] unfolding in_rcv_window_iff [OF rcv_invD(7) [OF inv'(1)]] sn same by simp
    then show ?thesis using p(2) True w unfolding r sn by simp
  next
    case False
    then have "s_sn s < k_rcv_nxt k" using bounds by (intro itimediff_neg_less) simp_all
    then show ?thesis using False w unfolding r by (simp add: received_def same)
  qed
  have acks_r: "acks ?r = (if itimediff (s_sn s) (k_rcv_nxt k + k_rcv_wnd k) < 0
      then acks k @ [(s_sn s, s_ts s)] else acks k)"
    unfolding r using a by simp
  show "acks_ok ?r" unfolding acks_ok_def acks_r
    using g rec acks by (auto simp: acks_ok_def rcv_grows_def split: if_splits)
qed

lemma input_seg_grows:
  assumes inv: "kcp_ok k" "rcv_stream P N k" and P: "length P \<le> 2 ^ 31"
    and s: "wire_ok conv s" "from_stream P s"
    and n: "unat (k_ackcount k) < 2 ^ 29" and acks: "acks_ok k"
  shows "rcv_grows k (input_seg mem k (hdr_of_seg s) (s_data s)) \<and>
    acks_ok (input_seg mem k (hdr_of_seg s) (s_data s))"
proof -
  let ?h = "hdr_of_seg s"
  define j where "j = ikcp_shrink_buf (ikcp_parse_una (k\<lparr>k_rmt_wnd := ucast (h_wnd ?h)\<rparr>) (h_una ?h))"
  have g: "rcv_grows k j"
    unfolding j_def by (rule rcv_grows_trans [OF rcv_same_frames(7) rcv_grows_trans [OF rcv_same_frames(5,4)]])
  have a: "acks j = acks k" by (simp add: j_def)
  have aj: "acks_ok j" using acks g a by (rule acks_ok_grows)
  have "snd_win k" using inv(1) by (simp add: kcp_ok_def snd_inv_def)
  then have "snd_inv j" unfolding j_def by (rule input_una_snd)
  then have J: "kcp_ok j" "rcv_stream P N j" "unat (k_ackcount j) < 2 ^ 29"
    using inv n by (simp_all add: kcp_ok_def j_def)
  have cmd: "ucast (h_cmd ?h) = s_cmd s" using wire_ok_cmd [OF s(1)] by (simp add: hdr_of_seg_def)
  show ?thesis
  proof (cases "s_cmd s = IKCP_CMD_PUSH")
    case True
    then have "input_seg mem k ?h (s_data s) = input_push mem j ?h (s_data s)"
      unfolding input_seg_def Let_def j_def [symmetric] cmd by (simp add: ikcp_consts)
    then show ?thesis
      using input_push_grows(1,2) [OF J(1,2) P s True J(3) aj] g by (auto intro: rcv_grows_trans)
  next
    case False
    let ?r = "input_seg mem k ?h (s_data s)"
    have "rcv_grows j (input_ack j ?h)"
      unfolding input_ack_def Let_def
      by (auto intro: rcv_grows_trans [OF rcv_same_frames(2) rcv_grows_trans [OF rcv_same_frames(3,4)]]
          rcv_grows_trans [OF rcv_same_frames(3,4)])
    then have "rcv_grows j ?r \<and> acks ?r = acks j"
      unfolding input_seg_def Let_def j_def [symmetric] cmd using False rcv_same_frames(8) [of j]
      by (simp add: input_ack_def Let_def)
    then show ?thesis using acks_ok_grows [OF aj] g by (auto intro: rcv_grows_trans)
  qed
qed

lemma input_segs_grows:
  assumes "kcp_ok k" "rcv_stream P N k" "length P \<le> 2 ^ 31"
    and "\<forall>g \<in> set gs. wire_ok conv g \<and> from_stream P g"
    and "unat (k_ackcount k) + length gs < 2 ^ 29" "acks_ok k"
  shows "rcv_grows k (input_segs mem k gs) \<and> acks_ok (input_segs mem k gs)"
  using assms
proof (induction gs arbitrary: k N)
  case (Cons g gs)
  let ?k = "input_seg (mem (length (dgram (g # gs)))) k (hdr_of_seg g) (s_data g)"
  have g: "wire_ok conv g" "from_stream P g" using Cons.prems(4) by auto
  have len: "unat (h_len (hdr_of_seg g)) \<le> length (s_data g)"
    using g(1) by (simp add: wire_ok_def seg_frg_ok_def seg_ok_def hdr_of_seg_def)
  have c: "unat (k_ackcount k) < 2 ^ 29" using Cons.prems(5) by simp
  note ok = input_seg_ok [OF Cons.prems(1) len c]
  have inv: "rcv_inv k" using Cons.prems(1) by (simp add: kcp_ok_def)
  obtain N1 where N1: "rcv_stream P N1 ?k"
    using input_seg_stream [OF inv Cons.prems(2,3) g] by blast
  have "unat (k_ackcount ?k) + length gs < 2 ^ 29"
    using ok [of "mem (length (dgram (g # gs)))"] Cons.prems(5) by simp
  then have "rcv_grows ?k (input_segs mem ?k gs) \<and> acks_ok (input_segs mem ?k gs)"
    using Cons.IH [of ?k N1] ok N1 Cons.prems(3,4)
      input_seg_grows [OF Cons.prems(1-3) g c Cons.prems(6)] by auto
  then show ?case
    using input_seg_grows [OF Cons.prems(1-3) g c Cons.prems(6)] by (auto intro: rcv_grows_trans)
qed simp

lemma input_result:
  assumes "\<forall>g \<in> set gs. wire_ok (k_conv k) g" "ikcp_input mem k (Some (dgram gs)) = (r, k')"
  shows "r = 0 \<and> (k' = input_segs mem k gs \<or> k' = grow_cwnd (input_segs mem k gs))"
proof -
  have l: "input_loop mem k (dgram gs) = (0, input_segs mem k gs)" using assms(1) by (rule input_loop_dgram)
  then show ?thesis using assms(2) ikcp_input_eq [OF l] by (auto simp: Let_def split: if_splits)
qed

lemma input_grows:
  assumes "kcp_ok k" "rcv_stream P N k" "length P \<le> 2 ^ 31" "acks_ok k"
    and gs: "\<forall>g \<in> set gs. wire_ok (k_conv k) g \<and> from_stream P g"
    and n: "unat (k_ackcount k) + length (dgram gs) < 2 ^ 29"
    and i: "ikcp_input mem k (Some (dgram gs)) = (r, k')"
  shows "rcv_grows k k' \<and> acks_ok k'"
proof -
  have "unat (k_ackcount k) + length gs < 2 ^ 29" using n length_dgram [of gs] by simp
  note g = input_segs_grows [OF assms(1-3) gs this assms(4), of mem]
  have w: "rcv_grows (input_segs mem k gs) (grow_cwnd (input_segs mem k gs))" by (rule rcv_same_frames)
  have "k' = input_segs mem k gs \<or> k' = grow_cwnd (input_segs mem k gs)"
    using input_result [OF _ i] gs by blast
  then show ?thesis using g w acks_ok_grows [OF _ w] by (auto intro: rcv_grows_trans)
qed

section \<open>Input at the sender\<close>

lemma flight_frames [simp]:
  "k_snd_buf (ikcp_parse_data k s) = k_snd_buf k" "k_snd_buf (ikcp_ack_push mem k sn ts) = k_snd_buf k"
  "k_snd_buf (ikcp_update_ack k rtt) = k_snd_buf k" "k_snd_buf (ikcp_shrink_buf k) = k_snd_buf k"
  "k_snd_buf (grow_cwnd k) = k_snd_buf k"
proof -
  show "k_snd_buf (ikcp_parse_data k s) = k_snd_buf k" by (subst parse_data_frame) simp
  show "k_snd_buf (ikcp_ack_push mem k sn ts) = k_snd_buf k" by (subst ack_push_frame) simp
  show "k_snd_buf (ikcp_update_ack k rtt) = k_snd_buf k" by (subst update_ack_frame) simp
  show "k_snd_buf (ikcp_shrink_buf k) = k_snd_buf k" by (subst shrink_buf_frame) simp
  show "k_snd_buf (grow_cwnd k) = k_snd_buf k" by (subst grow_cwnd_frame) simp
qed

lemma parse_una_keeps:
  assumes "in_flight k sn" "unat sn < 2 ^ 31" "unat una \<le> 2 ^ 31"
  shows "in_flight (ikcp_parse_una k una) sn \<or> sn < una"
proof -
  let ?P = "\<lambda>s. itimediff una (s_sn s) > 0"
  obtain s where s: "s \<in> set (k_snd_buf k)" "sn = s_sn s" using assms(1) by (auto simp: in_flight_def)
  then have "s \<in> set (takeWhile ?P (k_snd_buf k)) \<or> s \<in> set (dropWhile ?P (k_snd_buf k))"
    by (metis UnE set_append takeWhile_dropWhile_id)
  then show ?thesis
  proof
    assume "s \<in> set (takeWhile ?P (k_snd_buf k))"
    from set_takeWhileD [OF this] have "itimediff una (s_sn s) > 0" by (rule conjunct2)
    then have "s_sn s < una" using assms(2,3) unfolding s(2) by (rule itimediff_pos_less)
    then show ?thesis unfolding s(2) ..
  next
    assume "s \<in> set (dropWhile ?P (k_snd_buf k))"
    then show ?thesis using s(2) by (simp add: in_flight_def parse_una_eq)
  qed
qed

lemma parse_ack_keeps:
  assumes "in_flight k sn"
  shows "in_flight (ikcp_parse_ack k x) sn \<or> sn = x"
proof -
  have "sn \<in> s_sn ` set (fst (parse_ack_loop x buf)) \<or> sn = x" if "sn \<in> s_sn ` set buf" for buf
    using that by (induction buf) (auto simp: split_beta split: if_splits)
  then show ?thesis using assms by (auto simp: in_flight_def ikcp_parse_ack_def split_beta)
qed

lemma input_seg_covered:
  assumes cov: "covered k b" and ack: "good_ack b s" and s: "wire_ok conv s"
    and nxt: "unat (k_snd_nxt k) \<le> 2 ^ 31" "unat (k_rcv_nxt b) \<le> 2 ^ 31"
  shows "covered (input_seg mem k (hdr_of_seg s) (s_data s)) b"
proof -
  let ?h = "hdr_of_seg s" and ?r = "input_seg mem k (hdr_of_seg s) (s_data s)"
  define j where "j = ikcp_shrink_buf (ikcp_parse_una (k\<lparr>k_rmt_wnd := ucast (h_wnd ?h)\<rparr>) (h_una ?h))"
  have una: "h_una ?h = s_una s" "h_sn ?h = s_sn s" by (simp_all add: hdr_of_seg_def)
  have cmd: "ucast (h_cmd ?h) = s_cmd s" using wire_ok_cmd [OF s] by (simp add: hdr_of_seg_def)
  have u: "unat (s_una s) \<le> 2 ^ 31" "s_una s \<le> k_rcv_nxt b"
    using ack nxt(2) by (auto simp: good_ack_def word_le_nat_alt)
  have fj: "in_flight j = in_flight (ikcp_parse_una (k\<lparr>k_rmt_wnd := ucast (h_wnd ?h)\<rparr>) (s_una s))"
    by (simp add: j_def una in_flight_def fun_eq_iff)
  have J: "in_flight j sn \<or> received b sn" if sn: "sn < k_snd_nxt k" for sn
  proof -
    have b: "unat sn < 2 ^ 31" using sn nxt(1) by (simp add: word_less_nat_alt)
    consider "in_flight k sn" | "received b sn" using cov sn unfolding covered_def by blast
    then show ?thesis
    proof cases
      case 1
      then have "in_flight (k\<lparr>k_rmt_wnd := ucast (h_wnd ?h)\<rparr>) sn" by (simp add: in_flight_def)
      from parse_una_keeps [OF this b u(1)] consider "in_flight j sn" | "sn < s_una s"
        by (auto simp: fj)
      then show ?thesis using less_le_trans [OF _ u(2)] by cases (auto simp: received_def)
    qed simp
  qed
  have R: "in_flight ?r sn \<or> received b sn" if sn: "in_flight j sn" for sn
  proof (cases "s_cmd s = IKCP_CMD_ACK")
    case True
    then have r: "?r = input_ack j ?h"
      unfolding input_seg_def Let_def j_def [symmetric] cmd by simp
    define i where "i = (if itimediff (k_current j) (h_ts ?h) \<ge> 0
      then ikcp_update_ack j (itimediff (k_current j) (h_ts ?h)) else j)"
    have i: "?r = ikcp_shrink_buf (ikcp_parse_ack i (s_sn s))" "in_flight i = in_flight j"
      unfolding r input_ack_def Let_def una i_def by (simp_all add: in_flight_def fun_eq_iff)
    have "in_flight ?r = in_flight (ikcp_parse_ack i (s_sn s))" by (simp add: i(1) in_flight_def fun_eq_iff)
    then show ?thesis using parse_ack_keeps [of i sn "s_sn s"] sn i(2) ack True by (auto simp: good_ack_def)
  next
    case False
    then have "k_snd_buf ?r = k_snd_buf j"
      unfolding input_seg_def Let_def j_def [symmetric] cmd by (simp add: input_push_def Let_def)
    then show ?thesis using sn by (simp add: in_flight_def)
  qed
  have "k_snd_nxt ?r = k_snd_nxt k" using input_seg_sub [of mem k ?h "s_data s"] by (simp add: snd_sub_def)
  then show ?thesis using J R by (auto simp: covered_def)
qed

lemma input_segs_covered:
  assumes "covered k b" "\<forall>g \<in> set gs. wire_ok conv g \<and> good_ack b g"
    and "unat (k_snd_nxt k) \<le> 2 ^ 31" "unat (k_rcv_nxt b) \<le> 2 ^ 31"
  shows "covered (input_segs mem k gs) b"
  using assms
proof (induction gs arbitrary: k)
  case (Cons g gs)
  let ?k = "input_seg (mem (length (dgram (g # gs)))) k (hdr_of_seg g) (s_data g)"
  have "k_snd_nxt ?k = k_snd_nxt k" using input_seg_sub by (simp add: snd_sub_def)
  moreover have "covered ?k b"
    using Cons.prems by (intro input_seg_covered [where conv = conv]) auto
  ultimately show ?case using Cons by simp
qed simp

section \<open>The flush\<close>

lemma update_cases:
  assumes "kcp_ok k" "mtu_ok M k" "unat (k_ackcount k) < 2 ^ 31" "ikcp_update k t = (k', out)"
  obtains x y c where "c = k\<lparr>k_current := t, k_updated := x, k_ts_flush := y\<rparr>" "kcp_ok c" "mtu_ok M c"
    "\<not> snd (update_clock k t)" "k' = c" "out = []"
  | x y c gss where "c = k\<lparr>k_current := t, k_updated := x, k_ts_flush := y\<rparr>" "kcp_ok c" "mtu_ok M c"
    "snd (update_clock k t)" "k' = flush_kcp c" "out = map dgram gss" "concat gss = flush_sent c"
    "\<forall>g \<in> set gss. g \<noteq> [] \<and> length (dgram g) \<le> M"
proof -
  let ?c = "fst (update_clock k t)"
  obtain x y where c: "?c = k\<lparr>k_current := t, k_updated := x, k_ts_flush := y\<rparr>"
    using update_clock_frame [of k t] by blast
  have C: "kcp_ok ?c" "mtu_ok M ?c" "unat (k_ackcount ?c) < 2 ^ 31"
    using assms(1-3) by (simp_all add: c clock_fields)
  have u: "ikcp_update k t = (if snd (update_clock k t) then ikcp_flush ?c else (?c, []))"
    by (simp add: ikcp_update_def split_beta)
  show thesis
  proof (cases "snd (update_clock k t)")
    case False
    then show thesis using that(1) [OF c C(1,2)] assms(4) u by simp
  next
    case True
    obtain gss where g: "ikcp_flush ?c = (flush_kcp ?c, map dgram gss)" "concat gss = flush_sent ?c"
      "\<forall>g \<in> set gss. g \<noteq> [] \<and> length (dgram g) \<le> M"
      using flush_eq [OF C(1,2) update_clock_updated C(3)] .
    then show thesis using that(2) [OF c C(1,2) True _ _ g(2,3)] assms(4) u True by simp
  qed
qed

lemma consec_numbers:
  assumes "consec n xs"
  shows "x \<in> s_sn ` set xs \<longleftrightarrow> (\<exists>i < length xs. x = n + word_of_nat i)"
proof -
  have "s_sn ` set xs = (\<lambda>i. s_sn (xs ! i)) ` {..<length xs}"
    by (auto simp: in_set_conv_nth intro!: imageI nth_mem)
  also have "\<dots> = (\<lambda>i. n + word_of_nat i) ` {..<length xs}"
    by (intro image_cong) (simp_all add: consec_nth [OF assms])
  finally show ?thesis by auto
qed

lemma flush_in_flight:
  assumes "kcp_ok c"
  shows "in_flight (flush_kcp c) sn \<longleftrightarrow> in_flight c sn \<or>
    (\<exists>i < moved (flush_window c) c. sn = k_snd_nxt c + word_of_nat i)"
proof -
  let ?m = "moved (flush_window c) c"
  let ?new = "stamp_all (heads_kcp c) (k_current c) (word_of_int (ikcp_wnd_unused c)) (k_snd_nxt c)
    (take ?m (k_snd_queue c))"
  have l: "length ?new = ?m" by (simp add: moved_def)
  have "k_snd_buf (flush_kcp c) = map (flush_resend c) (k_snd_buf c @ ?new)"
    by (rule flush_kcp_frame [OF assms]) (simp add: flush_moved_eq [OF assms])
  then have "in_flight (flush_kcp c) sn \<longleftrightarrow> in_flight c sn \<or> sn \<in> s_sn ` set ?new"
    by (simp add: in_flight_def image_Un image_image flush_resend_def)
  moreover have "sn \<in> s_sn ` set ?new \<longleftrightarrow> (\<exists>i < ?m. sn = k_snd_nxt c + word_of_nat i)"
    using consec_numbers [OF consec_stamp_all] l by simp
  ultimately show ?thesis by simp
qed

lemma flush_covered:
  assumes ok: "kcp_ok c" and str: "snd_stream H c" "length H \<le> 2 ^ 31" and cov: "covered c b"
  shows "covered (flush_kcp c) b"
proof -
  let ?m = "moved (flush_window c) c"
  obtain n where n: "n + length (k_snd_queue c) = length H" "k_snd_nxt c = word_of_nat n"
    using str(1) by (auto simp: snd_stream_def)
  have m: "n + ?m \<le> 2 ^ 31" using n(1) str(2) by (simp add: moved_def)
  have nxt: "k_snd_nxt (flush_kcp c) = word_of_nat (n + ?m)"
    by (rule flush_kcp_frame [OF ok]) (simp add: n(2))
  have "in_flight (flush_kcp c) sn \<or> received b sn" if sn: "sn < word_of_nat (n + ?m)" for sn
  proof (cases "sn < k_snd_nxt c")
    case True
    then show ?thesis using cov by (auto simp: covered_def flush_in_flight [OF ok])
  next
    case False
    have "n \<le> unat sn" "unat sn < n + ?m"
      using False sn m by (simp_all add: n(2) word_less_nat_alt word_of_nat_eq_32 del: of_nat_add)
    then have "sn = k_snd_nxt c + word_of_nat (unat sn - n)" "unat sn - n < ?m"
      by (simp_all add: n(2) of_nat_diff)
    then show ?thesis by (auto simp: flush_in_flight [OF ok])
  qed
  then show ?thesis by (simp add: covered_def nxt del: of_nat_add)
qed

lemma flush_good_ack:
  assumes ok: "kcp_ok c" and acks: "acks_ok c" and g: "g \<in> set (flush_sent c)"
  shows "good_ack c g \<and> s_una g = k_rcv_nxt c"
proof -
  let ?F = "flush_moved c"
  have p: "s_una (probe_hdr c) = k_rcv_nxt c" by (simp add: probe_hdr_def ack_seg_def split_beta flush_hdr_def)
  have "s_cmd t = IKCP_CMD_PUSH" if "t \<in> set (k_snd_buf ?F)" for t
    using flush_moved_inv [OF ok] snd_winD(8) [of ?F t] that by (simp add: snd_inv_def)
  moreover have "k_rcv_nxt ?F = k_rcv_nxt c"
    by (simp add: flush_moved_eq [OF ok]) (rule heads_kcp_frame [of c], simp)
  ultimately have d: "s_cmd (flush_resend c t) = IKCP_CMD_PUSH \<and> s_una (flush_resend c t) = k_rcv_nxt c"
    if "t \<in> set (k_snd_buf ?F)" "sending (k_current c) (flush_resent c) t" for t
    using that by (simp add: flush_resend_def) (simp add: resend_def)
  have "g \<in> ack_seg c ` set (acks c) \<or> g \<in> set (probe_segs c) \<or>
      (\<exists>t \<in> set (k_snd_buf ?F). sending (k_current c) (flush_resent c) t \<and> g = flush_resend c t)"
    using g by (auto simp: flush_sent_def head_segs_def)
  then show ?thesis
  proof (elim disjE bexE imageE conjE)
    fix a assume "g = ack_seg c a" "a \<in> set (acks c)"
    then show ?thesis using acks by (simp add: good_ack_def ack_seg_def split_beta flush_hdr_def acks_ok_def)
  next
    assume "g \<in> set (probe_segs c)"
    then show ?thesis using p by (auto simp: probe_segs_def Let_def good_ack_def ikcp_consts split: if_splits)
  next
    fix t assume "t \<in> set (k_snd_buf ?F)" "sending (k_current c) (flush_resent c) t" "g = flush_resend c t"
    then show ?thesis using d [of t] by (simp add: good_ack_def ikcp_consts)
  qed
qed

section \<open>The invariant of a direction\<close>

text \<open>\<open>no_loss conv a b net\<close>: the direction from \<open>a\<close> to \<open>b\<close>, with the datagrams \<open>net\<close> that go back.\<close>

definition acks_sound :: "u32 \<Rightarrow> ikcpcb \<Rightarrow> u8 list set \<Rightarrow> bool" where
  "acks_sound conv b net \<longleftrightarrow>
     (\<forall>d \<in> net. \<exists>gs. d = dgram gs \<and> (\<forall>g \<in> set gs. wire_ok conv g \<and> good_ack b g))"

definition no_loss :: "u32 \<Rightarrow> endpoint \<Rightarrow> endpoint \<Rightarrow> u8 list set \<Rightarrow> bool" where
  "no_loss conv a b net \<longleftrightarrow>
     covered (e_kcp a) (e_kcp b) \<and> acks_ok (e_kcp b) \<and> acks_sound conv (e_kcp b) net"

lemma acks_sound_grows: "acks_sound conv b net \<Longrightarrow> rcv_grows b b' \<Longrightarrow> acks_sound conv b' net"
  unfolding acks_sound_def using good_ack_grows by meson

lemma acks_sound_Un: "acks_sound conv b (m \<union> n) \<longleftrightarrow> acks_sound conv b m \<and> acks_sound conv b n"
  by (auto simp: acks_sound_def)

lemma no_loss_same:
  assumes "no_loss conv a b net" "k_snd_nxt (e_kcp a') = k_snd_nxt (e_kcp a)"
    and "k_snd_buf (e_kcp a') = k_snd_buf (e_kcp a)"
  shows "no_loss conv a' b net"
  using assms by (simp add: no_loss_def covered_def in_flight_def)

text \<open>A step of the sender.\<close>

lemma no_loss_sender:
  assumes own: "ep_own conv a" and loss: "no_loss conv a b net" and b: "unat (k_rcv_nxt (e_kcp b)) \<le> 2 ^ 31"
    and step: "ep_step net a out a'"
  shows "no_loss conv a' b net"
proof -
  let ?k = "e_kcp a"
  have E: "kcp_ok ?k" "mtu_ok 1400 ?k" "k_conv ?k = conv" "snd_stream (e_hist a) ?k"
    "length (e_hist a) \<le> 2 ^ 31" "unat (k_ackcount ?k) < 2 ^ 31"
    using own by (auto simp: ep_own_def)
  have nxt: "unat (k_snd_nxt ?k) \<le> 2 ^ 31" using E(4,5) by (auto simp: snd_stream_def word_of_nat_eq_32)
  have cov: "covered ?k (e_kcp b)" and rest: "acks_ok (e_kcp b)" "acks_sound conv (e_kcp b) net"
    using loss by (auto simp: no_loss_def)
  show ?thesis
    using step
  proof cases
    case (ep_send alloc m r k' hist')
    obtain q where "k' = ?k\<lparr>k_snd_queue := k_snd_queue ?k @ q, k_nsnd_que := k_nsnd_que k'\<rparr>"
      by (rule send_ok [OF E(1,2) ep_send(3-5)])
    then obtain x y where k': "k' = ?k\<lparr>k_snd_queue := x, k_nsnd_que := y\<rparr>" by blast
    show ?thesis by (rule no_loss_same [OF loss]) (simp_all add: ep_send(2) k')
  next
    case (ep_recv len r out' k')
    show ?thesis by (rule recv_shape [OF ep_recv(4)], rule no_loss_same [OF loss]) (simp_all add: ep_recv(2))
  next
    case (ep_input d mem r k')
    obtain gs where gs: "d = dgram gs" "\<forall>g \<in> set gs. wire_ok conv g \<and> good_ack (e_kcp b) g"
      using rest(2) ep_input(3) by (auto simp: acks_sound_def)
    note c = input_segs_covered [OF cov gs(2) nxt b, of mem]
    have "k_snd_nxt (grow_cwnd j) = k_snd_nxt j" for j by (subst grow_cwnd_frame) simp
    then have "covered (grow_cwnd (input_segs mem ?k gs)) (e_kcp b)"
      using c by (simp add: covered_def in_flight_def)
    then have "covered k' (e_kcp b)"
      using c input_result [of gs ?k mem r k'] gs ep_input(5) E(3) by auto
    then show ?thesis using rest ep_input(2) by (simp add: no_loss_def)
  next
    case (ep_update t k' o')
    have "covered k' (e_kcp b)"
    proof (rule update_cases [OF E(1,2,6) ep_update(3)])
      fix x y c
      assume "c = ?k\<lparr>k_current := t, k_updated := x, k_ts_flush := y\<rparr>" "k' = c"
      then show "covered k' (e_kcp b)" using cov by (simp add: covered_def in_flight_def)
    next
      fix x y c and gss :: "iseg list list"
      assume c: "c = ?k\<lparr>k_current := t, k_updated := x, k_ts_flush := y\<rparr>" "kcp_ok c" "k' = flush_kcp c"
      have "covered c (e_kcp b)" "snd_stream (e_hist a) c"
        using cov E(4) by (simp_all add: c(1) clock_fields covered_def in_flight_def)
      then show "covered k' (e_kcp b)" using flush_covered [OF c(2) _ E(5)] c(3) by simp
    qed
    then show ?thesis using rest ep_update(2) by (simp add: no_loss_def)
  next
    case (ep_nodelay nodelay interval fast nc r k')
    show ?thesis
      by (rule no_loss_same [OF loss]) (use ep_nodelay in \<open>auto simp: ikcp_nodelay_def Let_def split: if_splits\<close>)
  next
    case (ep_wndsize rcvwnd sndwnd r k')
    show ?thesis
      by (rule no_loss_same [OF loss]) (use ep_wndsize in \<open>auto simp: ikcp_wndsize_def Let_def\<close>)
  qed
qed

text \<open>A step of the receiver.\<close>

lemma no_loss_grows:
  assumes "no_loss conv a b net" "rcv_grows (e_kcp b) (e_kcp b')" "acks_ok (e_kcp b')"
  shows "no_loss conv a b' net"
  using assms covered_grows acks_sound_grows unfolding no_loss_def by blast

lemma recv_grows:
  assumes inv: "rcv_inv k" and str: "rcv_stream P N k" and P: "length P \<le> 2 ^ 31"
    and recv: "ikcp_recv k True len = (r, out, k')" "0 \<le> len"
  shows "rcv_grows k k'"
proof -
  have "k' = k \<or> k' = recv_tell (k_rcv_wnd k \<le> k_nrcv_que k) (rcv_move (recv_take False k))"
    using recv by (auto simp: ikcp_recv_eq Let_def split: if_splits)
  moreover have "rcv_grows k (recv_take False k)" by (simp add: recv_take_def Let_def rcv_grows_same)
  moreover have "rcv_grows (recv_take False k) (rcv_move (recv_take False k))"
    using rcv_move_grows [OF recv_take_inv [OF inv] recv_take_stream(1) [OF str] P] .
  moreover have "rcv_grows j (recv_tell w j)" for w j by (simp add: recv_tell_def rcv_grows_same)
  ultimately show ?thesis using rcv_grows_refl rcv_grows_trans by metis
qed

lemma no_loss_receiver_update:
  assumes own: "ep_own conv b" and loss: "no_loss conv a b back" and u: "ikcp_update (e_kcp b) t = (k', out)"
  shows "no_loss conv a (b\<lparr>e_kcp := k'\<rparr>) (back \<union> set out)"
proof -
  let ?k = "e_kcp b"
  have E: "kcp_ok ?k" "mtu_ok 1400 ?k" "k_conv ?k = conv" "unat (k_ackcount ?k) < 2 ^ 31"
    using own by (auto simp: ep_own_def)
  have acks: "acks_ok ?k" using loss by (simp add: no_loss_def)
  show ?thesis
  proof (rule update_cases [OF E(1,2,4) u])
    fix x y c
    assume c: "c = ?k\<lparr>k_current := t, k_updated := x, k_ts_flush := y\<rparr>" "k' = c" "out = []"
    have g: "rcv_grows ?k k'" by (simp add: c rcv_grows_same)
    have "acks k' = acks ?k" by (rule acks_cong) (simp_all add: c)
    from acks_ok_grows [OF acks g this] show ?thesis using no_loss_grows [OF loss, of "b\<lparr>e_kcp := k'\<rparr>"] g c(3) by simp
  next
    fix x y c and gss :: "iseg list list"
    assume c: "c = ?k\<lparr>k_current := t, k_updated := x, k_ts_flush := y\<rparr>" "kcp_ok c" "k' = flush_kcp c"
      and o: "out = map dgram gss" "concat gss = flush_sent c"
    have g: "rcv_grows ?k k'" "rcv_grows c k'"
      unfolding c(3) by (rule flush_kcp_frame [OF c(2)], simp add: c(1) rcv_grows_same)+
    have "unat (k_ackcount k') = 0" using flush_kcp_rcv(3) [OF c(2)] c(3) by simp
    then have ak: "acks_ok k'" by (simp add: acks_ok_def acks_def)
    have "rcv_grows ?k c" by (simp add: c(1) rcv_grows_same)
    moreover have "acks c = acks ?k" by (rule acks_cong) (simp_all add: c(1))
    ultimately have ac: "acks_ok c" by (rule acks_ok_grows [OF acks])
    have "wire_ok conv s \<and> good_ack k' s" if "g \<in> set gss" "s \<in> set g" for g s
    proof -
      have "s \<in> set (flush_sent c)" using that o(2) by (metis UN_I set_concat)
      then show ?thesis
        using flush_sent_wire [OF c(2)] flush_good_ack [OF c(2) ac] good_ack_grows [OF _ g(2)] E(3) c(1) by auto
    qed
    then have "acks_sound conv k' (set out)" by (auto simp: o(1) acks_sound_def)
    moreover have "no_loss conv a (b\<lparr>e_kcp := k'\<rparr>) back" using no_loss_grows [OF loss] g(1) ak by simp
    ultimately show ?thesis by (simp add: no_loss_def acks_sound_Un)
  qed
qed

lemma no_loss_receiver:
  assumes own: "ep_own conv b" and reads: "ep_reads P ms b" and net: "net_ok conv P net"
    and P: "length P \<le> 2 ^ 31" and loss: "no_loss conv a b back" and step: "ep_step net b out b'"
  shows "no_loss conv a b' (back \<union> out)"
proof -
  let ?k = "e_kcp b"
  have E: "kcp_ok ?k" "mtu_ok 1400 ?k" "k_conv ?k = conv" "unat (k_ackcount ?k) < 2 ^ 31" "rcv_inv ?k"
    using own by (auto simp: ep_own_def kcp_ok_def)
  obtain N where N: "rcv_stream P N ?k" using reads by (auto simp: ep_reads_def)
  have acks: "acks_ok ?k" using loss by (simp add: no_loss_def)
  have silent: "no_loss conv a b' (back \<union> out)"
    if "out = {}" "rcv_grows ?k (e_kcp b')" "acks_ok (e_kcp b')"
    using no_loss_grows [OF loss that(2,3)] that(1) by simp
  have same: "no_loss conv a b' (back \<union> out)"
    if "out = {}" "rcv_grows ?k (e_kcp b')" "k_acklist (e_kcp b') = k_acklist ?k" "k_ackcount (e_kcp b') = k_ackcount ?k"
    using silent [OF that(1,2) acks_ok_grows [OF acks that(2) acks_cong [OF that(3,4)]]] .
  show ?thesis
    using step
  proof cases
    case (ep_send alloc m r k' hist')
    obtain q where "k' = ?k\<lparr>k_snd_queue := k_snd_queue ?k @ q, k_nsnd_que := k_nsnd_que k'\<rparr>"
      by (rule send_ok [OF E(1,2) ep_send(3-5)])
    then obtain x y where k': "k' = ?k\<lparr>k_snd_queue := x, k_nsnd_que := y\<rparr>" by blast
    show ?thesis by (rule same) (simp_all add: ep_send(1,2) k' rcv_grows_same)
  next
    case (ep_recv len r out' k')
    have "rcv_grows ?k k'" using recv_grows [OF E(5) N P ep_recv(4,3)] .
    moreover have "k_acklist k' = k_acklist ?k" "k_ackcount k' = k_ackcount ?k"
      by (rule recv_shape [OF ep_recv(4)], simp)+
    ultimately show ?thesis by (intro same) (simp_all add: ep_recv(1,2))
  next
    case (ep_input d mem r k')
    obtain gs where gs: "d = dgram gs" "\<forall>g \<in> set gs. wire_ok conv g \<and> from_stream P g"
      using net ep_input(3) by (auto simp: net_ok_def)
    have "rcv_grows ?k k' \<and> acks_ok k'"
      using input_grows [OF E(1) N P acks, of gs mem r k'] gs ep_input(4,5) E(3) by simp
    then show ?thesis by (intro silent) (simp_all add: ep_input(1,2))
  next
    case (ep_update t k' o')
    show ?thesis unfolding ep_update(1,2) by (rule no_loss_receiver_update [OF own loss ep_update(3)])
  next
    case (ep_nodelay nodelay interval fast nc r k')
    show ?thesis
      by (rule same) (use ep_nodelay in \<open>auto simp: ikcp_nodelay_def Let_def rcv_grows_same split: if_splits\<close>)
  next
    case (ep_wndsize rcvwnd sndwnd r k')
    show ?thesis
      by (rule same) (use ep_wndsize in \<open>auto simp: ikcp_wndsize_def Let_def rcv_grows_same\<close>)
  qed
qed

section \<open>Every reachable state\<close>

definition sys_no_loss :: "u32 \<Rightarrow> sys \<Rightarrow> bool" where
  "sys_no_loss conv s \<longleftrightarrow>
     sys_inv conv s \<and> no_loss conv (y_a s) (y_b s) (y_ba s) \<and> no_loss conv (y_b s) (y_a s) (y_ab s)"

lemma rcv_nxt_bound: "ep_reads P ms e \<Longrightarrow> length P \<le> 2 ^ 31 \<Longrightarrow> unat (k_rcv_nxt (e_kcp e)) \<le> 2 ^ 31"
  by (auto simp: ep_reads_def rcv_stream_def word_of_nat_eq_32)

lemma sys_no_loss_init: "sys_init conv s \<Longrightarrow> sys_no_loss conv s"
proof -
  assume i: "sys_init conv s"
  have n: "no_loss conv a b {}" if "ep_new conv u a" "ep_new conv v b" for a b u v
    using that by (auto simp: ep_new_def ikcp_create_def no_loss_def covered_def acks_ok_def acks_def acks_sound_def)
  show ?thesis using i sys_init_inv [OF i] n by (auto simp: sys_init_def sys_no_loss_def)
qed

lemma sys_no_loss_step:
  assumes "sys_no_loss conv s" "sys_step s t"
  shows "sys_no_loss conv t"
proof -
  have S: "sys_inv conv s" "no_loss conv (y_a s) (y_b s) (y_ba s)" "no_loss conv (y_b s) (y_a s) (y_ab s)"
    using assms(1) by (auto simp: sys_no_loss_def)
  have I: "ep_own conv (y_a s)" "ep_own conv (y_b s)"
    "ep_reads (e_hist (y_a s)) (e_sent (y_a s)) (y_b s)"
    "ep_reads (e_hist (y_b s)) (e_sent (y_b s)) (y_a s)"
    "net_ok conv (e_hist (y_a s)) (y_ab s)" "net_ok conv (e_hist (y_b s)) (y_ba s)"
    "length (e_hist (y_a s)) \<le> 2 ^ 31" "length (e_hist (y_b s)) \<le> 2 ^ 31"
    using S(1) by (auto simp: sys_inv_def ep_own_def)
  note t = sys_step_inv [OF S(1) assms(2)]
  show ?thesis
    using assms(2)
  proof cases
    case (step_a out a')
    have "no_loss conv a' (y_b s) (y_ba s)"
      by (rule no_loss_sender [OF I(1) S(2) rcv_nxt_bound [OF I(3,7)] step_a(2)])
    moreover have "no_loss conv (y_b s) a' (y_ab s \<union> out)"
      by (rule no_loss_receiver [OF I(1,4,6,8) S(3) step_a(2)])
    ultimately show ?thesis using t step_a(1) by (simp add: sys_no_loss_def)
  next
    case (step_b out b')
    have "no_loss conv b' (y_a s) (y_ab s)"
      by (rule no_loss_sender [OF I(2) S(3) rcv_nxt_bound [OF I(4,8)] step_b(2)])
    moreover have "no_loss conv (y_a s) b' (y_ba s \<union> out)"
      by (rule no_loss_receiver [OF I(2,3,5,7) S(2) step_b(2)])
    ultimately show ?thesis using t step_b(1) by (simp add: sys_no_loss_def)
  qed
qed

interpretation lossless: invariant "sys_init conv" sys_step "sys_no_loss conv"
  by unfold_locales (rule sys_no_loss_init, assumption, rule sys_no_loss_step)

section \<open>A sender with nothing in flight\<close>

lemma msgs_at_rest:
  assumes "msgs_at P ms n t"
  shows "concat (map snd (drop t P)) = concat (drop n ms)"
proof -
  obtain fls where f: "P = concat fls" "list_all2 is_msg fls ms" "t = length (concat (take n fls))"
    using assms by (auto simp: msgs_at_def)
  have "concat fls = concat (take n fls) @ concat (drop n fls)"
    by (metis append_take_drop_id concat_append)
  then have d: "drop t P = concat (drop n fls)" by (simp add: f(1,3))
  have "concat (map snd (concat gs)) = concat xs" if "list_all2 is_msg gs xs" for gs xs
    using that by (induction rule: list_all2_induct) (simp_all add: is_msg_def)
  from this [OF list_all2_dropI [OF f(2)], of n] show ?thesis unfolding d .
qed

lemma covered_buf:
  assumes inv: "rcv_inv k" and str: "rcv_stream P N k" and P: "length P \<le> 2 ^ 31"
    and all: "\<forall>sn < word_of_nat (length P). received k sn"
  shows "map payload (k_rcv_buf k) = map (nth P) [N..<length P]"
proof -
  let ?b = "k_rcv_buf k" and ?nxt = "k_rcv_nxt k" and ?n = "length P - N"
  have N: "?nxt = word_of_nat N" "N \<le> length P"
    "\<And>s. s \<in> set ?b \<Longrightarrow> N + woff ?nxt (s_sn s) < length P \<and> payload s = P ! (N + woff ?nxt (s_sn s))"
    using str by (auto simp: rcv_stream_def)
  have u: "unat (word_of_nat i :: u32) = i" if "i \<le> length P" for i
    using that P by (simp add: word_of_nat_eq_32)
  have sorted: "sorted_wrt (<) (offs ?nxt ?b)" using rcv_invD(1) [OF inv] by (simp add: ordered_def)
  have "j \<in> set (offs ?nxt ?b)" if j: "j < ?n" for j
  proof -
    let ?sn = "word_of_nat (N + j) :: u32"
    have "?sn < word_of_nat (length P)" "\<not> ?sn < ?nxt"
      using j u [of "N + j"] u [of "length P"] u [OF N(2)] by (simp_all add: word_less_nat_alt N(1) del: of_nat_add)
    then have "?sn \<in> s_sn ` set ?b" using all by (auto simp: received_def)
    moreover have "woff ?nxt ?sn = j" using j u [of j] by (simp add: N(1) woff_plus)
    ultimately show ?thesis by (auto simp: offs_def image_iff)
  qed
  moreover have "j < ?n" if "j \<in> set (offs ?nxt ?b)" for j
    using that N(3) by (fastforce simp: offs_def)
  ultimately have set: "set (offs ?nxt ?b) = set [0..<?n]" by auto
  have "offs ?nxt ?b = [0..<?n]"
    by (rule sorted_distinct_set_unique [OF _ _ _ _ set]) (use sorted in \<open>auto simp: strict_sorted_iff\<close>)
  moreover have "map payload ?b = map (\<lambda>i. P ! (N + i)) (offs ?nxt ?b)"
    using N(3) by (simp add: offs_def)
  ultimately show ?thesis by (intro nth_equalityI) simp_all
qed

text \<open>\<^verbatim>\<open>ikcp_waitsnd\<close> is 0 only when both queues of the sender are empty: its sum does not wrap.\<close>

lemma waitsnd_empty:
  assumes own: "ep_own conv a" and w: "ikcp_waitsnd (e_kcp a) = 0"
  shows "k_snd_buf (e_kcp a) = [] \<and> k_snd_queue (e_kcp a) = []"
proof -
  let ?k = "e_kcp a"
  have win: "snd_win ?k" using own by (simp add: ep_own_def kcp_ok_def snd_inv_def)
  note I = snd_winD [OF win]
  have b: "length (k_snd_buf ?k) \<le> 65535"
    using ordered_length [OF I(1) I(2)] I(3) by simp
  have q: "length (k_snd_queue ?k) \<le> 2 ^ 31" using own by (auto simp: ep_own_def snd_stream_def)
  have "k_nsnd_buf ?k + k_nsnd_que ?k = 0" using w by (simp add: ikcp_waitsnd_def signed_eq_0_iff)
  then have "word_of_nat (length (k_snd_buf ?k) + length (k_snd_queue ?k)) = (0 :: u32)"
    by (simp add: I(5,6))
  moreover have "unat (word_of_nat (length (k_snd_buf ?k) + length (k_snd_queue ?k)) :: u32) =
      length (k_snd_buf ?k) + length (k_snd_queue ?k)"
    using b q by (intro word_of_nat_eq_32) simp
  ultimately have "length (k_snd_buf ?k) + length (k_snd_queue ?k) = 0" by (metis unsigned_0)
  then show ?thesis by simp
qed

lemma idle_delivered:
  assumes own: "ep_own conv a" and inv: "rcv_inv (e_kcp b)" and reads: "ep_reads (e_hist a) (e_sent a) b"
    and loss: "no_loss conv a b net" and idle: "ikcp_waitsnd (e_kcp a) = 0"
  shows "\<exists>rest. e_sent a = e_got b @ rest \<and>
    concat (map seg_bytes (k_rcv_queue (e_kcp b) @ k_rcv_buf (e_kcp b))) = concat rest"
proof -
  let ?a = "e_kcp a" and ?b = "e_kcp b" and ?P = "e_hist a" and ?q = "k_rcv_queue (e_kcp b)"
  note e = waitsnd_empty [OF own idle]
  have P: "length ?P \<le> 2 ^ 31" "k_snd_nxt ?a = word_of_nat (length ?P)"
    using own e by (auto simp: ep_own_def snd_stream_def)
  obtain N n where R: "rcv_stream ?P N ?b" "msgs_at ?P (e_sent a) n (rcv_taken N ?b)"
    "n \<le> length (e_sent a)" "e_got b = take n (e_sent a)"
    using reads by (auto simp: ep_reads_def)
  have "\<forall>sn < word_of_nat (length ?P). received ?b sn"
    using loss e P(2) by (auto simp: no_loss_def covered_def in_flight_def)
  note b = covered_buf [OF inv R(1) P(1) this]
  have q: "map payload ?q = map (nth ?P) [rcv_taken N ?b..<N]" "rcv_taken N ?b \<le> N" "N \<le> length ?P"
    using R(1) by (auto simp: rcv_stream_def rcv_taken_def)
  have "map payload (?q @ k_rcv_buf ?b) = map (nth ?P) [rcv_taken N ?b..<length ?P]"
    using b q upt_add_eq_append [of "rcv_taken N ?b" N "length ?P - N"] by simp
  also have "\<dots> = drop (rcv_taken N ?b) ?P"
    by (metis drop_map drop_upt map_nth add_0)
  finally have d: "map payload (?q @ k_rcv_buf ?b) = drop (rcv_taken N ?b) ?P" .
  have "seg_bytes s = snd (payload s)" if "s \<in> set (?q @ k_rcv_buf ?b)" for s
    using rcv_invD(8) [OF inv, of s] that by (auto simp: payload_def)
  then have "map seg_bytes (?q @ k_rcv_buf ?b) = map snd (map payload (?q @ k_rcv_buf ?b))" by auto
  then have "concat (map seg_bytes (?q @ k_rcv_buf ?b)) = concat (drop n (e_sent a))"
    unfolding d using msgs_at_rest [OF R(2)] by simp
  moreover have "e_sent a = e_got b @ drop n (e_sent a)" using R(4) by simp
  ultimately show ?thesis by blast
qed

end
