(* ===== verification/Progress.thy ===== *)
theory Progress
  imports No_Loss
begin

text \<open>
  The calls of an exchange, one lemma each: when a flush comes due and what it writes, the missing fragment arriving, the
  acknowledgement taking effect, and what makes a receiver owe an answer. \<open>Exchange\<close> runs them as
  steps of the two endpoints.
\<close>

unbundle bit_operations_syntax

section \<open>A time at which a segment is sent\<close>

lemma flush_time: "\<exists>t. snd (update_clock k t) \<and> 0 \<le> itimediff t r"
proof (cases "k_updated k = 0 \<or> 0 \<le> flush_slap k r")
  case True
  then show ?thesis using update_clock_flush [of k r] by (intro exI [of _ r]) auto
next
  case False
  let ?f = "k_ts_flush k"
  have s: "itimediff r ?f < 0" "- 10000 \<le> itimediff r ?f"
    using False by (auto simp: flush_slap_def Let_def split: if_splits)
  then have "itimediff ?f r = - itimediff r ?f" by (intro itimediff_swap) simp
  moreover have "0 \<le> flush_slap k ?f" by (simp add: flush_slap_def)
  ultimately show ?thesis using False s update_clock_flush(1) [of k ?f] by (intro exI [of _ ?f]) auto
qed

lemma flush_snd_nxt:
  assumes "kcp_ok c" "snd_stream H c" "length H \<le> 2 ^ 31"
  shows "k_snd_nxt c \<le> k_snd_nxt (flush_kcp c)"
proof -
  let ?m = "moved (flush_window c) c"
  obtain n where n: "n + length (k_snd_queue c) = length H" "k_snd_nxt c = word_of_nat n"
    using assms(2) by (auto simp: snd_stream_def)
  have "n + ?m \<le> 2 ^ 31" using n(1) assms(3) by (simp add: moved_def)
  then have "(word_of_nat n :: u32) \<le> word_of_nat (n + ?m)"
    by (simp add: word_le_nat_alt word_of_nat_eq_32 del: of_nat_add)
  moreover have "k_snd_nxt (flush_kcp c) = word_of_nat (n + ?m)"
    by (rule flush_kcp_frame [OF assms(1)]) (simp add: n(2))
  ultimately show ?thesis by (simp add: n(2))
qed

section \<open>The missing segment arrives\<close>

lemma rcv_wnd_frames [simp]:
  "k_rcv_wnd (input_seg mem k h d) = k_rcv_wnd k"
proof -
  have "k_rcv_wnd (ikcp_shrink_buf j) = k_rcv_wnd j" for j by (subst shrink_buf_frame) simp
  moreover have "k_rcv_wnd (ikcp_parse_una j u) = k_rcv_wnd j" for j u by (subst parse_una_frame) simp
  moreover have "k_rcv_wnd (ikcp_parse_ack j u) = k_rcv_wnd j" for j u by (subst parse_ack_frame) simp
  moreover have "k_rcv_wnd (ikcp_update_ack j u) = k_rcv_wnd j" for j u by (subst update_ack_frame) simp
  moreover have "k_rcv_wnd (ikcp_ack_push m j sn ts) = k_rcv_wnd j" for m j sn ts
    by (subst ack_push_frame) simp
  moreover have "k_rcv_wnd (ikcp_parse_data j s) = k_rcv_wnd j" for j s by (subst parse_data_frame) simp
  ultimately show ?thesis by (simp add: input_seg_def input_ack_def input_push_def Let_def)
qed

definition rcv_room :: "ikcpcb \<Rightarrow> bool" where
  "rcv_room k \<longleftrightarrow> k_nrcv_que k < k_rcv_wnd k"

lemma parse_data_next:
  assumes inv: "rcv_inv k" and s: "seg_ok s" "s_sn s = k_rcv_nxt k" and room: "rcv_room k"
  shows "k_rcv_nxt (ikcp_parse_data k s) \<noteq> k_rcv_nxt k"
proof -
  let ?j = "rcv_store k s"
  have w: "in_rcv_window k (s_sn s)"
    using room by (simp add: in_rcv_window_def s(2) rcv_room_def word_less_nat_alt)
  have j: "k_rcv_nxt ?j = k_rcv_nxt k" "k_nrcv_que ?j = k_nrcv_que k" "k_rcv_wnd ?j = k_rcv_wnd k"
    by (simp_all add: rcv_store_def)
  have inv': "rcv_inv ?j" using rcv_store_inv [OF inv w s(1)] .
  note I = rcv_invD [OF inv']
  have "k_rcv_nxt k \<in> s_sn ` set (k_rcv_buf ?j)" using s(2) by (auto simp: rcv_store_def set_insort_key)
  then obtain x p where x: "k_rcv_buf ?j = x # p" "s_sn x = k_rcv_nxt k"
    using I(1) unfolding j(1) by (cases "k_rcv_buf ?j") (auto simp: ordered_Cons)
  obtain m where m: "m \<le> length (k_rcv_buf ?j)" "k_rcv_nxt (rcv_move ?j) = k_rcv_nxt k + word_of_nat m"
    "m < length (k_rcv_buf ?j) \<Longrightarrow> s_sn (k_rcv_buf ?j ! m) \<noteq> k_rcv_nxt k + word_of_nat m \<or>
       \<not> k_nrcv_que k + word_of_nat m < k_rcv_wnd k"
    by (rule rcv_move_shape [of ?j]) (auto simp: j)
  have "m \<noteq> 0"
  proof
    assume "m = 0"
    then show False using m(3) x room by (simp add: rcv_room_def)
  qed
  moreover have "m \<le> 2 ^ 31" using m(1) ordered_length [OF I(1,2)] by simp
  then have "unat (word_of_nat m :: u32) = m" by (intro word_of_nat_eq_32) simp
  ultimately have "(word_of_nat m :: u32) \<noteq> 0" by (metis unsigned_0)
  then show ?thesis using w m(2) by (simp add: parse_data_eq [OF inv])
qed

lemma input_push_next:
  assumes inv: "rcv_inv k" and room: "rcv_room k"
    and s: "wire_ok conv s" "s_sn s = k_rcv_nxt k"
  shows "k_rcv_nxt (input_push mem k (hdr_of_seg s) (s_data s)) \<noteq> k_rcv_nxt k"
proof -
  let ?h = "hdr_of_seg s" and ?k = "ikcp_ack_push mem k (s_sn s) (s_ts s)"
  let ?s = "(fresh_seg mem)\<lparr>s_conv := h_conv ?h, s_cmd := ucast (h_cmd ?h), s_frg := ucast (h_frg ?h),
     s_wnd := ucast (h_wnd ?h), s_ts := h_ts ?h, s_sn := h_sn ?h, s_una := h_una ?h,
     s_len := h_len ?h, s_data := take (unat (h_len ?h)) (s_data s)\<rparr>"
  have h: "h_sn ?h = s_sn s" "h_ts ?h = s_ts s" by (simp_all add: hdr_of_seg_def)
  have same: "k_rcv_nxt ?k = k_rcv_nxt k" "k_rcv_wnd ?k = k_rcv_wnd k" "k_nrcv_que ?k = k_nrcv_que k"
    by (subst ack_push_frame, simp)+
  have ok: "seg_ok ?s" using s(1) by (simp add: wire_ok_def seg_frg_ok_def seg_ok_def hdr_of_seg_def)
  have "in_rcv_window k (s_sn s)"
    using room by (simp add: in_rcv_window_def s(2) rcv_room_def word_less_nat_alt)
  then have "itimediff (s_sn s) (k_rcv_nxt k + k_rcv_wnd k) < 0" "itimediff (s_sn s) (k_rcv_nxt k) \<ge> 0"
    unfolding in_rcv_window_iff [OF rcv_invD(7) [OF inv]] by simp_all
  then have r: "input_push mem k ?h (s_data s) = ikcp_parse_data ?k ?s"
    unfolding input_push_def Let_def h same by simp
  have "rcv_inv ?k" "rcv_room ?k" using inv room by (simp_all add: rcv_room_def same)
  moreover have "s_sn ?s = k_rcv_nxt ?k" unfolding same by (simp add: h s(2))
  ultimately have "k_rcv_nxt (ikcp_parse_data ?k ?s) \<noteq> k_rcv_nxt ?k" by (intro parse_data_next ok)
  then show ?thesis unfolding r same .
qed

text \<open>Segments before it either leave the queue as it is or bring the missing one themselves.\<close>

lemma input_seg_room:
  assumes k: "kcp_ok k" "rcv_stream P N k" and P: "length P \<le> 2 ^ 31"
    and s: "wire_ok conv s" "from_stream P s" and n: "unat (k_ackcount k) < 2 ^ 29"
    and room: "rcv_room k" and same: "k_rcv_nxt (input_seg mem k (hdr_of_seg s) (s_data s)) = k_rcv_nxt k"
  shows "rcv_room (input_seg mem k (hdr_of_seg s) (s_data s))"
proof -
  let ?r = "input_seg mem k (hdr_of_seg s) (s_data s)"
  have len: "unat (h_len (hdr_of_seg s)) \<le> length (s_data s)"
    using s(1) by (simp add: wire_ok_def seg_frg_ok_def seg_ok_def hdr_of_seg_def)
  have inv: "rcv_inv k" "rcv_inv ?r"
    using k(1) input_seg_ok [OF k(1) len n, of mem] by (simp_all add: kcp_ok_def)
  obtain N' where N': "rcv_stream P N' ?r" "rcv_taken N' ?r = rcv_taken N k"
    using input_seg_stream [OF inv(1) k(2) P s] by blast
  have b: "k_rcv_nxt k = word_of_nat N" "k_rcv_nxt ?r = word_of_nat N'" "N \<le> 2 ^ 31" "N' \<le> 2 ^ 31"
    "length (k_rcv_queue k) \<le> N" "length (k_rcv_queue ?r) \<le> N'"
    using k(2) N'(1) P by (auto simp: rcv_stream_def)
  have "unat (word_of_nat N :: u32) = unat (word_of_nat N' :: u32)" using same b(1,2) by simp
  then have "N = N'" using b(3,4) by (simp add: word_of_nat_eq_32)
  then have "length (k_rcv_queue ?r) = length (k_rcv_queue k)"
    using N'(2) b(5,6) by (simp add: rcv_taken_def)
  then have "k_nrcv_que ?r = k_nrcv_que k" using rcv_invD(5) [OF inv(1)] rcv_invD(5) [OF inv(2)] by simp
  then show ?thesis using room by (simp add: rcv_room_def)
qed

lemma input_seg_next:
  assumes inv: "rcv_inv k" and room: "rcv_room k"
    and s: "wire_ok conv s" "s_sn s = k_rcv_nxt k" "s_cmd s = IKCP_CMD_PUSH"
  shows "k_rcv_nxt (input_seg mem k (hdr_of_seg s) (s_data s)) \<noteq> k_rcv_nxt k"
proof -
  let ?h = "hdr_of_seg s"
  define j where "j = ikcp_shrink_buf (ikcp_parse_una (k\<lparr>k_rmt_wnd := ucast (h_wnd ?h)\<rparr>) (h_una ?h))"
  have cmd: "ucast (h_cmd ?h) = s_cmd s" using wire_ok_cmd [OF s(1)] by (simp add: hdr_of_seg_def)
  have r: "input_seg mem k ?h (s_data s) = input_push mem j ?h (s_data s)"
    unfolding input_seg_def Let_def j_def [symmetric] cmd using s(3) by (simp add: ikcp_consts)
  have j: "k_rcv_nxt j = k_rcv_nxt k" "k_rcv_wnd j = k_rcv_wnd k" "k_nrcv_que j = k_nrcv_que k" "rcv_inv j"
    unfolding j_def
    by (subst shrink_buf_frame, subst parse_una_frame, simp)+ (simp add: inv)
  show ?thesis
    using input_push_next [OF j(4) _ s(1)] room s(2) unfolding r j(1) [symmetric]
    by (simp add: rcv_room_def j)
qed

lemma input_segs_next:
  assumes "kcp_ok k" "rcv_stream P N k" "length P \<le> 2 ^ 31" "acks_ok k"
    and "\<forall>g \<in> set gs. wire_ok conv g \<and> from_stream P g"
    and "unat (k_ackcount k) + length gs < 2 ^ 29"
    and "rcv_room k" "s \<in> set gs" "s_cmd s = IKCP_CMD_PUSH" "s_sn s = k_rcv_nxt k"
  shows "k_rcv_nxt k < k_rcv_nxt (input_segs mem k gs)"
  using assms
proof (induction gs arbitrary: k N)
  case (Cons g gs)
  let ?k = "input_seg (mem (length (dgram (g # gs)))) k (hdr_of_seg g) (s_data g)"
  have g: "wire_ok conv g" "from_stream P g" using Cons.prems(5) by auto
  have len: "unat (h_len (hdr_of_seg g)) \<le> length (s_data g)"
    using g(1) by (simp add: wire_ok_def seg_frg_ok_def seg_ok_def hdr_of_seg_def)
  have c: "unat (k_ackcount k) < 2 ^ 29" using Cons.prems(6) by simp
  have inv: "rcv_inv k" using Cons.prems(1) by (simp add: kcp_ok_def)
  have ok: "kcp_ok ?k" "unat (k_ackcount ?k) + length gs < 2 ^ 29"
    using input_seg_ok [OF Cons.prems(1) len c, of "mem (length (dgram (g # gs)))"] Cons.prems(6) by simp_all
  obtain N1 where N1: "rcv_stream P N1 ?k"
    using input_seg_stream [OF inv Cons.prems(2,3) g] by blast
  have gr: "rcv_grows k ?k" "acks_ok ?k"
    using input_seg_grows [OF Cons.prems(1-3) g c Cons.prems(4)] by auto
  have rest: "rcv_grows ?k (input_segs mem ?k gs)"
    using input_segs_grows [OF ok(1) N1 Cons.prems(3) _ ok(2) gr(2)] Cons.prems(5) by auto
  have le: "k_rcv_nxt k \<le> k_rcv_nxt ?k" "k_rcv_nxt ?k \<le> k_rcv_nxt (input_segs mem ?k gs)"
    using gr(1) rest by (simp_all add: rcv_grows_def)
  show ?case
  proof (cases "k_rcv_nxt ?k = k_rcv_nxt k")
    case False
    then have "k_rcv_nxt k < k_rcv_nxt ?k" using le(1) by (simp add: order_less_le)
    then show ?thesis using le(2) by (simp add: less_le_trans)
  next
    case True
    have "s \<noteq> g"
      using input_seg_next [OF inv Cons.prems(7) g(1)] Cons.prems(9,10) True by blast
    then have "s \<in> set gs" using Cons.prems(8) by simp
    moreover have "rcv_room ?k" by (rule input_seg_room [OF Cons.prems(1-3) g c Cons.prems(7) True])
    ultimately show ?thesis
      using Cons.IH [OF ok(1) N1 Cons.prems(3) gr(2) _ ok(2)] Cons.prems(5,9,10) True by simp
  qed
qed simp

text \<open>What a data segment leaves is acknowledged.\<close>

lemma input_seg_acks:
  assumes "kcp_ok k" "unat (k_ackcount k) < 2 ^ 29"
  shows "\<exists>xs. acks (input_seg mem k h d) = acks k @ xs"
proof -
  define j where "j = ikcp_shrink_buf (ikcp_parse_una (k\<lparr>k_rmt_wnd := ucast (h_wnd h)\<rparr>) (h_una h))"
  have j: "acks j = acks k" "ack_inv j" "unat (k_ackcount j) < 2 ^ 29"
    using assms by (simp_all add: j_def kcp_ok_def)
  have "acks (ikcp_ack_push mem j x y) = acks k @ [(x, y)]" for x y
    using ack_push_acks(1) [OF j(2,3)] j(1) by simp
  then show ?thesis
    unfolding input_seg_def Let_def j_def [symmetric]
    using j(1) by (auto simp: input_ack_def input_push_def Let_def)
qed

lemma rcv_nxt_frames:
  "k_rcv_nxt (ikcp_shrink_buf k) = k_rcv_nxt k" "k_rcv_nxt (ikcp_parse_una k u) = k_rcv_nxt k"
  "k_rcv_nxt (ikcp_parse_ack k u) = k_rcv_nxt k" "k_rcv_nxt (ikcp_update_ack k rtt) = k_rcv_nxt k"
  "k_rcv_nxt (ikcp_ack_push mem k sn ts) = k_rcv_nxt k"
proof -
  show "k_rcv_nxt (ikcp_shrink_buf k) = k_rcv_nxt k" by (subst shrink_buf_frame) simp
  show "k_rcv_nxt (ikcp_parse_una k u) = k_rcv_nxt k" by (subst parse_una_frame) simp
  show "k_rcv_nxt (ikcp_parse_ack k u) = k_rcv_nxt k" by (subst parse_ack_frame) simp
  show "k_rcv_nxt (ikcp_update_ack k rtt) = k_rcv_nxt k" by (subst update_ack_frame) simp
  show "k_rcv_nxt (ikcp_ack_push mem k sn ts) = k_rcv_nxt k" by (subst ack_push_frame) simp
qed

lemma input_seg_advance_acked:
  assumes "kcp_ok k" "unat (k_ackcount k) < 2 ^ 29" "k_rcv_nxt (input_seg mem k h d) \<noteq> k_rcv_nxt k"
  shows "acks (input_seg mem k h d) \<noteq> []"
proof -
  define j where "j = ikcp_shrink_buf (ikcp_parse_una (k\<lparr>k_rmt_wnd := ucast (h_wnd h)\<rparr>) (h_una h))"
  have j: "k_rcv_nxt j = k_rcv_nxt k" "ack_inv j" "unat (k_ackcount j) < 2 ^ 29"
    using assms(1,2) by (simp_all add: j_def kcp_ok_def rcv_nxt_frames)
  have "acks (ikcp_ack_push mem j x y) \<noteq> []" for x y using ack_push_acks(1) [OF j(2,3)] by simp
  then show ?thesis
    using assms(3) unfolding input_seg_def Let_def j_def [symmetric]
    by (auto simp: input_ack_def input_push_def Let_def rcv_nxt_frames j(1) split: if_splits)
qed

lemma input_segs_advance_acked:
  assumes "kcp_ok k" "unat (k_ackcount k) + length gs < 2 ^ 29" "\<forall>g \<in> set gs. wire_ok conv g"
    and "acks k \<noteq> [] \<or> k_rcv_nxt (input_segs mem k gs) \<noteq> k_rcv_nxt k"
  shows "acks (input_segs mem k gs) \<noteq> []"
  using assms
proof (induction gs arbitrary: k)
  case (Cons g gs)
  let ?k = "input_seg (mem (length (dgram (g # gs)))) k (hdr_of_seg g) (s_data g)"
  have len: "unat (h_len (hdr_of_seg g)) \<le> length (s_data g)"
    using Cons.prems(3) by (simp add: wire_ok_def seg_frg_ok_def seg_ok_def hdr_of_seg_def)
  have c: "unat (k_ackcount k) < 2 ^ 29" using Cons.prems(2) by simp
  have ok: "kcp_ok ?k" "unat (k_ackcount ?k) + length gs < 2 ^ 29"
    using input_seg_ok [OF Cons.prems(1) len c, of "mem (length (dgram (g # gs)))"] Cons.prems(2) by simp_all
  obtain xs where "acks ?k = acks k @ xs" using input_seg_acks [OF Cons.prems(1) c] by blast
  moreover have "k_rcv_nxt ?k \<noteq> k_rcv_nxt k \<Longrightarrow> acks ?k \<noteq> []"
    by (rule input_seg_advance_acked [OF Cons.prems(1) c])
  ultimately have "acks ?k \<noteq> [] \<or> k_rcv_nxt (input_segs mem ?k gs) \<noteq> k_rcv_nxt ?k"
    using Cons.prems(4) by auto
  then show ?case using Cons.IH [OF ok] Cons.prems(3) by simp
qed simp

text \<open>
  The move loop has run when the call returns, so the number that comes next is not waiting in \<^verbatim>\<open>rcv_buf\<close>; and \<^verbatim>\<open>rcv_queue\<close>
  grows as \<^verbatim>\<open>rcv_nxt\<close> does.
\<close>

lemma drained_next:
  assumes inv: "rcv_inv k" and d: "rcv_drained k" and room: "rcv_room k"
  shows "\<not> received k (k_rcv_nxt k)"
proof
  assume "received k (k_rcv_nxt k)"
  then obtain s where s: "s \<in> set (k_rcv_buf k)" "s_sn s = k_rcv_nxt k" by (auto simp: received_def)
  then obtain x p where x: "k_rcv_buf k = x # p" by (cases "k_rcv_buf k") auto
  have "s_sn x = k_rcv_nxt k"
    using rcv_invD(1) [OF inv] s unfolding x by (auto simp: ordered_Cons)
  then show False using d room x by (simp add: rcv_drained_def rcv_room_def)
qed

lemma rcv_drained_same:
  "k_rcv_buf k' = k_rcv_buf k \<Longrightarrow> k_rcv_nxt k' = k_rcv_nxt k \<Longrightarrow> k_nrcv_que k' = k_nrcv_que k \<Longrightarrow>
   k_rcv_wnd k' = k_rcv_wnd k \<Longrightarrow> rcv_drained k' = rcv_drained k"
  by (simp add: rcv_drained_def)

lemma drained_frames:
  "rcv_drained (ikcp_shrink_buf k) = rcv_drained k" "rcv_drained (ikcp_parse_una k u) = rcv_drained k"
  "rcv_drained (ikcp_parse_ack k u) = rcv_drained k" "rcv_drained (ikcp_update_ack k rtt) = rcv_drained k"
  "rcv_drained (ikcp_ack_push mem k sn ts) = rcv_drained k" "rcv_drained (grow_cwnd k) = rcv_drained k"
  "rcv_drained (k\<lparr>k_rmt_wnd := w\<rparr>) = rcv_drained k" "rcv_drained (k\<lparr>k_probe := x\<rparr>) = rcv_drained k"
proof -
  show "rcv_drained (ikcp_shrink_buf k) = rcv_drained k" by (subst shrink_buf_frame) (simp add: rcv_drained_def)
  show "rcv_drained (ikcp_parse_una k u) = rcv_drained k" by (subst parse_una_frame) (simp add: rcv_drained_def)
  show "rcv_drained (ikcp_parse_ack k u) = rcv_drained k" by (subst parse_ack_frame) (simp add: rcv_drained_def)
  show "rcv_drained (ikcp_update_ack k rtt) = rcv_drained k" by (subst update_ack_frame) (simp add: rcv_drained_def)
  show "rcv_drained (ikcp_ack_push mem k sn ts) = rcv_drained k" by (subst ack_push_frame) (simp add: rcv_drained_def)
  show "rcv_drained (grow_cwnd k) = rcv_drained k" by (subst grow_cwnd_frame) (simp add: rcv_drained_def)
qed (simp_all add: rcv_drained_def)

lemma parse_data_drained: "rcv_drained k \<Longrightarrow> rcv_drained (ikcp_parse_data k s)"
  using rcv_move_drained by (auto simp: ikcp_parse_data_def Let_def)

lemma input_segs_drained: "rcv_drained k \<Longrightarrow> rcv_drained (input_segs mem k gs)"
proof (induction gs arbitrary: k)
  case (Cons g gs)
  have "rcv_drained (input_seg m k h d)" for m h d
    using Cons.prems
    by (simp add: input_seg_def input_ack_def input_push_def Let_def drained_frames parse_data_drained)
  then show ?case using Cons.IH by simp
qed simp

lemma input_segs_wnd: "k_rcv_wnd (input_segs mem k gs) = k_rcv_wnd k"
  by (induction gs arbitrary: k) simp_all

lemma rcv_counts:
  assumes "rcv_inv k" "rcv_stream P N k" "length P \<le> 2 ^ 31"
  shows "unat (k_rcv_nxt k) = N" "unat (k_nrcv_que k) + rcv_taken N k = N"
proof -
  have N: "k_rcv_nxt k = word_of_nat N" "length (k_rcv_queue k) \<le> N" "N \<le> 2 ^ 31"
    using assms(2,3) by (auto simp: rcv_stream_def)
  then show "unat (k_rcv_nxt k) = N" by (simp add: word_of_nat_eq_32)
  have "unat (k_nrcv_que k) = length (k_rcv_queue k)"
    using rcv_invD(5,6) [OF assms(1)] by (simp add: word_of_nat_eq_32)
  then show "unat (k_nrcv_que k) + rcv_taken N k = N" using N(2) by (simp add: rcv_taken_def)
qed

section \<open>The acknowledgement takes effect\<close>

lemma in_flight_sub: "snd_sub k' k \<Longrightarrow> in_flight k' sn \<Longrightarrow> in_flight k sn"
  by (auto simp: snd_sub_def in_flight_def image_iff)

lemma input_segs_sub: "snd_sub (input_segs mem k gs) k"
proof (induction gs arbitrary: k)
  case (Cons g gs)
  show ?case unfolding input_segs.simps by (rule snd_sub_trans [OF Cons.IH input_seg_sub])
qed simp

text \<open>The numbers in flight increase also when read as plain numbers, as long as none is 2^31 or more.\<close>

lemma flight_order:
  assumes inv: "snd_inv k" and small: "\<forall>s \<in> set (k_snd_buf k). unat (s_sn s) < 2 ^ 31"
    and s: "s \<in> set (k_snd_buf k)" "t \<in> set (k_snd_buf k)"
    and le: "woff (k_snd_una k) (s_sn s) \<le> woff (k_snd_una k) (s_sn t)"
  shows "s_sn s \<le> s_sn t"
proof -
  let ?una = "k_snd_una k"
  have win: "snd_win k" and hd: "snd_head k" using inv by (simp_all add: snd_inv_def)
  have u: "unat ?una < 2 ^ 31" using hd small s(1) by (cases "k_snd_buf k") (auto simp: snd_head_def)
  have off: "unat (s_sn x) = unat ?una + woff ?una (s_sn x)" if x: "x \<in> set (k_snd_buf k)" for x
  proof -
    have "woff ?una (s_sn x) < 65535" using snd_winD(2) [OF win x] snd_winD(3) [OF win] by linarith
    moreover have "woff ?una (s_sn x) = (if unat ?una \<le> unat (s_sn x) then unat (s_sn x) - unat ?una
        else unat (s_sn x) + 4294967296 - unat ?una)" by (simp only: woff_def unat_diff_32)
    ultimately show ?thesis using u by (cases "unat ?una \<le> unat (s_sn x)") simp_all
  qed
  show ?thesis using off [OF s(1)] off [OF s(2)] le by (simp add: word_le_nat_alt)
qed

lemma ordered_tail:
  "ordered b (y # p) \<Longrightarrow> s \<in> set (y # p) \<Longrightarrow> woff b (s_sn y) \<le> woff b (s_sn s)"
  by (auto simp: ordered_Cons intro: less_imp_le)

lemma parse_una_clears:
  assumes inv: "snd_inv k" and small: "\<forall>s \<in> set (k_snd_buf k). unat (s_sn s) < 2 ^ 31"
    and una: "unat una < 2 ^ 31" "sn < una"
  shows "\<not> in_flight (ikcp_parse_una k una) sn"
proof
  let ?P = "\<lambda>s. itimediff una (s_sn s) > 0" and ?b = "k_snd_buf k"
  assume "in_flight (ikcp_parse_una k una) sn"
  then obtain s where s: "s \<in> set (dropWhile ?P ?b)" "s_sn s = sn"
    by (auto simp: in_flight_def parse_una_eq)
  then obtain y p where y: "dropWhile ?P ?b = y # p" by (cases "dropWhile ?P ?b") auto
  have sub: "x \<in> set ?b" if "x \<in> set (y # p)" for x
    using that set_dropWhileD [of x ?P ?b] y by simp
  have "snd_win k" using inv by (simp add: snd_inv_def)
  then have "ordered (k_snd_una k) (y # p)" using ordered_dropWhile [OF snd_winD(1)] y by metis
  then have "woff (k_snd_una k) (s_sn y) \<le> woff (k_snd_una k) (s_sn s)"
    using s(1) y by (intro ordered_tail) auto
  then have "s_sn y \<le> s_sn s" using s(1) y sub by (intro flight_order [OF inv small]) auto
  then have lt: "unat (s_sn y) < unat una" using s(2) una(2) by (simp add: word_le_nat_alt word_less_nat_alt)
  have "unat (una - s_sn y) = unat una - unat (s_sn y)" using lt by (simp add: unat_diff_32)
  then have "0 < unat (una - s_sn y) \<and> unat (una - s_sn y) < 2 ^ 31" using lt una(1) by linarith
  then have "?P y" by (simp only: itimediff_def sint_pos_32)
  moreover have "\<not> ?P y" using hd_dropWhile [of ?P ?b] y by (metis list.discI list.sel(1))
  ultimately show False by blast
qed

lemma input_segs_clears:
  assumes ok: "kcp_ok k" and small: "\<forall>s \<in> set (k_snd_buf k). unat (s_sn s) < 2 ^ 31"
    and gs: "gs \<noteq> []" "\<forall>g \<in> set gs. s_una g = una" and una: "unat una < 2 ^ 31" "sn < una"
  shows "\<not> in_flight (input_segs mem k gs) sn"
proof
  assume f: "in_flight (input_segs mem k gs) sn"
  obtain g p where g: "gs = g # p" "s_una g = una" using gs by (cases gs) auto
  let ?h = "hdr_of_seg g"
  let ?w = "k\<lparr>k_rmt_wnd := ucast (h_wnd ?h)\<rparr>"
  let ?j = "ikcp_shrink_buf (ikcp_parse_una ?w una)"
  let ?m = "mem (length (dgram gs))"
  have una': "h_una ?h = una" by (simp add: g(2) hdr_of_seg_def)
  have "snd_win k" using ok by (simp add: kcp_ok_def snd_inv_def)
  then have "snd_win ?w" by (rule snd_inv_rmt_wnd) (rule unat_ucast_16_32)
  moreover have "snd_head ?w" using ok by (simp add: kcp_ok_def snd_inv_def snd_head_def cong: list.case_cong)
  ultimately have "snd_inv ?w" by (simp add: snd_inv_def)
  then have n: "\<not> in_flight (ikcp_parse_una ?w una) sn" using small una by (intro parse_una_clears) simp_all
  have "in_flight (input_seg ?m k ?h (s_data g)) sn"
    using f in_flight_sub [OF input_segs_sub] g(1) by simp
  moreover have "snd_sub (input_seg ?m k ?h (s_data g)) ?j"
  proof -
    have a: "snd_sub (input_ack i ?h) i" for i
      unfolding input_ack_def Let_def
      by (rule snd_sub_trans [OF snd_sub_ops(4) snd_sub_trans [OF parse_ack_sub]]) (simp add: snd_sub_ops)
    have p: "snd_sub (input_push ?m i ?h (s_data g)) i" for i
      unfolding input_push_def Let_def
      by (auto intro: snd_sub_trans [OF snd_sub_ops(1) snd_sub_ops(2)] snd_sub_ops(2))
    show ?thesis unfolding input_seg_def Let_def una' using a p snd_sub_ops(11) by simp
  qed
  ultimately have "in_flight ?j sn" using in_flight_sub by blast
  then show False using n by (simp add: in_flight_def)
qed

section \<open>What a flush writes and leaves\<close>

lemma flush_sent_wnd:
  assumes ok: "kcp_ok c" and g: "g \<in> set (flush_sent c)"
  shows "s_wnd g = word_of_int (ikcp_wnd_unused c)"
proof -
  have a: "s_wnd (ack_seg c x) = word_of_int (ikcp_wnd_unused c)" for x
    by (simp add: ack_seg_def split_beta flush_hdr_def)
  then have p: "s_wnd (probe_hdr c) = word_of_int (ikcp_wnd_unused c)" by (simp add: probe_hdr_def flush_hdr_def)
  have d: "s_wnd (flush_resend c t) = word_of_int (ikcp_wnd_unused c)"
    if "sending (k_current c) (flush_resent c) t" for t
    using that by (simp add: flush_resend_def resend_def)
  show ?thesis
    using g a p d by (auto simp: flush_sent_def head_segs_def probe_segs_def Let_def split: if_splits)
qed

lemma flush_kcp_settings:
  assumes "kcp_ok c"
  shows "k_snd_wnd (flush_kcp c) = k_snd_wnd c" "k_rmt_wnd (flush_kcp c) = k_rmt_wnd c"
    "k_rcv_wnd (flush_kcp c) = k_rcv_wnd c" "k_nocwnd (flush_kcp c) = k_nocwnd c"
    "k_snd_queue (flush_kcp c) = drop (moved (flush_window c) c) (k_snd_queue c)"
    "k_snd_nxt (flush_kcp c) = k_snd_nxt c + word_of_nat (moved (flush_window c) c)"
  by (rule flush_kcp_frame [OF assms], simp)+

lemma flush_kcp_probe:
  assumes "kcp_ok c"
  shows "k_probe_wait (flush_kcp c) = k_probe_wait (probe_timer c)"
    "k_ts_probe (flush_kcp c) = k_ts_probe (probe_timer c)"
  by (rule flush_kcp_shape [of c], simp add: flush_moved_eq [OF assms] heads_kcp_def probe_timer_def Let_def)+

lemma flush_kcp_cwnd: "1 \<le> k_cwnd (flush_kcp c)"
  unfolding flush_kcp_def Let_def by (rule flush_cwnd_bounds(1))

text \<open>A control block owes its peer a segment when it has acknowledgements or a window probe to answer.\<close>

definition owes :: "ikcpcb \<Rightarrow> bool" where
  "owes k \<longleftrightarrow> acks k \<noteq> [] \<or> k_probe k AND IKCP_ASK_TELL \<noteq> 0"

lemma ask_bits: "((p :: u32) OR IKCP_ASK_SEND) AND IKCP_ASK_TELL = p AND IKCP_ASK_TELL"
  by (simp add: bit.conj_disj_distrib2 ikcp_consts)

lemma owes_written: "owes c \<Longrightarrow> flush_sent c \<noteq> []"
proof -
  have "k_probe (probe_timer c) AND IKCP_ASK_TELL = k_probe c AND IKCP_ASK_TELL"
    by (simp add: probe_timer_def Let_def ask_bits)
  then show "owes c \<Longrightarrow> flush_sent c \<noteq> []"
    by (auto simp: owes_def flush_sent_def head_segs_def probe_segs_def Let_def)
qed

text \<open>A closed window is probed as soon as the probe timer is set and has run out.\<close>

lemma probe_written:
  assumes "k_rmt_wnd c = 0" "k_probe_wait c \<noteq> 0" "0 \<le> itimediff (k_current c) (k_ts_probe c)"
  shows "\<exists>g \<in> set (flush_sent c). s_cmd g = IKCP_CMD_WASK"
proof -
  have "k_probe (probe_timer c) AND IKCP_ASK_SEND \<noteq> 0"
    using assms by (simp add: probe_timer_def Let_def) (simp add: IKCP_ASK_SEND_def)
  then show ?thesis by (auto simp: flush_sent_def head_segs_def probe_segs_def Let_def)
qed

lemma probe_timer_starts: "k_rmt_wnd c = 0 \<Longrightarrow> k_probe_wait c = 0 \<Longrightarrow> k_probe_wait (probe_timer c) \<noteq> 0"
  by (simp add: probe_timer_def IKCP_PROBE_INIT_def)

text \<open>With nothing in flight and an open window, the flush moves the head of the queue.\<close>

lemma flush_moves:
  assumes ok: "kcp_ok c" and e: "k_snd_buf c = []" and q: "k_snd_queue c \<noteq> []"
    and w: "k_rmt_wnd c \<noteq> 0" "k_snd_wnd c \<noteq> 0" "k_cwnd c \<noteq> 0"
  shows "0 < moved (flush_window c) c"
proof -
  have "k_snd_una c = k_snd_nxt c" using ok e by (simp add: kcp_ok_def snd_inv_def snd_head_def)
  moreover have "flush_window c \<noteq> 0" using w by (simp add: flush_window_def Let_def imin_def)
  then have "0 < unat (flush_window c)" by (simp add: unat_gt_0)
  ultimately show ?thesis using q by (simp add: moved_def woff_def)
qed


lemma flush_keeps_empty:
  assumes "kcp_ok c" "k_snd_buf c = []" "moved (flush_window c) c = 0"
  shows "k_snd_buf (flush_kcp c) = []" "k_snd_queue (flush_kcp c) = k_snd_queue c"
  using assms by (rule_tac flush_kcp_frame [OF assms(1)], simp add: flush_moved_eq)+

section \<open>What an input leaves\<close>

lemma window_frames:
  "k_rmt_wnd (ikcp_shrink_buf k) = k_rmt_wnd k" "k_snd_wnd (ikcp_shrink_buf k) = k_snd_wnd k" "k_probe (ikcp_shrink_buf k) = k_probe k"
  "k_rmt_wnd (ikcp_parse_una k u) = k_rmt_wnd k" "k_snd_wnd (ikcp_parse_una k u) = k_snd_wnd k" "k_probe (ikcp_parse_una k u) = k_probe k"
  "k_rmt_wnd (ikcp_parse_ack k u) = k_rmt_wnd k" "k_snd_wnd (ikcp_parse_ack k u) = k_snd_wnd k" "k_probe (ikcp_parse_ack k u) = k_probe k"
  "k_rmt_wnd (ikcp_update_ack k rtt) = k_rmt_wnd k" "k_snd_wnd (ikcp_update_ack k rtt) = k_snd_wnd k" "k_probe (ikcp_update_ack k rtt) = k_probe k"
  "k_rmt_wnd (ikcp_ack_push mem k sn ts) = k_rmt_wnd k" "k_snd_wnd (ikcp_ack_push mem k sn ts) = k_snd_wnd k" "k_probe (ikcp_ack_push mem k sn ts) = k_probe k"
  "k_rmt_wnd (ikcp_parse_data k s) = k_rmt_wnd k" "k_snd_wnd (ikcp_parse_data k s) = k_snd_wnd k" "k_probe (ikcp_parse_data k s) = k_probe k"
  "k_rmt_wnd (grow_cwnd k) = k_rmt_wnd k" "k_snd_wnd (grow_cwnd k) = k_snd_wnd k" "k_probe (grow_cwnd k) = k_probe k"
proof -
  show "k_rmt_wnd (ikcp_shrink_buf k) = k_rmt_wnd k" "k_snd_wnd (ikcp_shrink_buf k) = k_snd_wnd k" "k_probe (ikcp_shrink_buf k) = k_probe k"
    by (subst shrink_buf_frame, simp)+
  show "k_rmt_wnd (ikcp_parse_una k u) = k_rmt_wnd k" "k_snd_wnd (ikcp_parse_una k u) = k_snd_wnd k" "k_probe (ikcp_parse_una k u) = k_probe k"
    by (subst parse_una_frame, simp)+
  show "k_rmt_wnd (ikcp_parse_ack k u) = k_rmt_wnd k" "k_snd_wnd (ikcp_parse_ack k u) = k_snd_wnd k" "k_probe (ikcp_parse_ack k u) = k_probe k"
    by (subst parse_ack_frame, simp)+
  show "k_rmt_wnd (ikcp_update_ack k rtt) = k_rmt_wnd k" "k_snd_wnd (ikcp_update_ack k rtt) = k_snd_wnd k" "k_probe (ikcp_update_ack k rtt) = k_probe k"
    by (subst update_ack_frame, simp)+
  show "k_rmt_wnd (ikcp_ack_push mem k sn ts) = k_rmt_wnd k" "k_snd_wnd (ikcp_ack_push mem k sn ts) = k_snd_wnd k" "k_probe (ikcp_ack_push mem k sn ts) = k_probe k"
    by (subst ack_push_frame, simp)+
  show "k_rmt_wnd (ikcp_parse_data k s) = k_rmt_wnd k" "k_snd_wnd (ikcp_parse_data k s) = k_snd_wnd k" "k_probe (ikcp_parse_data k s) = k_probe k"
    by (subst parse_data_frame, simp)+
  show "k_rmt_wnd (grow_cwnd k) = k_rmt_wnd k" "k_snd_wnd (grow_cwnd k) = k_snd_wnd k" "k_probe (grow_cwnd k) = k_probe k"
    by (subst grow_cwnd_frame, simp)+
qed

lemma input_segs_settings:
  "k_snd_wnd (input_segs mem k gs) = k_snd_wnd k"
  "gs \<noteq> [] \<Longrightarrow> \<forall>g \<in> set gs. s_wnd g = w \<Longrightarrow> k_rmt_wnd (input_segs mem k gs) = ucast (ucast w :: u16)"
proof -
  show "k_snd_wnd (input_segs mem k gs) = k_snd_wnd k"
    by (induction gs arbitrary: k)
      (simp_all add: input_seg_def input_ack_def input_push_def Let_def window_frames)
  have one: "k_rmt_wnd (input_seg m j (hdr_of_seg g) d) = ucast (ucast (s_wnd g) :: u16)" for m j g d
    by (simp add: input_seg_def input_ack_def input_push_def Let_def window_frames hdr_of_seg_def)
  show "gs \<noteq> [] \<Longrightarrow> \<forall>g \<in> set gs. s_wnd g = w \<Longrightarrow> k_rmt_wnd (input_segs mem k gs) = ucast (ucast w :: u16)"
  proof (induction gs arbitrary: k)
    case (Cons g gs)
    then show ?case by (cases gs) (simp_all add: one)
  qed simp
qed

text \<open>What is owed stays owed, and a probe or a fragment the receiver has already makes it owe an answer.\<close>

lemma input_seg_owes:
  assumes "kcp_ok k" "unat (k_ackcount k) < 2 ^ 29" "owes k"
  shows "owes (input_seg mem k h d)"
proof -
  have "k_probe (input_seg mem k h d) = k_probe k \<or> k_probe (input_seg mem k h d) = k_probe k OR IKCP_ASK_TELL"
    by (simp add: input_seg_def input_ack_def input_push_def Let_def window_frames)
  moreover have "(k_probe k OR IKCP_ASK_TELL) AND IKCP_ASK_TELL \<noteq> 0" by simp (simp add: IKCP_ASK_TELL_def)
  ultimately show ?thesis using assms(3) input_seg_acks [OF assms(1,2), of mem h d] by (auto simp: owes_def)
qed

lemma input_seg_asks:
  assumes k: "kcp_ok k" "unat (k_ackcount k) < 2 ^ 29" and g: "wire_ok conv g"
    and old: "unat (k_rcv_nxt k) < 2 ^ 30" "unat (k_rcv_wnd k) < 2 ^ 16"
    and ask: "s_cmd g = IKCP_CMD_WASK \<or> s_cmd g = IKCP_CMD_PUSH \<and> s_sn g < k_rcv_nxt k"
  shows "owes (input_seg mem k (hdr_of_seg g) d)"
proof -
  define j where "j = ikcp_shrink_buf (ikcp_parse_una (k\<lparr>k_rmt_wnd := ucast (h_wnd (hdr_of_seg g))\<rparr>) (h_una (hdr_of_seg g)))"
  have cmd: "ucast (h_cmd (hdr_of_seg g)) = s_cmd g" using wire_ok_cmd [OF g] by (simp add: hdr_of_seg_def)
  have j: "ack_inv j" "unat (k_ackcount j) < 2 ^ 29" "k_rcv_nxt j = k_rcv_nxt k" "k_rcv_wnd j = k_rcv_wnd k"
    using k by (simp_all add: j_def kcp_ok_def rcv_nxt_frames)
      (subst shrink_buf_frame, subst parse_una_frame, simp)
  have eq: "input_seg mem k (hdr_of_seg g) d =
      (if s_cmd g = IKCP_CMD_ACK then input_ack j (hdr_of_seg g)
       else if s_cmd g = IKCP_CMD_PUSH then input_push mem j (hdr_of_seg g) d
       else if s_cmd g = IKCP_CMD_WASK then j\<lparr>k_probe := k_probe j OR IKCP_ASK_TELL\<rparr> else j)"
    unfolding input_seg_def Let_def j_def [symmetric] cmd ..
  show ?thesis
  proof (cases "s_cmd g = IKCP_CMD_WASK")
    case True
    then show ?thesis unfolding eq by (simp add: owes_def ikcp_consts)
  next
    case False
    then have p: "s_cmd g = IKCP_CMD_PUSH" "s_sn g < k_rcv_nxt k" using ask by auto
    let ?d = "k_rcv_nxt k + k_rcv_wnd k - s_sn g"
    have "unat (k_rcv_nxt k + k_rcv_wnd k) = unat (k_rcv_nxt k) + unat (k_rcv_wnd k)"
      using old by (simp add: unat_plus_32)
    then have "0 < unat ?d" "unat ?d < 2 ^ 31"
      using p(2) old by (simp_all add: unat_diff_32 word_less_nat_alt)
    then have "0 < itimediff (k_rcv_nxt k + k_rcv_wnd k) (s_sn g)" by (simp add: itimediff_def sint_pos_32)
    moreover have "itimediff (s_sn g) (k_rcv_nxt k + k_rcv_wnd k) = - itimediff (k_rcv_nxt k + k_rcv_wnd k) (s_sn g)"
      by (rule itimediff_swap) (use calculation in simp)
    ultimately have "itimediff (h_sn (hdr_of_seg g)) (k_rcv_nxt j + k_rcv_wnd j) < 0"
      by (simp add: j hdr_of_seg_def)
    moreover have "acks (ikcp_ack_push mem j x y) \<noteq> []" for x y using ack_push_acks(1) [OF j(1,2)] by simp
    ultimately have "acks (input_push mem j (hdr_of_seg g) d) \<noteq> []"
      by (simp add: input_push_def Let_def)
    then show ?thesis unfolding eq using p(1) by (simp add: owes_def ikcp_consts)
  qed
qed


lemma input_segs_asks:
  assumes "kcp_ok k" "rcv_stream P N k" "length P < 2 ^ 30" "acks_ok k"
    and "\<forall>g \<in> set gs. wire_ok conv g \<and> from_stream P g"
    and "unat (k_ackcount k) + length gs < 2 ^ 29" "unat (k_rcv_wnd k) < 2 ^ 16"
    and "owes k \<or> (\<exists>g \<in> set gs. s_cmd g = IKCP_CMD_WASK \<or> s_cmd g = IKCP_CMD_PUSH \<and> s_sn g < k_rcv_nxt k)"
  shows "owes (input_segs mem k gs)"
  using assms
proof (induction gs arbitrary: k N)
  case (Cons g gs)
  let ?k = "input_seg (mem (length (dgram (g # gs)))) k (hdr_of_seg g) (s_data g)"
  have g: "wire_ok conv g" "from_stream P g" using Cons.prems(5) by auto
  have P: "length P \<le> 2 ^ 31" using Cons.prems(3) by simp
  have len: "unat (h_len (hdr_of_seg g)) \<le> length (s_data g)"
    using g(1) by (simp add: wire_ok_def seg_frg_ok_def seg_ok_def hdr_of_seg_def)
  have c: "unat (k_ackcount k) < 2 ^ 29" using Cons.prems(6) by simp
  have inv: "rcv_inv k" using Cons.prems(1) by (simp add: kcp_ok_def)
  have ok: "kcp_ok ?k" "unat (k_ackcount ?k) + length gs < 2 ^ 29"
    using input_seg_ok [OF Cons.prems(1) len c, of "mem (length (dgram (g # gs)))"] Cons.prems(6) by simp_all
  obtain N1 where N1: "rcv_stream P N1 ?k"
    using input_seg_stream [OF inv Cons.prems(2) P g] by blast
  have gr: "rcv_grows k ?k" "acks_ok ?k"
    using input_seg_grows [OF Cons.prems(1,2) P g c Cons.prems(4)] by auto
  have old: "unat (k_rcv_nxt k) < 2 ^ 30"
    using rcv_counts(1) [OF inv Cons.prems(2) P] Cons.prems(2,3) by (auto simp: rcv_stream_def)
  have "owes ?k \<or> (\<exists>x \<in> set gs. s_cmd x = IKCP_CMD_WASK \<or> s_cmd x = IKCP_CMD_PUSH \<and> s_sn x < k_rcv_nxt ?k)"
    using Cons.prems(8) input_seg_owes [OF Cons.prems(1) c] gr(1)
      input_seg_asks [OF Cons.prems(1) c g(1) old Cons.prems(7)]
    by (auto simp: rcv_grows_def intro: less_le_trans)
  then show ?case using Cons.IH [OF ok(1) N1 Cons.prems(3) gr(2) _ ok(2)] Cons.prems(5,7) by simp
qed simp

lemma grow_cwnd_keeps:
  "k_rcv_nxt (grow_cwnd k) = k_rcv_nxt k" "acks (grow_cwnd k) = acks k"
  "in_flight (grow_cwnd k) sn = in_flight k sn"
  by (subst grow_cwnd_frame, simp) (simp_all add: in_flight_def)

lemma owes_grow_cwnd: "owes (grow_cwnd k) = owes k"
  by (simp add: owes_def grow_cwnd_keeps window_frames)

section \<open>The two inputs\<close>

text \<open>The two inputs of the exchange, each from the state its endpoint is in.\<close>

lemma missing_arrives:
  assumes k: "kcp_ok k" "rcv_stream P N k" "length P \<le> 2 ^ 31" "acks_ok k"
    and gs: "\<forall>g \<in> set gs. wire_ok (k_conv k) g \<and> from_stream P g"
    and n: "unat (k_ackcount k) + length (dgram gs) < 2 ^ 29"
    and s: "rcv_room k" "s \<in> set gs" "s_cmd s = IKCP_CMD_PUSH" "s_sn s = k_rcv_nxt k"
    and i: "ikcp_input mem k (Some (dgram gs)) = (r, k')"
  shows "k_rcv_nxt k < k_rcv_nxt k' \<and> acks k' \<noteq> []"
    and "unat (k_nrcv_que k') + unat (k_rcv_nxt k) = unat (k_nrcv_que k) + unat (k_rcv_nxt k')"
    and "k_rcv_wnd k' = k_rcv_wnd k" "rcv_drained k \<Longrightarrow> rcv_drained k'"
proof -
  have c: "unat (k_ackcount k) + length gs < 2 ^ 29" using n length_dgram [of gs] by simp
  have a: "k_rcv_nxt k < k_rcv_nxt (input_segs mem k gs)"
    by (rule input_segs_next [OF k gs c s])
  then have "k_rcv_nxt (input_segs mem k gs) \<noteq> k_rcv_nxt k" by (rule less_imp_neq [symmetric])
  then have b: "acks (input_segs mem k gs) \<noteq> []"
    using input_segs_advance_acked [OF k(1) c] gs by blast
  have k': "k' = input_segs mem k gs \<or> k' = grow_cwnd (input_segs mem k gs)"
    using input_result [OF _ i] gs by blast
  then show "k_rcv_nxt k < k_rcv_nxt k' \<and> acks k' \<noteq> []"
    using a b by (elim disjE) (simp_all only: grow_cwnd_keeps simp_thms)
  obtain N' where N': "rcv_stream P N' k'" "rcv_taken N' k' = rcv_taken N k"
    using input_reads [OF k(1-3) refl refl gs n i] by blast
  have "rcv_inv k" "rcv_inv k'" using k(1) ikcp_input_ok [OF k(1) n i] by (simp_all add: kcp_ok_def)
  then show "unat (k_nrcv_que k') + unat (k_rcv_nxt k) = unat (k_nrcv_que k) + unat (k_rcv_nxt k')"
    using rcv_counts [OF _ k(2,3)] rcv_counts [OF _ N'(1) k(3)] N'(2) by simp
  have "k_rcv_wnd (grow_cwnd j) = k_rcv_wnd j" for j by (subst grow_cwnd_frame) simp
  then show "k_rcv_wnd k' = k_rcv_wnd k" using k' by (elim disjE) (simp_all add: input_segs_wnd)
  show "rcv_drained k'" if "rcv_drained k"
    using input_segs_drained [OF that] k' by (elim disjE) (simp_all add: drained_frames)
qed

lemma ack_arrives:
  assumes "kcp_ok k" "\<forall>s \<in> set (k_snd_buf k). unat (s_sn s) < 2 ^ 31"
    and gs: "gs \<noteq> []" "\<forall>g \<in> set gs. wire_ok (k_conv k) g \<and> s_una g = una"
    and una: "unat una < 2 ^ 31" "sn < una"
    and i: "ikcp_input mem k (Some (dgram gs)) = (r, k')"
  shows "\<not> in_flight k' sn"
proof -
  have "\<not> in_flight (input_segs mem k gs) sn"
    using gs(2) by (intro input_segs_clears [OF assms(1,2) gs(1) _ una]) blast
  moreover have "k' = input_segs mem k gs \<or> k' = grow_cwnd (input_segs mem k gs)"
    using input_result [OF _ i] gs(2) by blast
  ultimately show ?thesis by (elim disjE) (simp_all only: grow_cwnd_keeps simp_thms)
qed

end
