(* ===== verification/Exchange.thy ===== *)
theory Exchange
  imports Progress
begin

text \<open>
  The protocol is never stuck: while the receiver's queue has room, the next fragment it misses can always reach it. The
  sender still has the fragment; its timer comes due, the datagram arrives, the acknowledgement goes
  back, and the sender drops the fragment. A closed window is probed and answered.
\<close>

section \<open>The endpoints of a run\<close>

lemma sys_no_lossD:
  assumes "sys_no_loss conv s"
  shows "ep_own conv (y_a s)" "ep_own conv (y_b s)" "ep_reads (e_hist (y_a s)) (e_sent (y_a s)) (y_b s)"
    "no_loss conv (y_a s) (y_b s) (y_ba s)" "no_loss conv (y_b s) (y_a s) (y_ab s)"
    "net_ok conv (e_hist (y_a s)) (y_ab s)" "ep_reads (e_hist (y_b s)) (e_sent (y_b s)) (y_a s)"
    "net_ok conv (e_hist (y_b s)) (y_ba s)"
  using assms by (auto simp: sys_no_loss_def sys_inv_def)

lemma ep_ownD:
  assumes "ep_own conv e"
  shows "kcp_ok (e_kcp e)" "mtu_ok 1400 (e_kcp e)" "k_conv (e_kcp e) = conv"
    "snd_stream (e_hist e) (e_kcp e)" "length (e_hist e) \<le> 2 ^ 31"
    "unat (k_ackcount (e_kcp e)) < 2 ^ 31"
    "s \<in> set (k_snd_buf (e_kcp e)) \<Longrightarrow> unat (s_sn s) < 2 ^ 31"
proof -
  show s: "kcp_ok (e_kcp e)" "mtu_ok 1400 (e_kcp e)" "k_conv (e_kcp e) = conv"
    "snd_stream (e_hist e) (e_kcp e)" "length (e_hist e) \<le> 2 ^ 31"
    "unat (k_ackcount (e_kcp e)) < 2 ^ 31"
    using assms by (auto simp: ep_own_def)
  assume "s \<in> set (k_snd_buf (e_kcp e))"
  then obtain n i where "i < n" "n \<le> length (e_hist e)" "s_sn s = word_of_nat i"
    using s(4) by (auto simp: snd_stream_def)
  then show "unat (s_sn s) < 2 ^ 31" using s(5) by (simp add: word_of_nat_eq_32)
qed

abbreviation kcp_a :: "sys \<Rightarrow> ikcpcb" where
  "kcp_a s \<equiv> e_kcp (y_a s)"

abbreviation kcp_b :: "sys \<Rightarrow> ikcpcb" where
  "kcp_b s \<equiv> e_kcp (y_b s)"

section \<open>The run between the endpoints\<close>

definition idle :: "ikcpcb \<Rightarrow> bool" where
  "idle k \<longleftrightarrow> k_snd_buf k = [] \<and> k_snd_queue k = []"

text \<open>
  \<open>keeps e e'\<close>: no new message and no change of the windows, and what the endpoint reached stays reached. A run is
  \<open>calm\<close> when it keeps both endpoints. In a \<open>quiet\<close> run the receiver's application reads nothing either, so its queue grows
  with \<^verbatim>\<open>rcv_nxt\<close>.
\<close>

definition keeps :: "endpoint \<Rightarrow> endpoint \<Rightarrow> bool" where
  "keeps e e' \<longleftrightarrow> e_hist e' = e_hist e \<and> e_sent e' = e_sent e \<and>
     k_snd_wnd (e_kcp e') = k_snd_wnd (e_kcp e) \<and> k_rcv_wnd (e_kcp e') = k_rcv_wnd (e_kcp e) \<and>
     (rcv_drained (e_kcp e) \<longrightarrow> rcv_drained (e_kcp e')) \<and> (idle (e_kcp e) \<longrightarrow> idle (e_kcp e')) \<and>
     k_snd_nxt (e_kcp e) \<le> k_snd_nxt (e_kcp e') \<and> k_rcv_nxt (e_kcp e) \<le> k_rcv_nxt (e_kcp e') \<and>
     length (e_got e) \<le> length (e_got e')"

definition calm :: "sys \<Rightarrow> sys \<Rightarrow> bool" where
  "calm s t \<longleftrightarrow> sys_step\<^sup>*\<^sup>* s t \<and> keeps (y_a s) (y_a t) \<and> keeps (y_b s) (y_b t)"

definition quiet :: "sys \<Rightarrow> sys \<Rightarrow> bool" where
  "quiet s t \<longleftrightarrow> calm s t \<and>
     unat (k_nrcv_que (kcp_b t)) + unat (k_rcv_nxt (kcp_b s)) = unat (k_nrcv_que (kcp_b s)) + unat (k_rcv_nxt (kcp_b t))"

lemma keeps_refl: "keeps e e"
  by (simp add: keeps_def)

lemma keeps_trans: "keeps a b \<Longrightarrow> keeps b c \<Longrightarrow> keeps a c"
  by (auto simp: keeps_def)

lemma calm_refl: "calm s s"
  by (simp add: calm_def keeps_refl)

lemma calm_trans [trans]: "calm r s \<Longrightarrow> calm s t \<Longrightarrow> calm r t"
  unfolding calm_def using keeps_trans by (metis rtranclp_trans)

lemma quiet_refl: "quiet s s"
  by (simp add: quiet_def calm_refl)

lemma quiet_trans [trans]: "quiet r s \<Longrightarrow> quiet s t \<Longrightarrow> quiet r t"
  unfolding quiet_def by (auto intro: calm_trans)

lemma quiet_calm: "quiet s t \<Longrightarrow> calm s t"
  by (simp add: quiet_def)

lemma calm_good: "calm s t \<Longrightarrow> sys_no_loss conv s \<Longrightarrow> sys_no_loss conv t"
  unfolding calm_def using lossless.run_good by blast

text \<open>One step of an endpoint: a call of \<^verbatim>\<open>ikcp_update\<close>, a datagram, a receive.\<close>

lemma keeps_update:
  assumes "ep_own conv e" "ikcp_update (e_kcp e) t = (k', out)"
  shows "keeps e (e\<lparr>e_kcp := k'\<rparr>)"
proof -
  let ?k = "e_kcp e"
  note E = ep_ownD [OF assms(1)]
  show ?thesis
  proof (rule update_cases [OF E(1,2,6) assms(2)])
    fix x y c
    assume "c = ?k\<lparr>k_current := t, k_updated := x, k_ts_flush := y\<rparr>" "k' = c"
    then show ?thesis by (simp add: keeps_def idle_def rcv_drained_def)
  next
    fix x y c
    assume c: "c = ?k\<lparr>k_current := t, k_updated := x, k_ts_flush := y\<rparr>" "kcp_ok c" "k' = flush_kcp c"
    have "snd_stream (e_hist e) c" using E(4) by (simp add: c(1) clock_fields)
    then have n: "k_snd_nxt c \<le> k_snd_nxt k'" using flush_snd_nxt [OF c(2) _ E(5)] c(3) by simp
    have r: "k_rcv_nxt k' = k_rcv_nxt ?k" "k_rcv_buf k' = k_rcv_buf ?k" "k_nrcv_que k' = k_nrcv_que ?k"
      "k_rcv_wnd k' = k_rcv_wnd ?k" "k_snd_wnd k' = k_snd_wnd ?k"
      unfolding c(3) by (rule flush_kcp_frame [OF c(2)], simp add: c(1))+
    have "idle k'" if "idle ?k"
      using flush_keeps_empty [OF c(2)] that by (simp add: idle_def c(1,3) moved_def)
    then show ?thesis using n r rcv_drained_same [OF r(2,1,3,4)] by (simp add: keeps_def c(1))
  qed
qed

lemma keeps_input:
  assumes own: "ep_own conv e" and reads: "ep_reads P ms e" and P: "length P \<le> 2 ^ 31" and a: "acks_ok (e_kcp e)"
    and net: "net_ok conv P net" "d \<in> net" and n: "unat (k_ackcount (e_kcp e)) + length d < 2 ^ 29"
    and i: "ikcp_input mem (e_kcp e) (Some d) = (r, k')"
  shows "keeps e (e\<lparr>e_kcp := k'\<rparr>)"
    and "unat (k_nrcv_que k') + unat (k_rcv_nxt (e_kcp e)) = unat (k_nrcv_que (e_kcp e)) + unat (k_rcv_nxt k')"
proof -
  let ?k = "e_kcp e"
  note E = ep_ownD [OF own]
  obtain N where N: "rcv_stream P N ?k" using reads by (auto simp: ep_reads_def)
  obtain gs where d: "d = dgram gs" and gs: "\<forall>g \<in> set gs. wire_ok (k_conv ?k) g \<and> from_stream P g"
    using net E(3) by (auto simp: net_ok_def)
  note n' = n [unfolded d] and i' = i [unfolded d]
  have k': "k' = input_segs mem ?k gs \<or> k' = grow_cwnd (input_segs mem ?k gs)"
    using input_result [OF _ i'] gs by blast
  have sub: "snd_sub k' ?k" using ikcp_input_sub [of mem ?k d] i by simp
  have wnd: "k_rcv_wnd (grow_cwnd j) = k_rcv_wnd j" for j by (subst grow_cwnd_frame) simp
  have w: "k_snd_wnd k' = k_snd_wnd ?k" "k_rcv_wnd k' = k_rcv_wnd ?k"
    using k' by (auto simp: window_frames input_segs_settings(1) input_segs_wnd wnd)
  have dr: "rcv_drained k'" if "rcv_drained ?k"
    using input_segs_drained [OF that] k' by (elim disjE) (simp_all add: drained_frames)
  have id: "idle k'" if "idle ?k"
    using sub that by (auto simp: idle_def snd_sub_def)
  have le: "k_rcv_nxt ?k \<le> k_rcv_nxt k'" using input_grows [OF E(1) N P a gs n' i'] by (simp add: rcv_grows_def)
  show "keeps e (e\<lparr>e_kcp := k'\<rparr>)" using w dr id le sub by (simp add: keeps_def snd_sub_def)
  have inv: "rcv_inv ?k" "rcv_inv k'" using E(1) ikcp_input_ok [OF E(1) n i] by (simp_all add: kcp_ok_def)
  obtain N' where N': "rcv_stream P N' k'" "rcv_taken N' k' = rcv_taken N ?k"
    using input_reads [OF E(1) N P refl refl gs n' i'] by blast
  show "unat (k_nrcv_que k') + unat (k_rcv_nxt ?k) = unat (k_nrcv_que ?k) + unat (k_rcv_nxt k')"
    using rcv_counts [OF inv(1) N P] rcv_counts [OF inv(2) N'(1) P] N'(2) by simp
qed

lemma keeps_recv:
  assumes own: "ep_own conv e" and reads: "ep_reads P ms e" and P: "length P \<le> 2 ^ 31"
    and recv: "ikcp_recv (e_kcp e) True len = (r, out, k')" "0 \<le> len"
  shows "keeps e (e\<lparr>e_kcp := k', e_got := e_got e @ xs\<rparr>)"
proof -
  let ?k = "e_kcp e"
  obtain N where N: "rcv_stream P N ?k" using reads by (auto simp: ep_reads_def)
  have inv: "rcv_inv ?k" using ep_ownD(1) [OF own] by (simp add: kcp_ok_def)
  have s: "k_snd_wnd k' = k_snd_wnd ?k" "k_rcv_wnd k' = k_rcv_wnd ?k" "k_snd_nxt k' = k_snd_nxt ?k"
    "k_snd_buf k' = k_snd_buf ?k" "k_snd_queue k' = k_snd_queue ?k"
    by (rule recv_shape [OF recv(1)], simp)+
  have "k' = ?k \<or> k' = recv_tell (k_rcv_wnd ?k \<le> k_nrcv_que ?k) (rcv_move (recv_take False ?k))"
    using recv by (auto simp: ikcp_recv_eq Let_def split: if_splits)
  then have "rcv_drained k'" if "rcv_drained ?k"
    using that rcv_move_drained by (auto simp: recv_tell_def drained_frames)
  then show ?thesis
    using s recv_grows [OF inv N P recv] by (simp add: keeps_def idle_def rcv_grows_def)
qed

lemma quiet_a:
  assumes "ep_step (y_ba s) (y_a s) out a'" "keeps (y_a s) a'"
  shows "quiet s (s\<lparr>y_a := a', y_ab := y_ab s \<union> out\<rparr>)"
  using assms(2) r_into_rtranclp [of sys_step, OF step_a [OF assms(1)]] by (simp add: quiet_def calm_def keeps_refl)

lemma quiet_b:
  assumes "ep_step (y_ab s) (y_b s) out b'" "keeps (y_b s) b'"
    and "unat (k_nrcv_que (e_kcp b')) + unat (k_rcv_nxt (kcp_b s)) =
      unat (k_nrcv_que (kcp_b s)) + unat (k_rcv_nxt (e_kcp b'))"
  shows "quiet s (s\<lparr>y_b := b', y_ba := y_ba s \<union> out\<rparr>)"
  using assms(2,3) r_into_rtranclp [of sys_step, OF step_b [OF assms(1)]] by (simp add: quiet_def calm_def keeps_refl)

section \<open>The steps of an exchange\<close>

text \<open>The sender flushes at a time when whatever waits for \<open>r\<close> is due.\<close>

lemma a_flushes:
  assumes "sys_no_loss conv s"
  obtains s' c t x y gss where "quiet s s'" "y_b s' = y_b s" "y_ba s' = y_ba s"
    "c = (kcp_a s)\<lparr>k_current := t, k_updated := x, k_ts_flush := y\<rparr>" "0 \<le> itimediff t r" "kcp_ok c"
    "kcp_a s' = flush_kcp c" "dgram ` set gss \<subseteq> y_ab s'" "concat gss = flush_sent c"
    "\<forall>g \<in> set gss. length (dgram g) \<le> 1400 \<and> (\<forall>x \<in> set g. wire_ok conv x \<and> from_stream (e_hist (y_a s)) x)"
proof -
  let ?k = "kcp_a s"
  note A = ep_ownD [OF sys_no_lossD(1) [OF assms]]
  obtain t where t: "snd (update_clock ?k t)" "0 \<le> itimediff t r" using flush_time [of ?k r] by blast
  obtain k' out where u: "ikcp_update ?k t = (k', out)" by fastforce
  obtain x y c gss where c: "c = ?k\<lparr>k_current := t, k_updated := x, k_ts_flush := y\<rparr>" "kcp_ok c"
      "k' = flush_kcp c"
    and o: "out = map dgram gss" "concat gss = flush_sent c"
    and size: "\<forall>g \<in> set gss. g \<noteq> [] \<and> length (dgram g) \<le> 1400"
    by (rule update_cases [OF A(1,2,6) u]) (use t(1) in blast)+
  have str: "snd_stream (e_hist (y_a s)) c" using A(4) by (simp add: c(1) clock_fields)
  have w: "wire_ok conv x \<and> from_stream (e_hist (y_a s)) x" if "g \<in> set gss" "x \<in> set g" for g x
  proof -
    have "x \<in> set (flush_sent c)" using that o(2) by (metis UN_I set_concat)
    then show ?thesis using flush_sent_wire [OF c(2)] snd_stream_flush(2) [OF c(2) str] A(3) c(1) by auto
  qed
  let ?s = "s\<lparr>y_a := (y_a s)\<lparr>e_kcp := k'\<rparr>, y_ab := y_ab s \<union> set out\<rparr>"
  have q: "quiet s ?s" by (rule quiet_a [OF ep_update [OF u] keeps_update [OF sys_no_lossD(1) [OF assms] u]])
  have d: "dgram ` set gss \<subseteq> y_ab ?s" by (auto simp: o(1))
  have size': "\<forall>g \<in> set gss. length (dgram g) \<le> 1400 \<and> (\<forall>x \<in> set g. wire_ok conv x \<and> from_stream (e_hist (y_a s)) x)"
    using w size by blast
  show thesis by (rule that [OF q _ _ c(1) t(2) c(2) _ d o(2) size']) (simp_all add: c(3))
qed

text \<open>A fragment in flight is sent again.\<close>

lemma a_sends:
  assumes "sys_no_loss conv s" "in_flight (kcp_a s) sn"
  obtains s' gs g where "quiet s s'" "y_b s' = y_b s" "y_ba s' = y_ba s" "k_ackcount (kcp_a s') = 0"
    "k_rmt_wnd (kcp_a s') = k_rmt_wnd (kcp_a s)"
    "dgram gs \<in> y_ab s'" "length (dgram gs) \<le> 1400" "\<forall>x \<in> set gs. wire_ok conv x \<and> from_stream (e_hist (y_a s)) x"
    "g \<in> set gs" "s_cmd g = IKCP_CMD_PUSH" "s_sn g = sn"
proof -
  obtain v where v: "v \<in> set (k_snd_buf (kcp_a s))" "s_sn v = sn" using assms(2) by (auto simp: in_flight_def)
  obtain s' c t x y gss where f: "quiet s s'" "y_b s' = y_b s" "y_ba s' = y_ba s"
    "c = (kcp_a s)\<lparr>k_current := t, k_updated := x, k_ts_flush := y\<rparr>" "0 \<le> itimediff t (s_resendts v)" "kcp_ok c"
    "kcp_a s' = flush_kcp c" "dgram ` set gss \<subseteq> y_ab s'" "concat gss = flush_sent c"
    "\<forall>g \<in> set gss. length (dgram g) \<le> 1400 \<and> (\<forall>x \<in> set g. wire_ok conv x \<and> from_stream (e_hist (y_a s)) x)"
    by (rule a_flushes [OF assms(1), of "s_resendts v"])
  let ?g = "flush_resend c v"
  have b: "v \<in> set (k_snd_buf c)" using v(1) by (simp add: f(4))
  then have "v \<in> set (k_snd_buf (flush_moved c))" by (simp add: flush_moved_eq [OF f(6)])
  moreover have "sending (k_current c) (flush_resent c) v"
    using f(5) f(4) by (simp add: sending_def send_decision_def)
  ultimately have "?g \<in> set (concat gss)" by (simp add: f(9) flush_sent_def)
  then obtain gs where gs: "gs \<in> set gss" "?g \<in> set gs" by auto
  have "s_cmd v = IKCP_CMD_PUSH" using snd_winD(8) [of c v] f(6) b by (simp add: kcp_ok_def snd_inv_def)
  then have "s_cmd ?g = IKCP_CMD_PUSH" "s_sn ?g = sn" using v(2) by (simp_all add: flush_resend_def)
  moreover have "k_rmt_wnd (kcp_a s') = k_rmt_wnd (kcp_a s)" using flush_kcp_settings(2) [OF f(6)] f(4,7) by simp
  moreover have "k_ackcount (kcp_a s') = 0" using flush_kcp_rcv(3) [OF f(6)] f(7) by simp
  ultimately show thesis using f(8,10) gs by (intro that [OF f(1-3), of gs ?g]) auto
qed

text \<open>A sender that believes the window closed asks for it, if necessary after the flush that sets the probe timer.\<close>

lemma a_probes_now:
  assumes "sys_no_loss conv s" "k_rmt_wnd (kcp_a s) = 0" "k_probe_wait (kcp_a s) \<noteq> 0"
  obtains s' gs g where "quiet s s'" "y_b s' = y_b s" "y_ba s' = y_ba s" "k_ackcount (kcp_a s') = 0"
    "dgram gs \<in> y_ab s'" "length (dgram gs) \<le> 1400" "\<forall>x \<in> set gs. wire_ok conv x \<and> from_stream (e_hist (y_a s)) x"
    "g \<in> set gs" "s_cmd g = IKCP_CMD_WASK"
proof -
  obtain s' c t x y gss where f: "quiet s s'" "y_b s' = y_b s" "y_ba s' = y_ba s"
    "c = (kcp_a s)\<lparr>k_current := t, k_updated := x, k_ts_flush := y\<rparr>" "0 \<le> itimediff t (k_ts_probe (kcp_a s))" "kcp_ok c"
    "kcp_a s' = flush_kcp c" "dgram ` set gss \<subseteq> y_ab s'" "concat gss = flush_sent c"
    "\<forall>g \<in> set gss. length (dgram g) \<le> 1400 \<and> (\<forall>x \<in> set g. wire_ok conv x \<and> from_stream (e_hist (y_a s)) x)"
    by (rule a_flushes [OF assms(1), of "k_ts_probe (kcp_a s)"])
  obtain g where g: "g \<in> set (concat gss)" "s_cmd g = IKCP_CMD_WASK"
    using probe_written [of c] assms(2,3) f(5) by (auto simp: f(4,9))
  obtain gs where gs: "gs \<in> set gss" "g \<in> set gs" using g(1) by auto
  have "k_ackcount (kcp_a s') = 0" using flush_kcp_rcv(3) [OF f(6)] f(7) by simp
  then show thesis using f(8,10) gs g(2) by (intro that [OF f(1-3), of gs g]) auto
qed

lemma a_probes:
  assumes "sys_no_loss conv s" "k_rmt_wnd (kcp_a s) = 0"
  obtains s' gs g where "quiet s s'" "y_b s' = y_b s" "y_ba s' = y_ba s" "k_ackcount (kcp_a s') = 0"
    "dgram gs \<in> y_ab s'" "length (dgram gs) \<le> 1400" "\<forall>x \<in> set gs. wire_ok conv x \<and> from_stream (e_hist (y_a s)) x"
    "g \<in> set gs" "s_cmd g = IKCP_CMD_WASK"
proof (cases "k_probe_wait (kcp_a s) = 0")
  case False
  show thesis by (rule a_probes_now [OF assms False that])
next
  case True
  obtain u c t x y gss where f: "quiet s u" "y_b u = y_b s" "y_ba u = y_ba s"
    "c = (kcp_a s)\<lparr>k_current := t, k_updated := x, k_ts_flush := y\<rparr>" "0 \<le> itimediff t 0" "kcp_ok c"
    "kcp_a u = flush_kcp c" "dgram ` set gss \<subseteq> y_ab u" "concat gss = flush_sent c"
    by (rule a_flushes [OF assms(1), of 0])
  have u: "sys_no_loss conv u" "e_hist (y_a u) = e_hist (y_a s)"
    using f(1) calm_good [OF _ assms(1)] by (auto simp: quiet_def calm_def keeps_def)
  have p: "k_rmt_wnd (kcp_a u) = 0" "k_probe_wait (kcp_a u) \<noteq> 0"
    using flush_kcp_settings(2) [OF f(6)] flush_kcp_probe(1) [OF f(6)] probe_timer_starts [of c] assms(2) True
    by (simp_all add: f(4,7))
  show thesis
  proof (rule a_probes_now [OF u(1) p])
    fix s' gs g
    assume "quiet u s'" "y_b s' = y_b u" "y_ba s' = y_ba u" "k_ackcount (kcp_a s') = 0"
      "dgram gs \<in> y_ab s'" "length (dgram gs) \<le> 1400" "\<forall>x \<in> set gs. wire_ok conv x \<and> from_stream (e_hist (y_a u)) x"
      "g \<in> set gs" "s_cmd g = IKCP_CMD_WASK"
    then show thesis using f(1-3) u(2) by (intro that [of s' gs g]) (auto intro: quiet_trans)
  qed
qed

text \<open>The receiver flushes: what it owes is on the way, with its window.\<close>

lemma b_flushes:
  assumes "sys_no_loss conv s"
  obtains s' where "quiet s s'" "y_a s' = y_a s" "y_ab s' = y_ab s" "k_ackcount (kcp_b s') = 0"
    "k_rcv_nxt (kcp_b s') = k_rcv_nxt (kcp_b s)"
    "owes (kcp_b s) \<longrightarrow> (\<exists>gs. gs \<noteq> [] \<and> dgram gs \<in> y_ba s' \<and> length (dgram gs) \<le> 1400 \<and>
      (\<forall>g \<in> set gs. wire_ok conv g \<and> s_una g = k_rcv_nxt (kcp_b s) \<and>
         s_wnd g = word_of_int (ikcp_wnd_unused (kcp_b s))))"
proof -
  let ?k = "kcp_b s"
  note B = ep_ownD [OF sys_no_lossD(2) [OF assms]]
  obtain t where t: "snd (update_clock ?k t)" using flush_time [of ?k 0] by blast
  obtain k' out where u: "ikcp_update ?k t = (k', out)" by fastforce
  obtain x y c gss where c: "c = ?k\<lparr>k_current := t, k_updated := x, k_ts_flush := y\<rparr>" "kcp_ok c"
      "k' = flush_kcp c"
    and o: "out = map dgram gss" "concat gss = flush_sent c"
    and size: "\<forall>g \<in> set gss. g \<noteq> [] \<and> length (dgram g) \<le> 1400"
    by (rule update_cases [OF B(1,2,6) u]) (use t(1) in blast)+
  have k: "k_ackcount k' = 0" "k_rcv_nxt k' = k_rcv_nxt ?k" "k_rcv_buf k' = k_rcv_buf ?k"
    "k_nrcv_que k' = k_nrcv_que ?k" "k_rcv_wnd k' = k_rcv_wnd ?k"
    unfolding c(3) by (rule flush_kcp_frame [OF c(2)], simp add: c(1))+
  have ac: "acks c = acks ?k" by (rule acks_cong) (simp_all add: c(1))
  have "rcv_grows ?k c" by (simp add: c(1) rcv_grows_same)
  then have ok: "acks_ok c"
    using acks_ok_grows ac sys_no_lossD(4) [OF assms] by (auto simp: no_loss_def)
  have out: "wire_ok conv g \<and> s_una g = k_rcv_nxt ?k \<and> s_wnd g = word_of_int (ikcp_wnd_unused ?k)"
    if "gs \<in> set gss" "g \<in> set gs" for gs g
  proof -
    have g: "g \<in> set (flush_sent c)" using that o(2) by (metis UN_I set_concat)
    have "ikcp_wnd_unused c = ikcp_wnd_unused ?k" by (simp add: c(1) ikcp_wnd_unused_def)
    then show ?thesis
      using flush_sent_wire [OF c(2) g] flush_good_ack [OF c(2) ok g] flush_sent_wnd [OF c(2) g] B(3) c(1) by simp
  qed
  let ?s = "s\<lparr>y_b := (y_b s)\<lparr>e_kcp := k'\<rparr>, y_ba := y_ba s \<union> set out\<rparr>"
  have q: "quiet s ?s"
    by (rule quiet_b [OF ep_update [OF u] keeps_update [OF sys_no_lossD(2) [OF assms] u]]) (use k in simp)
  have a: "\<exists>gs. gs \<noteq> [] \<and> dgram gs \<in> y_ba ?s \<and> length (dgram gs) \<le> 1400 \<and>
      (\<forall>g \<in> set gs. wire_ok conv g \<and> s_una g = k_rcv_nxt ?k \<and> s_wnd g = word_of_int (ikcp_wnd_unused ?k))"
    if "owes ?k"
  proof -
    have "owes c" using that ac c(1) by (simp add: owes_def)
    then have "concat gss \<noteq> []" using owes_written o(2) by metis
    then obtain gs where gs: "gs \<in> set gss" by (cases gss) auto
    then show ?thesis using out [OF gs] size by (intro exI [of _ gs]) (auto simp: o(1))
  qed
  show thesis by (rule that [OF q]) (use k a in simp_all)
qed


text \<open>The receiver takes a datagram.\<close>

lemma b_receives:
  assumes s: "sys_no_loss conv s" and d: "dgram gs \<in> y_ab s" "length (dgram gs) \<le> 1400"
    and gs: "\<forall>x \<in> set gs. wire_ok conv x \<and> from_stream (e_hist (y_a s)) x"
    and b: "k_ackcount (kcp_b s) = 0"
  obtains s' where "quiet s s'" "y_a s' = y_a s"
    "rcv_room (kcp_b s) \<Longrightarrow> \<exists>g \<in> set gs. s_cmd g = IKCP_CMD_PUSH \<and> s_sn g = k_rcv_nxt (kcp_b s) \<Longrightarrow>
       k_rcv_nxt (kcp_b s) < k_rcv_nxt (kcp_b s') \<and> owes (kcp_b s')"
    "length (e_hist (y_a s)) < 2 ^ 30 \<Longrightarrow> unat (k_rcv_wnd (kcp_b s)) < 2 ^ 16 \<Longrightarrow>
       \<exists>g \<in> set gs. s_cmd g = IKCP_CMD_WASK \<or> s_cmd g = IKCP_CMD_PUSH \<and> s_sn g < k_rcv_nxt (kcp_b s) \<Longrightarrow>
       owes (kcp_b s')"
proof -
  let ?k = "kcp_b s" and ?mem = "\<lambda>_. undefined :: fresh_mem"
  note A = ep_ownD [OF sys_no_lossD(1) [OF s]] and B = ep_ownD [OF sys_no_lossD(2) [OF s]]
  obtain N where N: "rcv_stream (e_hist (y_a s)) N ?k"
    using sys_no_lossD(3) [OF s] by (auto simp: ep_reads_def)
  obtain r k' where i: "ikcp_input ?mem ?k (Some (dgram gs)) = (r, k')" by fastforce
  have n: "unat (k_ackcount ?k) + length (dgram gs) < 2 ^ 29" using b d(2) by simp
  then have n': "unat (k_ackcount ?k) + length gs < 2 ^ 29" using length_dgram [of gs] by simp
  have a: "acks_ok ?k" using sys_no_lossD(4) [OF s] by (simp add: no_loss_def)
  have w: "\<forall>x \<in> set gs. wire_ok (k_conv ?k) x \<and> from_stream (e_hist (y_a s)) x" using gs B(3) by simp
  have k': "k' = input_segs ?mem ?k gs \<or> k' = grow_cwnd (input_segs ?mem ?k gs)"
    using input_result [OF _ i] w by blast
  note step = keeps_input [OF sys_no_lossD(2,3) [OF s] A(5) a sys_no_lossD(6) [OF s] d(1) n i]
  have q: "quiet s (s\<lparr>y_b := (y_b s)\<lparr>e_kcp := k'\<rparr>, y_ba := y_ba s \<union> {}\<rparr>)"
    by (rule quiet_b [OF ep_input [OF d(1) n i] step(1)]) (use step(2) in simp)
  have new: "k_rcv_nxt ?k < k_rcv_nxt k' \<and> owes k'"
    if room: "rcv_room ?k" and g: "\<exists>g \<in> set gs. s_cmd g = IKCP_CMD_PUSH \<and> s_sn g = k_rcv_nxt ?k"
  proof -
    obtain g where "g \<in> set gs" "s_cmd g = IKCP_CMD_PUSH" "s_sn g = k_rcv_nxt ?k" using g by blast
    from missing_arrives(1) [OF B(1) N A(5) a w n room this i] show ?thesis by (simp add: owes_def)
  qed
  have old: "owes k'"
    if "length (e_hist (y_a s)) < 2 ^ 30" "unat (k_rcv_wnd ?k) < 2 ^ 16"
      "\<exists>g \<in> set gs. s_cmd g = IKCP_CMD_WASK \<or> s_cmd g = IKCP_CMD_PUSH \<and> s_sn g < k_rcv_nxt ?k"
    using input_segs_asks [OF B(1) N that(1) a w n' that(2) disjI2 [OF that(3)], of ?mem] k'
    by (auto simp: owes_grow_cwnd)
  show thesis by (rule that [OF q]) (use new old in simp_all)
qed

text \<open>The sender takes an answer: what it acknowledges is gone, and the window is the one it names.\<close>

lemma a_receives:
  assumes s: "sys_no_loss conv s" and d: "dgram gs \<in> y_ba s" "length (dgram gs) \<le> 1400"
    and gs: "gs \<noteq> []" "\<forall>g \<in> set gs. wire_ok conv g \<and> s_una g = una \<and> s_wnd g = w"
    and una: "unat una < 2 ^ 31" and a: "k_ackcount (kcp_a s) = 0"
  obtains s' where "quiet s s'" "y_b s' = y_b s" "k_snd_nxt (kcp_a s') = k_snd_nxt (kcp_a s)"
    "\<forall>sn < una. \<not> in_flight (kcp_a s') sn" "\<forall>sn. in_flight (kcp_a s') sn \<longrightarrow> in_flight (kcp_a s) sn"
    "k_rmt_wnd (kcp_a s') = ucast (ucast w :: u16)"
proof -
  let ?k = "kcp_a s" and ?mem = "\<lambda>_. undefined :: fresh_mem"
  note A = ep_ownD [OF sys_no_lossD(1) [OF s]]
  obtain r k' where i: "ikcp_input ?mem ?k (Some (dgram gs)) = (r, k')" by fastforce
  have n: "unat (k_ackcount ?k) + length (dgram gs) < 2 ^ 29" using a d(2) by simp
  have gone: "\<not> in_flight k' sn" if "sn < una" for sn
    by (rule ack_arrives [OF A(1) _ gs(1) _ una that i]) (use A(3,7) gs(2) in auto)
  have sub: "snd_sub k' ?k" using ikcp_input_sub [of ?mem ?k "dgram gs"] i by simp
  then have nxt: "k_snd_nxt k' = k_snd_nxt ?k" by (simp add: snd_sub_def)
  have k': "k' = input_segs ?mem ?k gs \<or> k' = grow_cwnd (input_segs ?mem ?k gs)"
    using input_result [OF _ i] gs(2) A(3) by blast
  have "k_rmt_wnd (input_segs ?mem ?k gs) = ucast (ucast w :: u16)"
    using gs by (intro input_segs_settings) auto
  then have w: "k_rmt_wnd k' = ucast (ucast w :: u16)" using k' by (auto simp: window_frames)
  have P: "length (e_hist (y_b s)) \<le> 2 ^ 31" "acks_ok ?k"
    using ep_ownD(5) [OF sys_no_lossD(2) [OF s]] sys_no_lossD(5) [OF s] by (simp_all add: no_loss_def)
  have q: "quiet s (s\<lparr>y_a := (y_a s)\<lparr>e_kcp := k'\<rparr>, y_ab := y_ab s \<union> {}\<rparr>)"
    by (rule quiet_a [OF ep_input [OF d(1) n i] keeps_input(1) [OF sys_no_lossD(1,7) [OF s] P sys_no_lossD(8) [OF s] d(1) n i]])
  show thesis by (rule that [OF q]) (use nxt w gone in_flight_sub [OF sub] in simp_all)
qed

section \<open>Exchanges\<close>

text \<open>The interface of a progress argument: as long as the goal is not reached, the run can go on and a measure decreases.\<close>

locale leads_to =
  fixes run :: "'s \<Rightarrow> 's \<Rightarrow> bool"
    and good goal :: "'s \<Rightarrow> bool"
    and left :: "'s \<Rightarrow> nat"
  assumes run_refl: "run s s"
    and run_trans: "run r s \<Longrightarrow> run s t \<Longrightarrow> run r t"
    and run_next: "good s \<Longrightarrow> \<exists>t. run s t \<and> good t \<and> (goal t \<or> left t < left s)"
begin

lemma reaches: "good s \<Longrightarrow> \<exists>t. run s t \<and> good t \<and> goal t"
proof (induction "left s" arbitrary: s rule: less_induct)
  case less
  obtain t where t: "run s t" "good t" "goal t \<or> left t < left s" using run_next [OF less.prems] by blast
  show ?case
  proof (cases "goal t")
    case True
    then show ?thesis using t(1,2) by blast
  next
    case False
    then obtain u where "run t u" "good u" "goal u" using less.hyps [OF _ t(2)] t(3) by blast
    then show ?thesis using run_trans [OF t(1)] by blast
  qed
qed

end

text \<open>
  \<open>ready conv m s\<close>: the fragments numbered below \<open>m\<close> have left the sender's queue, and the receiver's queue has room for
  those it misses.
\<close>

definition ready :: "u32 \<Rightarrow> u32 \<Rightarrow> sys \<Rightarrow> bool" where
  "ready conv m s \<longleftrightarrow> sys_no_loss conv s \<and> length (e_hist (y_a s)) < 2 ^ 31 \<and> rcv_drained (kcp_b s) \<and>
     m \<le> k_snd_nxt (kcp_a s) \<and>
     (k_rcv_nxt (kcp_b s) < m \<longrightarrow>
       unat (k_nrcv_que (kcp_b s)) + (unat m - unat (k_rcv_nxt (kcp_b s))) \<le> unat (k_rcv_wnd (kcp_b s)))"

lemma ready_quiet:
  assumes "quiet s t" "ready conv m s"
  shows "ready conv m t"
proof -
  have c: "calm s t" and n: "sys_no_loss conv s" using assms by (simp_all add: quiet_def ready_def)
  have e: "unat (k_nrcv_que (kcp_b t)) + unat (k_rcv_nxt (kcp_b s)) = unat (k_nrcv_que (kcp_b s)) + unat (k_rcv_nxt (kcp_b t))"
    using assms(1) by (simp add: quiet_def)
  have le: "k_rcv_nxt (kcp_b s) \<le> k_rcv_nxt (kcp_b t)" "k_rcv_wnd (kcp_b t) = k_rcv_wnd (kcp_b s)"
    using c by (simp_all add: calm_def keeps_def)
  have "unat (k_nrcv_que (kcp_b t)) + (unat m - unat (k_rcv_nxt (kcp_b t))) \<le> unat (k_rcv_wnd (kcp_b t))"
    if "k_rcv_nxt (kcp_b t) < m"
  proof -
    have "k_rcv_nxt (kcp_b s) < m" using le(1) that by simp
    then have "unat (k_nrcv_que (kcp_b s)) + (unat m - unat (k_rcv_nxt (kcp_b s))) \<le> unat (k_rcv_wnd (kcp_b s))"
      using assms(2) by (simp add: ready_def)
    then show ?thesis using e that le unfolding word_less_nat_alt word_le_nat_alt le(2) by linarith
  qed
  then show ?thesis using assms(2) c calm_good [OF c n] by (auto simp: ready_def calm_def keeps_def)
qed

lemma ready_next:
  assumes "ready conv m s" "k_rcv_nxt (kcp_b s) < m"
  shows "in_flight (kcp_a s) (k_rcv_nxt (kcp_b s))" "rcv_room (kcp_b s)"
proof -
  let ?nxt = "k_rcv_nxt (kcp_b s)"
  have n: "sys_no_loss conv s" using assms(1) by (simp add: ready_def)
  show r: "rcv_room (kcp_b s)"
    using assms unfolding ready_def rcv_room_def word_less_nat_alt by linarith
  have "rcv_inv (kcp_b s)" using ep_ownD(1) [OF sys_no_lossD(2) [OF n]] by (simp add: kcp_ok_def)
  then have "\<not> received (kcp_b s) ?nxt" using drained_next r assms(1) by (simp add: ready_def)
  moreover have "?nxt < k_snd_nxt (kcp_a s)" using assms by (auto simp: ready_def)
  ultimately show "in_flight (kcp_a s) ?nxt"
    using sys_no_lossD(4) [OF n] by (auto simp: no_loss_def covered_def)
qed

lemma quiet_room:
  assumes "quiet s t" "k_rcv_nxt (kcp_b t) = k_rcv_nxt (kcp_b s)"
  shows "k_nrcv_que (kcp_b t) = k_nrcv_que (kcp_b s)" "rcv_room (kcp_b t) = rcv_room (kcp_b s)"
proof -
  show n: "k_nrcv_que (kcp_b t) = k_nrcv_que (kcp_b s)"
    using assms by (simp add: quiet_def word_unat_eq_iff)
  show "rcv_room (kcp_b t) = rcv_room (kcp_b s)"
    using assms(1) n by (simp add: quiet_def calm_def keeps_def rcv_room_def)
qed

lemma fragment_delivered:
  assumes r: "ready conv m s" and miss: "k_rcv_nxt (kcp_b s) < m"
  obtains t where "quiet s t" "k_ackcount (kcp_a t) = 0" "k_rcv_nxt (kcp_b s) < k_rcv_nxt (kcp_b t)" "owes (kcp_b t)"
proof -
  let ?sn = "k_rcv_nxt (kcp_b s)"
  have s: "sys_no_loss conv s" using r by (simp add: ready_def)
  note fl = ready_next [OF r miss]
  obtain s1 where 1: "quiet s s1" "y_a s1 = y_a s" "k_ackcount (kcp_b s1) = 0" "k_rcv_nxt (kcp_b s1) = ?sn"
    by (rule b_flushes [OF s])
  note n1 = calm_good [OF quiet_calm [OF 1(1)] s]
  obtain s2 gs g where 2: "quiet s1 s2" "y_b s2 = y_b s1" "k_ackcount (kcp_a s2) = 0"
    "dgram gs \<in> y_ab s2" "length (dgram gs) \<le> 1400" "\<forall>x \<in> set gs. wire_ok conv x \<and> from_stream (e_hist (y_a s1)) x"
    "g \<in> set gs" "s_cmd g = IKCP_CMD_PUSH" "s_sn g = ?sn"
    by (rule a_sends [OF n1, of ?sn]) (use fl(1) 1(2) in simp_all)
  note n2 = calm_good [OF quiet_calm [OF 2(1)] n1]
  have h: "e_hist (y_a s2) = e_hist (y_a s1)" using 2(1) by (simp add: quiet_def calm_def keeps_def)
  have room: "rcv_room (kcp_b s2)" using quiet_room(2) [OF 1(1,4)] fl(2) 2(2) by simp
  obtain t where 3: "quiet s2 t" "y_a t = y_a s2" "k_rcv_nxt (kcp_b s2) < k_rcv_nxt (kcp_b t) \<and> owes (kcp_b t)"
  proof (rule b_receives [OF n2 2(4,5)])
    show "k_ackcount (kcp_b s2) = 0" using 1(3) 2(2) by simp
  next
    fix t
    assume t: "quiet s2 t" "y_a t = y_a s2"
      and new: "rcv_room (kcp_b s2) \<Longrightarrow> \<exists>g \<in> set gs. s_cmd g = IKCP_CMD_PUSH \<and> s_sn g = k_rcv_nxt (kcp_b s2) \<Longrightarrow>
        k_rcv_nxt (kcp_b s2) < k_rcv_nxt (kcp_b t) \<and> owes (kcp_b t)"
    have "\<exists>g \<in> set gs. s_cmd g = IKCP_CMD_PUSH \<and> s_sn g = k_rcv_nxt (kcp_b s2)"
      using 2(2,7-9) 1(4) by (intro bexI [of _ g]) simp_all
    from that [OF t new [OF room this]] show thesis .
  qed (use 2(6) h in simp)
  show thesis
    using quiet_trans [OF quiet_trans [OF 1(1) 2(1)] 3(1)] 1(4) 2(2,3) 3(2,3) by (intro that [of t]) simp_all
qed

text \<open>What the receiver owes reaches the sender.\<close>

lemma answered:
  assumes s: "sys_no_loss conv s" and few: "length (e_hist (y_a s)) < 2 ^ 31"
    and a: "k_ackcount (kcp_a s) = 0" and b: "owes (kcp_b s)"
  obtains t where "quiet s t" "k_rcv_nxt (kcp_b t) = k_rcv_nxt (kcp_b s)" "k_snd_nxt (kcp_a t) = k_snd_nxt (kcp_a s)"
    "\<forall>sn < k_rcv_nxt (kcp_b s). \<not> in_flight (kcp_a t) sn"
    "\<forall>sn. in_flight (kcp_a t) sn \<longrightarrow> in_flight (kcp_a s) sn"
    "k_rmt_wnd (kcp_a t) = ucast (ucast (word_of_int (ikcp_wnd_unused (kcp_b s)) :: u32) :: u16)"
proof -
  obtain s1 gs where 1: "quiet s s1" "y_a s1 = y_a s" "k_rcv_nxt (kcp_b s1) = k_rcv_nxt (kcp_b s)"
    "gs \<noteq> []" "dgram gs \<in> y_ba s1" "length (dgram gs) \<le> 1400"
    "\<forall>g \<in> set gs. wire_ok conv g \<and> s_una g = k_rcv_nxt (kcp_b s) \<and>
       s_wnd g = word_of_int (ikcp_wnd_unused (kcp_b s))"
    by (rule b_flushes [OF s]) (use b in blast)
  note n1 = calm_good [OF quiet_calm [OF 1(1)] s]
  have una: "unat (k_rcv_nxt (kcp_b s)) < 2 ^ 31"
    using few sys_no_lossD(3) [OF s] by (auto simp: ep_reads_def rcv_stream_def word_of_nat_eq_32)
  obtain t where 2: "quiet s1 t" "y_b t = y_b s1" "k_snd_nxt (kcp_a t) = k_snd_nxt (kcp_a s1)"
    "\<forall>sn < k_rcv_nxt (kcp_b s). \<not> in_flight (kcp_a t) sn"
    "\<forall>sn. in_flight (kcp_a t) sn \<longrightarrow> in_flight (kcp_a s1) sn"
    "k_rmt_wnd (kcp_a t) = ucast (ucast (word_of_int (ikcp_wnd_unused (kcp_b s)) :: u32) :: u16)"
    by (rule a_receives [OF n1 1(5,6,4,7) una]) (use 1(2) a in simp)
  show thesis using quiet_trans [OF 1(1) 2(1)] 1(2,3) 2(2-6) by (intro that [of t]) simp_all
qed

lemma exchange:
  assumes r: "ready conv m s" and miss: "k_rcv_nxt (kcp_b s) < m"
  obtains t where "quiet s t" "k_rcv_nxt (kcp_b s) < k_rcv_nxt (kcp_b t)"
    "\<forall>sn < k_rcv_nxt (kcp_b t). \<not> in_flight (kcp_a t) sn"
proof -
  obtain u where u: "quiet s u" "k_ackcount (kcp_a u) = 0" "k_rcv_nxt (kcp_b s) < k_rcv_nxt (kcp_b u)" "owes (kcp_b u)"
    by (rule fragment_delivered [OF r miss])
  have "ready conv m u" by (rule ready_quiet [OF u(1) r])
  then have g: "sys_no_loss conv u" "length (e_hist (y_a u)) < 2 ^ 31" by (simp_all add: ready_def)
  obtain t where t: "quiet u t" "k_rcv_nxt (kcp_b t) = k_rcv_nxt (kcp_b u)"
    "\<forall>sn < k_rcv_nxt (kcp_b u). \<not> in_flight (kcp_a t) sn"
    by (rule answered [OF g u(2,4)])
  show thesis using quiet_trans [OF u(1) t(1)] u(3) t(2,3) by (intro that [of t]) simp_all
qed

text \<open>One exchange after the other, until everything below \<open>m\<close> is there.\<close>

interpretation fragments: leads_to quiet
  "\<lambda>s. ready conv m s \<and> (k_rcv_nxt (kcp_b s) < m \<or> (\<forall>sn < m. \<not> in_flight (kcp_a s) sn))"
  "\<lambda>s. m \<le> k_rcv_nxt (kcp_b s) \<and> (\<forall>sn < m. \<not> in_flight (kcp_a s) sn)"
  "\<lambda>s. unat m - unat (k_rcv_nxt (kcp_b s))" for conv m
proof (unfold_locales, goal_cases)
  case (3 s)
  show ?case
  proof (cases "k_rcv_nxt (kcp_b s) < m")
    case True
    have r: "ready conv m s" using 3 by blast
    obtain t where t: "quiet s t" "k_rcv_nxt (kcp_b s) < k_rcv_nxt (kcp_b t)"
      "\<forall>sn < k_rcv_nxt (kcp_b t). \<not> in_flight (kcp_a t) sn" by (rule exchange [OF r True])
    have "unat m - unat (k_rcv_nxt (kcp_b t)) < unat m - unat (k_rcv_nxt (kcp_b s))"
      using t(2) True unfolding word_less_nat_alt by linarith
    moreover have "k_rcv_nxt (kcp_b t) < m \<or> m \<le> k_rcv_nxt (kcp_b t) \<and> (\<forall>sn < m. \<not> in_flight (kcp_a t) sn)"
      using t(3) by (auto simp: not_less intro: less_le_trans)
    ultimately show ?thesis using t(1) ready_quiet [OF t(1) r] by blast
  next
    case False
    then show ?thesis using 3 quiet_refl [of s] by (intro exI [of _ s]) auto
  qed
qed (use quiet_refl quiet_trans in blast)+

lemma deliver_up_to:
  assumes "ready conv m s" "k_rcv_nxt (kcp_b s) < m"
  shows "\<exists>t. quiet s t \<and> m \<le> k_rcv_nxt (kcp_b t) \<and> (\<forall>sn < m. \<not> in_flight (kcp_a t) sn)"
  using fragments.reaches [of conv m s] assms by blast

end
