(* ===== verification/Delivery.thy ===== *)
theory Delivery
  imports Exchange
begin

text \<open>
  Everything that was sent can be delivered: from every reachable state the run can go on until both senders are idle and
  each application has read every message of the other. As long as this is not so, one of three things can happen
  next: a message is read, a fragment arrives, or a fragment leaves the sender's queue.
\<close>

section \<open>Everything arrives\<close>

text \<open>
  \<open>live conv s\<close>: a state from which everything can be delivered. No message has more fragments than the receiver's
  window, the window fits the 16 bits of the header, and the sender's window is open.
\<close>

definition live :: "u32 \<Rightarrow> sys \<Rightarrow> bool" where
  "live conv s \<longleftrightarrow> sys_no_loss conv s \<and> length (e_hist (y_a s)) < 2 ^ 30 \<and> rcv_drained (kcp_b s) \<and>
     0 < k_snd_wnd (kcp_a s) \<and> 0 < k_rcv_wnd (kcp_b s) \<and> unat (k_rcv_wnd (kcp_b s)) < 2 ^ 16 \<and>
     (\<forall>f \<in> set (e_hist (y_a s)). fst f < k_rcv_wnd (kcp_b s)) \<and>
     (\<forall>m \<in> set (e_sent (y_a s)). length m < 2 ^ 31)"

definition readable :: "ikcpcb \<Rightarrow> bool" where
  "readable k \<longleftrightarrow> k_rcv_queue k \<noteq> [] \<and> 0 \<le> ikcp_peeksize k"

lemma live_calm: "calm s t \<Longrightarrow> live conv s \<Longrightarrow> live conv t"
  using calm_good [of s t conv] by (auto simp: live_def calm_def keeps_def)

lemma live_reads:
  assumes "live conv s"
  obtains N n where "rcv_stream (e_hist (y_a s)) N (kcp_b s)" "msgs_at (e_hist (y_a s)) (e_sent (y_a s)) n (rcv_taken N (kcp_b s))"
    "n \<le> length (e_sent (y_a s))" "e_got (y_b s) = take n (e_sent (y_a s))" "rcv_inv (kcp_b s)"
    "unat (k_rcv_nxt (kcp_b s)) = N" "N \<le> length (e_hist (y_a s))"
proof -
  have s: "sys_no_loss conv s" "length (e_hist (y_a s)) \<le> 2 ^ 31" using assms by (simp_all add: live_def)
  obtain N n where R: "rcv_stream (e_hist (y_a s)) N (kcp_b s)" "msgs_at (e_hist (y_a s)) (e_sent (y_a s)) n (rcv_taken N (kcp_b s))"
    "n \<le> length (e_sent (y_a s))" "e_got (y_b s) = take n (e_sent (y_a s))"
    using sys_no_lossD(3) [OF s(1)] by (auto simp: ep_reads_def)
  have inv: "rcv_inv (kcp_b s)" using ep_ownD(1) [OF sys_no_lossD(2) [OF s(1)]] by (simp add: kcp_ok_def)
  show thesis
    using R rcv_counts(1) [OF inv R(1) s(2)] by (intro that [OF R inv]) (simp_all add: rcv_stream_def)
qed

text \<open>The application reads a message that is complete.\<close>

lemma b_reads:
  assumes l: "live conv s" and r: "readable (kcp_b s)"
  obtains t where "calm s t" "length (e_got (y_b s)) < length (e_got (y_b t))"
proof -
  let ?k = "kcp_b s" and ?len = "ikcp_peeksize (kcp_b s)"
  have P: "length (e_hist (y_a s)) \<le> 2 ^ 31" and n: "sys_no_loss conv s" using l by (simp_all add: live_def)
  obtain v out k' where v: "ikcp_recv ?k True ?len = (v, out, k')" by (metis prod_cases3)
  have len: "0 \<le> ?len" using r by (simp add: readable_def)
  have k': "k' = recv_tell (k_rcv_wnd ?k \<le> k_nrcv_que ?k) (rcv_move (recv_take False ?k))" and ok: "0 \<le> v"
    using v r peeksize_first_msg [OF len] by (auto simp: ikcp_recv_eq Let_def readable_def split: if_splits)
  let ?b = "(y_b s)\<lparr>e_kcp := k', e_got := e_got (y_b s) @ [out]\<rparr>"
  let ?s = "s\<lparr>y_b := ?b, y_ba := y_ba s \<union> {}\<rparr>"
  have "ep_step (y_ab s) (y_b s) {} ?b" using ep_recv [OF len v] ok by simp
  then have "sys_step s ?s" by (rule step_b)
  moreover have "keeps (y_b s) ?b" by (rule keeps_recv [OF sys_no_lossD(2,3) [OF n] P v len])
  ultimately have "calm s ?s" by (simp add: calm_def keeps_refl)
  then show thesis by (rule that) simp
qed

text \<open>A receiver with nothing to read has room, since no message is larger than its window.\<close>

lemma unread_room:
  assumes l: "live conv s" and r: "\<not> readable (kcp_b s)"
  shows "rcv_room (kcp_b s)"
proof (cases "k_rcv_queue (kcp_b s) = []")
  case True
  obtain N where "rcv_inv (kcp_b s)" by (rule live_reads [OF l])
  then show ?thesis using l rcv_invD(5) True by (simp add: rcv_room_def live_def)
next
  case False
  let ?k = "kcp_b s" and ?q = "k_rcv_queue (kcp_b s)"
  obtain N n where R: "rcv_stream (e_hist (y_a s)) N ?k" "msgs_at (e_hist (y_a s)) (e_sent (y_a s)) n (rcv_taken N ?k)"
    "rcv_inv ?k" by (rule live_reads [OF l])
  have "\<forall>m \<in> set (e_sent (y_a s)). length m < 2 ^ 31" using l by (simp add: live_def)
  then have few: "length ?q \<le> unat (s_frg (hd ?q))"
    using peek_msg [OF R(3,1,2) False] r False by (intro leI) (auto simp: readable_def)
  have "payload (hd ?q) \<in> set (map payload ?q)" using False by simp
  also have "\<dots> \<subseteq> set (e_hist (y_a s))" using R(1) by (auto simp: rcv_stream_def)
  finally have "s_frg (hd ?q) < k_rcv_wnd ?k" using l by (auto simp: live_def payload_def)
  moreover have "unat (k_nrcv_que ?k) = length ?q"
    unfolding rcv_invD(5) [OF R(3)] using rcv_invD(6) [OF R(3)] by (intro word_of_nat_eq_32) simp
  ultimately show ?thesis using few by (simp add: rcv_room_def word_less_nat_alt)
qed


lemma sent_below:
  assumes "sys_no_loss conv s" "v \<in> set (k_snd_buf (kcp_a s))"
  shows "s_sn v < k_snd_nxt (kcp_a s)"
proof -
  note A = ep_ownD [OF sys_no_lossD(1) [OF assms(1)]]
  obtain n i where "i < n" "n \<le> length (e_hist (y_a s))" "s_sn v = word_of_nat i" "k_snd_nxt (kcp_a s) = word_of_nat n"
    using A(4) assms(2) by (auto simp: snd_stream_def)
  then show ?thesis using A(5) by (simp add: word_less_nat_alt word_of_nat_eq_32)
qed

text \<open>
  A sender that cannot move on learns the window and what has arrived: it probes a closed window, or sends again what is in
  flight; the receiver answers.
\<close>

lemma provoked:
  assumes l: "live conv s" and stuck: "k_snd_nxt (kcp_a s) \<le> k_rcv_nxt (kcp_b s)"
    and ask: "k_rmt_wnd (kcp_a s) = 0 \<or> k_snd_buf (kcp_a s) \<noteq> []"
  obtains t where "quiet s t" "k_ackcount (kcp_a t) = 0" "owes (kcp_b t)"
proof -
  have s: "sys_no_loss conv s" using l by (simp add: live_def)
  obtain s1 where 1: "quiet s s1" "y_a s1 = y_a s" "k_ackcount (kcp_b s1) = 0" "k_rcv_nxt (kcp_b s1) = k_rcv_nxt (kcp_b s)"
    by (rule b_flushes [OF s])
  note l1 = live_calm [OF quiet_calm [OF 1(1)] l]
  have n1: "sys_no_loss conv s1" using l1 by (simp add: live_def)
  have "\<exists>s2 gs. quiet s1 s2 \<and> y_b s2 = y_b s1 \<and> k_ackcount (kcp_a s2) = 0 \<and>
    dgram gs \<in> y_ab s2 \<and> length (dgram gs) \<le> 1400 \<and> (\<forall>x \<in> set gs. wire_ok conv x \<and> from_stream (e_hist (y_a s1)) x) \<and>
    (\<exists>g \<in> set gs. s_cmd g = IKCP_CMD_WASK \<or> s_cmd g = IKCP_CMD_PUSH \<and> s_sn g < k_rcv_nxt (kcp_b s1))"
  proof (cases "k_rmt_wnd (kcp_a s) = 0")
    case True
    then have "k_rmt_wnd (kcp_a s1) = 0" using 1(2) by simp
    from a_probes [OF n1 this] show ?thesis by metis
  next
    case False
    then obtain v where v: "v \<in> set (k_snd_buf (kcp_a s1))" using ask 1(2) by (cases "k_snd_buf (kcp_a s)") auto
    then have "in_flight (kcp_a s1) (s_sn v)" by (simp add: in_flight_def)
    moreover have "s_sn v < k_rcv_nxt (kcp_b s1)"
      using sent_below [OF n1 v] stuck 1(2,4) by (simp add: less_le_trans)
    ultimately show ?thesis using a_sends [OF n1] by metis
  qed
  then obtain s2 gs where 2: "quiet s1 s2" "y_b s2 = y_b s1" "k_ackcount (kcp_a s2) = 0"
    "dgram gs \<in> y_ab s2" "length (dgram gs) \<le> 1400" "\<forall>x \<in> set gs. wire_ok conv x \<and> from_stream (e_hist (y_a s1)) x"
    "\<exists>g \<in> set gs. s_cmd g = IKCP_CMD_WASK \<or> s_cmd g = IKCP_CMD_PUSH \<and> s_sn g < k_rcv_nxt (kcp_b s1)" by blast
  note l2 = live_calm [OF quiet_calm [OF 2(1)] l1]
  have h: "e_hist (y_a s2) = e_hist (y_a s1)" using 2(1) by (simp add: quiet_def calm_def keeps_def)
  have n2: "sys_no_loss conv s2" and few: "length (e_hist (y_a s2)) < 2 ^ 30" "unat (k_rcv_wnd (kcp_b s2)) < 2 ^ 16"
    using l2 by (simp_all add: live_def)
  obtain t where 3: "quiet s2 t" "y_a t = y_a s2" "owes (kcp_b t)"
  proof (rule b_receives [OF n2 2(4,5)])
    fix t
    assume "quiet s2 t" "y_a t = y_a s2"
      and "length (e_hist (y_a s2)) < 2 ^ 30 \<Longrightarrow> unat (k_rcv_wnd (kcp_b s2)) < 2 ^ 16 \<Longrightarrow>
        \<exists>g \<in> set gs. s_cmd g = IKCP_CMD_WASK \<or> s_cmd g = IKCP_CMD_PUSH \<and> s_sn g < k_rcv_nxt (kcp_b s2) \<Longrightarrow>
        owes (kcp_b t)"
    then show thesis using few 2(2,7) by (intro that [of t]) simp_all
  qed (use 1(3) 2(2,6) h in simp_all)
  show thesis
    using quiet_trans [OF quiet_trans [OF 1(1) 2(1)] 3(1)] 2(3) 3(2,3) by (intro that [of t]) simp_all
qed

lemma window_known:
  assumes "rcv_room k" "unat (k_rcv_wnd k) < 2 ^ 16"
  shows "(ucast (ucast (word_of_int (ikcp_wnd_unused k) :: u32) :: u16) :: u32) \<noteq> 0"
proof -
  let ?x = "k_rcv_wnd k - k_nrcv_que k"
  have x: "0 < unat ?x" "unat ?x < 2 ^ 16"
    using assms by (simp_all add: rcv_room_def word_less_nat_alt unat_diff_32)
  have w: "word_of_int (ikcp_wnd_unused k) = ?x"
    using assms(1) by (simp add: ikcp_wnd_unused_def rcv_room_def)
  have "unat (ucast (ucast ?x :: u16) :: u32) = unat ?x"
    using x(2) by (simp add: unsigned_ucast_eq unsigned_take_bit_eq take_bit_nat_eq_self)
  then show ?thesis using x(1) unfolding w by (metis less_irrefl unsigned_0)
qed

lemma settled:
  assumes l: "live conv s" and room: "rcv_room (kcp_b s)" and stuck: "k_snd_nxt (kcp_a s) \<le> k_rcv_nxt (kcp_b s)"
  obtains t where "quiet s t"
    "k_rcv_nxt (kcp_b s) < k_rcv_nxt (kcp_b t) \<or> k_snd_nxt (kcp_a s) < k_snd_nxt (kcp_a t) \<or>
     k_snd_buf (kcp_a t) = [] \<and> k_rmt_wnd (kcp_a t) \<noteq> 0"
proof (cases "k_rmt_wnd (kcp_a s) = 0 \<or> k_snd_buf (kcp_a s) \<noteq> []")
  case False
  then show thesis using quiet_refl by (intro that [of s]) auto
next
  case True
  obtain u where u: "quiet s u" "k_ackcount (kcp_a u) = 0" "owes (kcp_b u)" by (rule provoked [OF l stuck True])
  have lu: "live conv u" by (rule live_calm [OF quiet_calm [OF u(1)] l])
  then have g: "sys_no_loss conv u" "length (e_hist (y_a u)) < 2 ^ 31" "unat (k_rcv_wnd (kcp_b u)) < 2 ^ 16"
    by (simp_all add: live_def)
  obtain t where t: "quiet u t" "k_rcv_nxt (kcp_b t) = k_rcv_nxt (kcp_b u)" "k_snd_nxt (kcp_a t) = k_snd_nxt (kcp_a u)"
    "\<forall>sn < k_rcv_nxt (kcp_b u). \<not> in_flight (kcp_a t) sn"
    "k_rmt_wnd (kcp_a t) = ucast (ucast (word_of_int (ikcp_wnd_unused (kcp_b u)) :: u32) :: u16)"
    by (rule answered [OF g(1,2) u(2,3)])
  have q: "quiet s t" by (rule quiet_trans [OF u(1) t(1)])
  have le: "k_rcv_nxt (kcp_b s) \<le> k_rcv_nxt (kcp_b t)" "k_snd_nxt (kcp_a s) \<le> k_snd_nxt (kcp_a t)"
    using q by (simp_all add: quiet_def calm_def keeps_def)
  have "k_snd_buf (kcp_a t) = [] \<and> k_rmt_wnd (kcp_a t) \<noteq> 0"
    if same: "k_rcv_nxt (kcp_b t) = k_rcv_nxt (kcp_b s)" "k_snd_nxt (kcp_a t) = k_snd_nxt (kcp_a s)"
  proof -
    have "rcv_room (kcp_b u)" using quiet_room(2) [OF u(1)] t(2) same(1) room by simp
    from window_known [OF this g(3)] have w: "k_rmt_wnd (kcp_a t) \<noteq> 0" using t(5) by simp
    have n: "sys_no_loss conv t" using calm_good [OF quiet_calm [OF t(1)] g(1)] .
    have no: "v \<notin> set (k_snd_buf (kcp_a t))" for v
    proof
      assume v: "v \<in> set (k_snd_buf (kcp_a t))"
      have "s_sn v < k_rcv_nxt (kcp_b u)" using sent_below [OF n v] t(2) same stuck by simp
      then show False using t(4) v by (auto simp: in_flight_def)
    qed
    show ?thesis using w no by (cases "k_snd_buf (kcp_a t)") auto
  qed
  then show thesis using q le by (intro that [of t]) (auto simp: order_less_le)
qed

text \<open>Then the next fragment leaves the queue, at the second flush if the first one only opens the congestion window.\<close>

lemma flush_advances:
  assumes "kcp_ok c" "snd_stream H c" "length H < 2 ^ 31" "0 < moved (flush_window c) c"
  shows "k_snd_nxt c < k_snd_nxt (flush_kcp c)"
proof -
  let ?m = "moved (flush_window c) c"
  obtain n where n: "n + length (k_snd_queue c) = length H" "k_snd_nxt c = word_of_nat n"
    using assms(2) by (auto simp: snd_stream_def)
  have "n + ?m < 2 ^ 31" using n(1) assms(3) by (simp add: moved_def)
  then have "(word_of_nat n :: u32) < word_of_nat (n + ?m)"
    using assms(4) by (simp add: word_less_nat_alt word_of_nat_eq_32 del: of_nat_add)
  then show ?thesis by (simp add: flush_kcp_settings(6) [OF assms(1)] n(2))
qed

lemma a_moves_on:
  assumes l: "live conv s" and q: "k_snd_queue (kcp_a s) \<noteq> []" and w: "k_snd_buf (kcp_a s) = []" "k_rmt_wnd (kcp_a s) \<noteq> 0"
    and cw: "k_cwnd (kcp_a s) \<noteq> 0"
  obtains t where "quiet s t" "k_snd_nxt (kcp_a s) < k_snd_nxt (kcp_a t)"
proof -
  have s: "sys_no_loss conv s" "length (e_hist (y_a s)) < 2 ^ 31" "k_snd_wnd (kcp_a s) \<noteq> 0"
    using l by (auto simp: live_def)
  obtain u c t x y where f: "quiet s u" "c = (kcp_a s)\<lparr>k_current := t, k_updated := x, k_ts_flush := y\<rparr>" "kcp_ok c"
    "kcp_a u = flush_kcp c" by (rule a_flushes [OF s(1), of 0])
  have "snd_stream (e_hist (y_a s)) c"
    using ep_ownD(4) [OF sys_no_lossD(1) [OF s(1)]] by (simp add: f(2) clock_fields)
  moreover have "0 < moved (flush_window c) c"
    by (rule flush_moves [OF f(3)]) (use q w cw s(3) in \<open>simp_all add: f(2)\<close>)
  ultimately have "k_snd_nxt c < k_snd_nxt (flush_kcp c)" using flush_advances [OF f(3) _ s(2)] by blast
  then show thesis using f(1,4) by (intro that [of u]) (simp_all add: f(2))
qed

lemma window_used:
  assumes l: "live conv s" and q: "k_snd_queue (kcp_a s) \<noteq> []" and w: "k_snd_buf (kcp_a s) = []" "k_rmt_wnd (kcp_a s) \<noteq> 0"
  obtains t where "quiet s t" "k_snd_nxt (kcp_a s) < k_snd_nxt (kcp_a t)"
proof -
  have s: "sys_no_loss conv s" "length (e_hist (y_a s)) < 2 ^ 31" using l by (auto simp: live_def)
  obtain u c t x y where f: "quiet s u" "c = (kcp_a s)\<lparr>k_current := t, k_updated := x, k_ts_flush := y\<rparr>" "kcp_ok c"
    "kcp_a u = flush_kcp c" by (rule a_flushes [OF s(1), of 0])
  have str: "snd_stream (e_hist (y_a s)) c"
    using ep_ownD(4) [OF sys_no_lossD(1) [OF s(1)]] by (simp add: f(2) clock_fields)
  have lu: "live conv u" by (rule live_calm [OF quiet_calm [OF f(1)] l])
  show thesis
  proof (cases "moved (flush_window c) c = 0")
    case False
    then have "k_snd_nxt c < k_snd_nxt (flush_kcp c)" using flush_advances [OF f(3) str s(2)] by simp
    then show thesis using f(1,4) by (intro that [of u]) (simp_all add: f(2))
  next
    case True
    have e: "k_snd_buf (kcp_a u) = []" "k_snd_queue (kcp_a u) \<noteq> []" "k_rmt_wnd (kcp_a u) \<noteq> 0" "k_cwnd (kcp_a u) \<noteq> 0"
      using flush_keeps_empty [OF f(3) _ True] flush_kcp_settings(2) [OF f(3)] flush_kcp_cwnd [of c] q w
      by (auto simp: f(2,4) one_le_32)
    obtain t where t: "quiet u t" "k_snd_nxt (kcp_a u) < k_snd_nxt (kcp_a t)"
      by (rule a_moves_on [OF lu e(2,1,3,4)])
    have "k_snd_nxt (kcp_a s) \<le> k_snd_nxt (kcp_a u)" using f(1) by (simp add: quiet_def calm_def keeps_def)
    then show thesis using quiet_trans [OF f(1) t(1)] t(2) by (intro that [of t]) simp_all
  qed
qed


section \<open>Delivery\<close>

text \<open>\<open>undone s\<close> counts the messages to read, the fragments to receive and the fragments still to leave the queue.\<close>

definition undone :: "sys \<Rightarrow> nat" where
  "undone s = (length (e_sent (y_a s)) - length (e_got (y_b s))) +
     (length (e_hist (y_a s)) - unat (k_rcv_nxt (kcp_b s))) +
     (length (e_hist (y_a s)) - unat (k_snd_nxt (kcp_a s)))"

definition finished :: "sys \<Rightarrow> bool" where
  "finished s \<longleftrightarrow> idle (kcp_a s) \<and> \<not> readable (kcp_b s)"

lemma live_bounds:
  assumes "live conv s"
  shows "length (e_got (y_b s)) \<le> length (e_sent (y_a s))" "unat (k_rcv_nxt (kcp_b s)) \<le> length (e_hist (y_a s))"
    "unat (k_snd_nxt (kcp_a s)) + length (k_snd_queue (kcp_a s)) = length (e_hist (y_a s))"
proof -
  show "length (e_got (y_b s)) \<le> length (e_sent (y_a s))" "unat (k_rcv_nxt (kcp_b s)) \<le> length (e_hist (y_a s))"
    by (rule live_reads [OF assms], simp)+
  have "sys_no_loss conv s" using assms by (simp add: live_def)
  note A = ep_ownD(4,5) [OF sys_no_lossD(1) [OF this]]
  then show "unat (k_snd_nxt (kcp_a s)) + length (k_snd_queue (kcp_a s)) = length (e_hist (y_a s))"
    by (auto simp: snd_stream_def word_of_nat_eq_32)
qed

lemma undone_less:
  assumes "live conv s" "calm s t"
  shows "undone t \<le> undone s"
    and "length (e_got (y_b s)) < length (e_got (y_b t)) \<or> k_rcv_nxt (kcp_b s) < k_rcv_nxt (kcp_b t) \<or>
      k_snd_nxt (kcp_a s) < k_snd_nxt (kcp_a t) \<Longrightarrow> undone t < undone s"
proof -
  note b = live_bounds [OF live_calm [OF assms(2,1)]]
  have c: "e_hist (y_a t) = e_hist (y_a s)" "e_sent (y_a t) = e_sent (y_a s)"
    "k_snd_nxt (kcp_a s) \<le> k_snd_nxt (kcp_a t)" "k_rcv_nxt (kcp_b s) \<le> k_rcv_nxt (kcp_b t)"
    "length (e_got (y_b s)) \<le> length (e_got (y_b t))"
    using assms(2) by (simp_all add: calm_def keeps_def)
  show "undone t \<le> undone s"
    using b c(3-5) unfolding undone_def c(1,2) word_le_nat_alt by linarith
  show "undone t < undone s"
    if "length (e_got (y_b s)) < length (e_got (y_b t)) \<or> k_rcv_nxt (kcp_b s) < k_rcv_nxt (kcp_b t) \<or>
      k_snd_nxt (kcp_a s) < k_snd_nxt (kcp_a t)"
    using that b c(3-5) unfolding undone_def c(1,2) word_less_nat_alt word_le_nat_alt by linarith
qed

abbreviation makes_progress :: "sys \<Rightarrow> bool" where
  "makes_progress s \<equiv> \<exists>t. calm s t \<and> (finished t \<or> undone t < undone s)"

lemma progress_later:
  assumes "live conv s" "calm s t" "makes_progress t"
  shows "makes_progress s"
proof -
  obtain u where u: "calm t u" "finished u \<or> undone u < undone t" using assms(3) by blast
  have "undone t \<le> undone s" by (rule undone_less(1) [OF assms(1,2)])
  then show ?thesis using calm_trans [OF assms(2) u(1)] u(2) by (meson less_le_trans)
qed

lemma reads_on:
  assumes l: "live conv s" and r: "readable (kcp_b s)"
  shows "makes_progress s"
proof -
  obtain t where "calm s t" "length (e_got (y_b s)) < length (e_got (y_b t))" by (rule b_reads [OF l r])
  then show ?thesis using undone_less(2) [OF l] by blast
qed

lemma misses_on:
  assumes l: "live conv s" and room: "rcv_room (kcp_b s)" and lt: "k_rcv_nxt (kcp_b s) < k_snd_nxt (kcp_a s)"
  shows "makes_progress s"
proof -
  let ?m = "k_rcv_nxt (kcp_b s) + 1"
  have m: "unat ?m = unat (k_rcv_nxt (kcp_b s)) + 1"
    using live_bounds(2) [OF l] l by (subst unat_Suc_32) (simp_all add: live_def)
  have "ready conv ?m s"
    using l lt room m by (simp add: ready_def live_def rcv_room_def word_less_nat_alt word_le_nat_alt)
  moreover have "k_rcv_nxt (kcp_b s) < ?m" using m by (simp add: word_less_nat_alt)
  ultimately obtain t where "quiet s t" "k_rcv_nxt (kcp_b s) < k_rcv_nxt (kcp_b t)"
    by (rule fragment_delivered)
  then show ?thesis using undone_less(2) [OF l] quiet_calm by blast
qed

lemma empty_on:
  assumes l: "live conv s" and e: "k_snd_buf (kcp_a s) = []" "k_rmt_wnd (kcp_a s) \<noteq> 0"
  shows "makes_progress s"
proof (cases "k_snd_queue (kcp_a s) = []")
  case True
  show ?thesis
  proof (cases "readable (kcp_b s)")
    case False
    then show ?thesis using e True calm_refl by (intro exI [of _ s]) (simp add: finished_def idle_def)
  qed (rule reads_on [OF l])
next
  case False
  obtain t where "quiet s t" "k_snd_nxt (kcp_a s) < k_snd_nxt (kcp_a t)" by (rule window_used [OF l False e])
  then show ?thesis using undone_less(2) [OF l] quiet_calm by blast
qed

lemma goes_on:
  assumes l: "live conv s"
  shows "makes_progress s"
proof (cases "readable (kcp_b s)")
  case False
  have room: "rcv_room (kcp_b s)" by (rule unread_room [OF l False])
  show ?thesis
  proof (cases "k_rcv_nxt (kcp_b s) < k_snd_nxt (kcp_a s)")
    case stuck: False
    obtain t where t: "quiet s t" "k_rcv_nxt (kcp_b s) < k_rcv_nxt (kcp_b t) \<or> k_snd_nxt (kcp_a s) < k_snd_nxt (kcp_a t) \<or>
        k_snd_buf (kcp_a t) = [] \<and> k_rmt_wnd (kcp_a t) \<noteq> 0"
      by (rule settled [OF l room]) (use stuck in simp)
    note c = quiet_calm [OF t(1)]
    show ?thesis
    proof (cases "undone t < undone s")
      case False
      then have "k_snd_buf (kcp_a t) = []" "k_rmt_wnd (kcp_a t) \<noteq> 0" using t(2) undone_less(2) [OF l c] by blast+
      then show ?thesis by (intro progress_later [OF l c] empty_on [OF live_calm [OF c l]])
    qed (use c in blast)
  qed (rule misses_on [OF l room])
qed (rule reads_on [OF l])

interpretation arrival: leads_to calm "live conv" finished undone for conv
  by unfold_locales (rule calm_refl, erule calm_trans, assumption, use goes_on live_calm in blast)

text \<open>In a finished state every message has been read.\<close>

lemma finished_read:
  assumes l: "live conv s" and f: "finished s"
  shows "e_got (y_b s) = e_sent (y_a s)"
proof -
  let ?P = "e_hist (y_a s)"
  obtain N n where R: "rcv_stream ?P N (kcp_b s)" "msgs_at ?P (e_sent (y_a s)) n (rcv_taken N (kcp_b s))"
    "e_got (y_b s) = take n (e_sent (y_a s))" "rcv_inv (kcp_b s)" "unat (k_rcv_nxt (kcp_b s)) = N" "N \<le> length ?P"
    by (rule live_reads [OF l])
  have s: "sys_no_loss conv s" "rcv_drained (kcp_b s)" "length ?P < 2 ^ 30" using l by (simp_all add: live_def)
  have nr: "\<not> readable (kcp_b s)" using f by (simp add: finished_def)
  have nxt: "unat (k_snd_nxt (kcp_a s)) = length ?P"
    using live_bounds(3) [OF l] f by (simp add: finished_def idle_def)
  have "N = length ?P"
  proof (rule ccontr)
    assume "N \<noteq> length ?P"
    then have "k_rcv_nxt (kcp_b s) < k_snd_nxt (kcp_a s)" using R(5,6) nxt by (simp add: word_less_nat_alt)
    moreover have "\<not> received (kcp_b s) (k_rcv_nxt (kcp_b s))"
      by (rule drained_next [OF R(4) s(2) unread_room [OF l nr]])
    ultimately have "in_flight (kcp_a s) (k_rcv_nxt (kcp_b s))"
      using sys_no_lossD(4) [OF s(1)] by (auto simp: no_loss_def covered_def)
    then show False using f by (simp add: finished_def idle_def in_flight_def)
  qed
  then have "n = length (e_sent (y_a s))"
    using R(1,2) all_read [OF R(4), of ?P "e_sent (y_a s)" n] l nr by (auto simp: live_def readable_def)
  then show ?thesis using R(3) by simp
qed

lemma idle_waitsnd:
  assumes "ep_own conv e" "idle (e_kcp e)"
  shows "ikcp_waitsnd (e_kcp e) = 0"
proof -
  have "snd_win (e_kcp e)" using ep_ownD(1) [OF assms(1)] by (simp add: kcp_ok_def snd_inv_def)
  from snd_winD(5,6) [OF this] show ?thesis using assms(2) by (simp add: ikcp_waitsnd_def idle_def)
qed

lemma all_delivered:
  assumes "live conv s"
  obtains t where "calm s t" "idle (kcp_a t)" "e_got (y_b t) = e_sent (y_a s)"
proof -
  obtain t where t: "calm s t" "live conv t" "finished t" using arrival.reaches [OF assms] by blast
  have "e_got (y_b t) = e_sent (y_a s)"
    using finished_read [OF t(2,3)] t(1) by (simp add: calm_def keeps_def)
  then show thesis using t(1,3) that by (simp add: finished_def)
qed

section \<open>Both directions\<close>

text \<open>
  The two endpoints are alike, so a run seen from the other side is a run. \<open>fits_window a b\<close>: what \<open>a\<close> has been given to send fits
  the windows, and \<open>b\<close> has moved what it can out of \<^verbatim>\<open>rcv_buf\<close>.
\<close>

definition sys_swap :: "sys \<Rightarrow> sys" where
  "sys_swap s = \<lparr>y_a = y_b s, y_b = y_a s, y_ab = y_ba s, y_ba = y_ab s\<rparr>"

definition fits_window :: "endpoint \<Rightarrow> endpoint \<Rightarrow> bool" where
  "fits_window a b \<longleftrightarrow> length (e_hist a) < 2 ^ 30 \<and> 0 < k_snd_wnd (e_kcp a) \<and>
     0 < k_rcv_wnd (e_kcp b) \<and> unat (k_rcv_wnd (e_kcp b)) < 2 ^ 16 \<and>
     (\<forall>f \<in> set (e_hist a). fst f < k_rcv_wnd (e_kcp b)) \<and> rcv_drained (e_kcp b)"

definition short_msgs :: "sys \<Rightarrow> bool" where
  "short_msgs s \<longleftrightarrow> (\<forall>m \<in> set (e_sent (y_a s)) \<union> set (e_sent (y_b s)). length m < 2 ^ 31)"

interpretation shorts: invariant "sys_init conv" sys_step short_msgs for conv
proof (unfold_locales, goal_cases)
  case (1 s)
  then show ?case by (auto simp: sys_init_def short_msgs_def dest: ep_new_own(3))
next
  case (2 s t)
  then show ?case by (auto simp: short_msgs_def elim!: sys_step.cases ep_stepE split: if_splits)
qed

lemma sys_swap_swap [simp]: "sys_swap (sys_swap s) = s"
  by (simp add: sys_swap_def)

lemma sys_swap_fields [simp]:
  "y_a (sys_swap s) = y_b s" "y_b (sys_swap s) = y_a s" "y_ab (sys_swap s) = y_ba s" "y_ba (sys_swap s) = y_ab s"
  by (simp_all add: sys_swap_def)

lemma swap_step: "sys_step s t \<Longrightarrow> sys_step (sys_swap s) (sys_swap t)"
proof (erule sys_step.cases, goal_cases)
  case (1 s out a')
  then show ?case using step_b [of "sys_swap s" out a'] by (simp add: sys_swap_def)
next
  case (2 s out b')
  then show ?case using step_a [of "sys_swap s" out b'] by (simp add: sys_swap_def)
qed

lemma swap_steps: "sys_step\<^sup>*\<^sup>* s t \<Longrightarrow> sys_step\<^sup>*\<^sup>* (sys_swap s) (sys_swap t)"
  by (induction rule: rtranclp_induct) (auto intro: swap_step rtranclp.rtrancl_into_rtrancl)

lemma swap_calm: "calm (sys_swap s) t \<Longrightarrow> calm s (sys_swap t)"
  using swap_steps [of "sys_swap s" t] by (simp add: calm_def)

lemma swap_good: "sys_no_loss conv s \<Longrightarrow> sys_no_loss conv (sys_swap s)"
  by (auto simp: sys_no_loss_def sys_inv_def)

lemma live_window:
  assumes "sys_no_loss conv s" "short_msgs s" "fits_window (y_a s) (y_b s)"
  shows "live conv s"
  using assms by (simp add: live_def fits_window_def short_msgs_def)

text \<open>One direction after the other: the second run keeps what the first one reached.\<close>

lemma both_delivered:
  assumes g: "sys_no_loss conv s" "short_msgs s"
    and w: "fits_window (y_a s) (y_b s)" "fits_window (y_b s) (y_a s)"
  obtains t where "calm s t" "ikcp_waitsnd (kcp_a t) = 0" "ikcp_waitsnd (kcp_b t) = 0"
    "e_got (y_b t) = e_sent (y_a s)" "e_got (y_a t) = e_sent (y_b s)"
proof -
  have l: "live conv s" "live conv (sys_swap s)"
    using live_window [OF g w(1)] live_window [of conv "sys_swap s"] swap_good [OF g(1)] g(2) w(2)
    by (simp_all add: short_msgs_def Un_commute)
  obtain u where u: "calm s u" "idle (kcp_a u)" "e_got (y_b u) = e_sent (y_a s)" by (rule all_delivered [OF l(1)])
  have "calm (sys_swap s) (sys_swap u)" by (rule swap_calm) (simp add: u(1))
  from all_delivered [OF live_calm [OF this l(2)]]
  obtain v where v: "calm (sys_swap u) v" "idle (kcp_a v)" "e_got (y_b v) = e_sent (y_b u)" by auto
  let ?t = "sys_swap v"
  have c: "calm u ?t" by (rule swap_calm [OF v(1)])
  have t: "calm s ?t" by (rule calm_trans [OF u(1) c])
  have n: "sys_no_loss conv ?t" by (rule calm_good [OF t g(1)])
  have "idle (kcp_a ?t)" "idle (kcp_b ?t)" using c u(2) v(2) by (simp_all add: calm_def keeps_def)
  then have "ikcp_waitsnd (kcp_a ?t) = 0" "ikcp_waitsnd (kcp_b ?t) = 0"
    using idle_waitsnd [OF sys_no_lossD(1) [OF n]] idle_waitsnd [OF sys_no_lossD(2) [OF n]] by simp_all
  moreover have "e_got (y_b ?t) = e_sent (y_a s)"
  proof -
    have "live conv ?t" by (rule live_calm [OF t l(1)])
    from live_bounds(1) [OF this] live_reads [OF this] 
    have p: "e_got (y_b ?t) = take (length (e_got (y_b ?t))) (e_sent (y_a ?t))" by (metis length_take min_def take_all take_take)
    have "length (e_got (y_b u)) \<le> length (e_got (y_b ?t))" "e_sent (y_a ?t) = e_sent (y_a s)"
      using c t by (simp_all add: calm_def keeps_def)
    then show ?thesis using p u(3) by simp
  qed
  moreover have "e_got (y_a ?t) = e_sent (y_b s)" using v(3) u(1) by (simp add: calm_def keeps_def)
  ultimately show thesis using t that by blast
qed

end
