(* ===== verification/Hand_Shake.thy ===== *)
theory Hand_Shake
  imports Ikcp_Codec Ikcp_Ack
begin

text \<open>
  What the C++ layer of \<^verbatim>\<open>src/\<close> shares: the messages of the handshake (\<^verbatim>\<open>hand_shake.h\<close>), the message of the public
  interface (\<^verbatim>\<open>inc/kcpuv.h\<close>), the error macros (\<^verbatim>\<open>err.h\<close>), the clock and the random numbers (\<^verbatim>\<open>tm.cpp\<close>, \<^verbatim>\<open>rand.cpp\<close>).

  What the code asks from outside (the random generator, the clock, libuv, the allocator) is a
  parameter of type \<open>env\<close>: it gives the answer to the \<open>i\<close>-th request of the run. The state \<open>io\<close> counts
  the requests made and records what the program did: the datagrams libuv accepted and the send requests that are still allocated.
\<close>

unbundle bit_operations_syntax

section \<open>Handshake messages\<close>

type_synonym u64 = "64 word"  \<comment> \<open>\<^verbatim>\<open>uint64_t\<close>\<close>
type_synonym kcpuv_conv = u32

definition CONV_INVALID :: u32 where "CONV_INVALID = 0"
definition CONV_REQ_CONN :: u32 where "CONV_REQ_CONN = 1"
definition CONV_SND_CONV :: u32 where "CONV_SND_CONV = 2"
definition CONV_ACK_CONV :: u32 where "CONV_ACK_CONV = 3"
definition CONV_ESTABLISHED :: u32 where "CONV_ESTABLISHED = 4"
definition CONV_RESERVED :: u32 where "CONV_RESERVED = 100"
definition CONV_USER :: u32 where "CONV_USER = CONV_RESERVED + 1"

lemmas conv_consts = CONV_INVALID_def CONV_REQ_CONN_def CONV_SND_CONV_def CONV_ACK_CONV_def
  CONV_ESTABLISHED_def CONV_RESERVED_def CONV_USER_def

record hs_req_conn =
  rq_conv :: u32
  rq_n :: u32

record hs_snd_conv =
  sc_conv :: u32
  sc_n :: u32
  sc_new_conv :: u32
  sc_key :: u32

record pack_header =
  ph_key :: u32

record hs_ack_conv =
  ak_header :: pack_header

record kcpuv_msg =
  m_conv :: kcpuv_conv
  m_data :: "u8 list option"
  m_size :: u32

text \<open>
  The code sends the structures as they lie in memory and casts received bytes back: the fields are
  four-byte integers without padding, in the byte order of the host, which is little-endian as in the codec.
\<close>

definition req_conn_bytes :: "hs_req_conn \<Rightarrow> u8 list" where
  "req_conn_bytes r = host_store 4 (rq_conv r) @ host_store 4 (rq_n r)"

definition req_conn_cast :: "u8 list \<Rightarrow> hs_req_conn" where
  "req_conn_cast b = \<lparr>rq_conv = host_load (take 4 b), rq_n = host_load (take 4 (drop 4 b))\<rparr>"

definition snd_conv_bytes :: "hs_snd_conv \<Rightarrow> u8 list" where
  "snd_conv_bytes s =
     host_store 4 (sc_conv s) @ host_store 4 (sc_n s) @ host_store 4 (sc_new_conv s) @ host_store 4 (sc_key s)"

definition snd_conv_cast :: "u8 list \<Rightarrow> hs_snd_conv" where
  "snd_conv_cast b =
     \<lparr>sc_conv = host_load (take 4 b), sc_n = host_load (take 4 (drop 4 b)),
      sc_new_conv = host_load (take 4 (drop 8 b)), sc_key = host_load (take 4 (drop 12 b))\<rparr>"

definition pack_header_bytes :: "pack_header \<Rightarrow> u8 list" where
  "pack_header_bytes h = host_store 4 (ph_key h)"

definition pack_header_cast :: "u8 list \<Rightarrow> pack_header" where
  "pack_header_cast b = \<lparr>ph_key = host_load (take 4 b)\<rparr>"

definition ack_conv_bytes :: "hs_ack_conv \<Rightarrow> u8 list" where
  "ack_conv_bytes a = pack_header_bytes (ak_header a)"

section \<open>Error macros\<close>

text \<open>
  The macros jump to \<^verbatim>\<open>Exit0\<close> when the check fails; the second argument is what happens there, the third the
  code that follows. The log line of the first two is left out.
\<close>

definition PROC_ERR :: "int \<Rightarrow> 'a \<Rightarrow> 'a \<Rightarrow> 'a" where
  [simp]: "PROC_ERR n exit0 rest = (if n < 0 then exit0 else rest)"

definition PROC_ERR_NOLOG :: "int \<Rightarrow> 'a \<Rightarrow> 'a \<Rightarrow> 'a" where
  [simp]: "PROC_ERR_NOLOG n exit0 rest = (if n < 0 then exit0 else rest)"

definition CHK_COND_NOLOG :: "bool \<Rightarrow> 'a \<Rightarrow> 'a \<Rightarrow> 'a" where
  [simp]: "CHK_COND_NOLOG b exit0 rest = (if \<not> b then exit0 else rest)"

section \<open>The outside world\<close>

text \<open>A \<^verbatim>\<open>struct sockaddr\<close> is only ever copied, so it is its bytes.\<close>

type_synonym sockaddr = "u8 list"

record env =
  ev_random :: "nat \<Rightarrow> int"               \<comment> \<open>\<^verbatim>\<open>random()\<close>\<close>
  ev_timeofday :: "nat \<Rightarrow> u64 \<times> u64"     \<comment> \<open>\<^verbatim>\<open>gettimeofday\<close>: seconds and microseconds\<close>
  ev_uv :: "nat \<Rightarrow> int"                   \<comment> \<open>the result of a libuv call\<close>
  ev_create :: "nat \<Rightarrow> bool \<times> bool"      \<comment> \<open>whether the two allocations of \<^verbatim>\<open>ikcp_create\<close> succeed\<close>
  ev_alloc :: "nat \<Rightarrow> nat \<Rightarrow> iseg option" \<comment> \<open>the segment allocations of one \<^verbatim>\<open>ikcp_send\<close>\<close>
  ev_mem :: "nat \<Rightarrow> nat \<Rightarrow> fresh_mem"     \<comment> \<open>fresh memory during one \<^verbatim>\<open>ikcp_input\<close>\<close>

record io =
  io_n :: nat
  io_out :: "(sockaddr \<times> u8 list) list"
  io_reqs :: "nat list"

definition asked :: "io \<Rightarrow> io" where
  "asked io = io\<lparr>io_n := Suc (io_n io)\<rparr>"

definition rand_uint32 :: "env \<Rightarrow> io \<Rightarrow> u32 \<times> io" where
  "rand_uint32 env io = (word_of_int (ev_random env (io_n io)), asked io)"

definition get_tick_us :: "env \<Rightarrow> io \<Rightarrow> u64 \<times> io" where
  "get_tick_us env io =
     (let (tv_sec, tv_usec) = ev_timeofday env (io_n io)
      in (tv_sec * 1000000 + tv_usec, asked io))"

definition get_tick_ms :: "env \<Rightarrow> io \<Rightarrow> u64 \<times> io" where
  "get_tick_ms env io = (let (us, io) = get_tick_us env io in (us div 1000, io))"

definition tick_at :: "env \<Rightarrow> nat \<Rightarrow> u64" where
  "tick_at env i = (fst (ev_timeofday env i) * 1000000 + snd (ev_timeofday env i)) div 1000"

lemma asked_sel [simp]: "io_n (asked io) = Suc (io_n io)" "io_out (asked io) = io_out io"
  "io_reqs (asked io) = io_reqs io"
  by (simp_all add: asked_def)

lemma get_tick_ms_eq [simp]: "get_tick_ms env io = (tick_at env (io_n io), asked io)"
  by (simp add: get_tick_ms_def get_tick_us_def tick_at_def split_beta)

section \<open>Reading what was written\<close>

lemma host_store_32: "host_store 4 (w :: u32) = ikcp_encode32u w"
  by (simp add: ikcp_encode32u_def)

lemma host_load_32: "host_load (take 4 p) = fst (ikcp_decode32u p)"
  by (simp add: ikcp_decode32u_def)

lemma length_store_32 [simp]: "length (host_store 4 (w :: u32)) = 4"
  by (simp add: host_store_32 c32.enc_length)

lemma load_store_32 [simp]: "host_load (take 4 (host_store 4 (w :: u32) @ p)) = w"
  unfolding host_load_32 host_store_32 by (simp add: c32.dec_enc)

lemma load_store_32_end [simp]: "host_load (host_store 4 (w :: u32)) = w"
  using load_store_32 [of w "[]"] by simp

lemma drop_store_32 [simp]: "drop 4 (host_store 4 (w :: u32) @ p) = p"
  by simp

lemma cast_bytes [simp]:
  "req_conn_cast (req_conn_bytes r @ p) = r"
  "snd_conv_cast (snd_conv_bytes s @ p) = s"
  "pack_header_cast (pack_header_bytes h @ p) = h"
  by (simp_all add: req_conn_cast_def req_conn_bytes_def snd_conv_cast_def snd_conv_bytes_def
      pack_header_cast_def pack_header_bytes_def)

lemma length_bytes [simp]:
  "length (req_conn_bytes r) = 8" "length (snd_conv_bytes s) = 16" "length (pack_header_bytes h) = 4"
  "length (ack_conv_bytes a) = 4"
  by (simp_all add: req_conn_bytes_def snd_conv_bytes_def pack_header_bytes_def ack_conv_bytes_def)

lemma get_conv_bytes [simp]:
  "ikcp_get_conv (Some (req_conn_bytes r @ p)) = (0, Some (rq_conv r))"
  "ikcp_get_conv (Some (snd_conv_bytes s @ p)) = (0, Some (sc_conv s))"
  by (simp_all add: ikcp_get_conv_def req_conn_bytes_def snd_conv_bytes_def host_store_32 c32.dec_enc c32.enc_length)

end
