(* ===== verification/Conn.thy ===== *)
theory Conn
  imports Hand_Shake Ikcp_Update "HOL-Library.Monad_Syntax"
begin

text \<open>
  \<^verbatim>\<open>src/conn.cpp\<close>: the base class \<^verbatim>\<open>Conn\<close>, one KCP control block with its address, its key and its
  status. The methods of a class are functions on the record of its members; \<^verbatim>\<open>ConnClient\<close> and
  \<^verbatim>\<open>ConnServer\<close> extend the record, so the methods here apply to them too. \<open>None\<close> as the result
  of a method means that it does not return normally: it used a null \<^verbatim>\<open>_kcp\<close> pointer, or (for a loop) its fuel ran out.

  The member \<^verbatim>\<open>_network\<close> is only used for \<^verbatim>\<open>push_msg\<close> and \<^verbatim>\<open>get_conn_by_conv\<close>: the queue of messages and the set of conversations in
  use are arguments. \<open>c_this\<close> is the address of the object, which \<^verbatim>\<open>ikcp_create\<close> stores as the user pointer.
\<close>

section \<open>Members\<close>

definition CONN_EXPIRED_TIMEOUT :: u64 where
  "CONN_EXPIRED_TIMEOUT = 30 * 1000"

definition MAX_SEND_KCP_SIZE :: u32 where
  "MAX_SEND_KCP_SIZE = 64 * 1024"

record conn =
  c_this :: nat
  c_udp :: bool
  c_addr :: sockaddr
  c_conv :: kcpuv_conv
  c_kcp :: "ikcpcb option"
  c_key :: u32
  c_status :: u32
  c_expired_tick :: u64

definition conn_new :: "nat \<Rightarrow> conn" where
  "conn_new this =
     \<lparr>c_this = this, c_udp = False, c_addr = [], c_conv = 0, c_kcp = None, c_key = 0,
      c_status = CONV_INVALID, c_expired_tick = 0\<rparr>"

section \<open>Sending datagrams\<close>

text \<open>
  \<^verbatim>\<open>send_udp\<close> copies the datagram into a request of its own; the request lives until \<^verbatim>\<open>on_send_done\<close> unless libuv
  refuses it at once.
\<close>

definition send_udp :: "env \<Rightarrow> u8 list \<Rightarrow> 'a conn_scheme \<Rightarrow> io \<Rightarrow> int \<times> io" where
  "send_udp env buf c io =
     (let req = io_n io;
          r = ev_uv env req;
          io = (asked io)\<lparr>io_reqs := io_reqs io @ [req]\<rparr>
      in PROC_ERR r
           (r, io\<lparr>io_reqs := removeAll req (io_reqs io)\<rparr>)
           (0, io\<lparr>io_out := io_out io @ [(c_addr c, buf)]\<rparr>))"

definition on_send_done :: "nat \<Rightarrow> io \<Rightarrow> io" where
  "on_send_done req io = io\<lparr>io_reqs := removeAll req (io_reqs io)\<rparr>"

text \<open>The output callback of the control block; its calls are the list of datagrams of a flush.\<close>

definition on_kcp_output :: "env \<Rightarrow> u8 list \<Rightarrow> 'a conn_scheme \<Rightarrow> io \<Rightarrow> int \<times> io" where
  "on_kcp_output env buf c io = send_udp env buf c io"

definition output_all :: "env \<Rightarrow> u8 list list \<Rightarrow> 'a conn_scheme \<Rightarrow> io \<Rightarrow> io" where
  "output_all env ds c io = fold (\<lambda>d io. snd (on_kcp_output env d c io)) ds io"

section \<open>Life cycle\<close>

definition init_kcp :: "env \<Rightarrow> kcpuv_conv \<Rightarrow> 'a conn_scheme \<Rightarrow> io \<Rightarrow> int \<times> 'a conn_scheme \<times> io" where
  "init_kcp env conv c io =
     (let (alloc_kcp, alloc_buffer) = ev_create env (io_n io);
          io = asked io
      in case ikcp_create alloc_kcp alloc_buffer conv (c_this c) of
           None \<Rightarrow> (-1, c\<lparr>c_kcp := None\<rparr>, io)
         | Some kcp \<Rightarrow>
             let kcp = kcp\<lparr>k_output := True\<rparr>;
                 (r, kcp) = ikcp_nodelay kcp 1 10 2 1
             in PROC_ERR r (-1, c\<lparr>c_kcp := None\<rparr>, io)
                  (0, c\<lparr>c_kcp := Some kcp, c_conv := conv\<rparr>, io))"

text \<open>\<^verbatim>\<open>shutdown\<close> as the blocks it frees; the object itself is deleted right after it.\<close>

definition conn_shutdown :: "'a conn_scheme \<Rightarrow> mem_block list option" where
  "conn_shutdown c = map_option (\<lambda>kcp. snd (ikcp_release kcp)) (c_kcp c)"

definition expired :: "env \<Rightarrow> 'a conn_scheme \<Rightarrow> io \<Rightarrow> int \<times> io" where
  "expired env c io =
     (let (now, io) = get_tick_ms env io in (if now > c_expired_tick c then 0 else -1, io))"

definition alive :: "env \<Rightarrow> 'a conn_scheme \<Rightarrow> io \<Rightarrow> 'a conn_scheme \<times> io" where
  "alive env c io =
     (let (now, io) = get_tick_ms env io
      in (c\<lparr>c_expired_tick := now + CONN_EXPIRED_TIMEOUT\<rparr>, io))"

definition status :: "'a conn_scheme \<Rightarrow> u32" where
  "status c = c_status c"

definition get_conv :: "'a conn_scheme \<Rightarrow> kcpuv_conv" where
  "get_conv c = c_conv c"

definition new_key :: "env \<Rightarrow> io \<Rightarrow> u32 \<times> io" where
  "new_key env io = rand_uint32 env io"

text \<open>\<^verbatim>\<open>new_conv\<close> draws until it finds a number that is not in use, possibly forever: \<open>None\<close> if the fuel runs out.\<close>

fun new_conv :: "nat \<Rightarrow> env \<Rightarrow> (kcpuv_conv \<Rightarrow> bool) \<Rightarrow> io \<Rightarrow> (u32 \<times> io) option" where
  "new_conv 0 env used io = None"
| "new_conv (Suc fuel) env used io =
     (let (conv, io) = rand_uint32 env io
      in if used conv then new_conv fuel env used io else Some (conv, io))"

section \<open>Messages\<close>

definition conn_on_recv_udp ::
    "env \<Rightarrow> u8 list \<Rightarrow> sockaddr \<Rightarrow> 'a conn_scheme \<Rightarrow> io \<Rightarrow> ('a conn_scheme \<times> io) option" where
  "conn_on_recv_udp env buf addr c io =
     do { let c = c\<lparr>c_addr := addr\<rparr>;
          kcp \<leftarrow> c_kcp c;
          Some (c\<lparr>c_kcp := Some (snd (ikcp_input (ev_mem env (io_n io)) kcp (Some buf)))\<rparr>, asked io) }"

text \<open>
  \<^verbatim>\<open>recv_kcp\<close> has the reference parameters \<^verbatim>\<open>buf\<close> and \<^verbatim>\<open>size\<close>, which come in and go out; it leaves them alone unless it
  returns 0.
\<close>

definition conn_recv_kcp :: "u8 list option \<Rightarrow> u32 \<Rightarrow> 'a conn_scheme
    \<Rightarrow> (int \<times> u8 list option \<times> u32 \<times> 'a conn_scheme) option" where
  "conn_recv_kcp buf sz c =
     do { kcp \<leftarrow> c_kcp c;
          let len = ikcp_peeksize kcp;
          CHK_COND_NOLOG (len > 0) (Some (-1, buf, sz, c))
            (let (r, data, kcp) = ikcp_recv kcp True len;
                 c = c\<lparr>c_kcp := Some kcp\<rparr>
             in PROC_ERR r (Some (r, buf, sz, c))
                  (CHK_COND_NOLOG (len \<ge> 4) (Some (r, buf, sz, c))
                    (let header = pack_header_cast data
                     in CHK_COND_NOLOG (ph_key header = c_key c) (Some (r, buf, sz, c))
                          (let sz = word_of_int len - 4
                           in if sz > 0
                              then Some (0, Some (take (unat sz) (drop 4 data)), sz, c)
                              else Some (0, None, sz, c))))) }"

definition send_kcp_raw :: "env \<Rightarrow> u8 list \<Rightarrow> 'a conn_scheme \<Rightarrow> io \<Rightarrow> (int \<times> 'a conn_scheme \<times> io) option" where
  "send_kcp_raw env buf c io =
     do { kcp \<leftarrow> c_kcp c;
          let (r, kcp) = ikcp_send (ev_alloc env (io_n io)) kcp (Some buf) (int (length buf));
          Some (r, c\<lparr>c_kcp := Some kcp\<rparr>, asked io) }"

definition send_kcp :: "env \<Rightarrow> u8 list \<Rightarrow> 'a conn_scheme \<Rightarrow> io \<Rightarrow> (int \<times> 'a conn_scheme \<times> io) option" where
  "send_kcp env buf c io =
     (if word_of_nat (length buf) > MAX_SEND_KCP_SIZE - 4 then Some (-1, c, io)
      else
        let header = \<lparr>ph_key = c_key c\<rparr>;
            tmp = pack_header_bytes header @ buf
        in send_kcp_raw env tmp c io)"

text \<open>
  \<^verbatim>\<open>Conn::run\<close>: the argument \<open>recv\<close> is the virtual \<^verbatim>\<open>recv_kcp\<close> of the object's class. The loop ends when a call
  returns a negative value.
\<close>

definition push_msg :: "kcpuv_msg \<Rightarrow> kcpuv_msg list \<Rightarrow> kcpuv_msg list" where
  [simp]: "push_msg msg queue_msg = queue_msg @ [msg]"

type_synonym 'a recv_method =
  "u8 list option \<Rightarrow> u32 \<Rightarrow> 'a conn_scheme \<Rightarrow> io \<Rightarrow> (int \<times> u8 list option \<times> u32 \<times> 'a conn_scheme \<times> io) option"

fun recv_loop :: "nat \<Rightarrow> 'a recv_method \<Rightarrow> u8 list option \<Rightarrow> u32 \<Rightarrow> int \<Rightarrow> kcpuv_msg list
    \<Rightarrow> 'a conn_scheme \<Rightarrow> io \<Rightarrow> (int \<times> kcpuv_msg list \<times> 'a conn_scheme \<times> io) option" where
  "recv_loop 0 recv buf sz msg_cnt queue_msg c io = None"
| "recv_loop (Suc fuel) recv buf sz msg_cnt queue_msg c io =
     do { (r, buf, sz, c, io) \<leftarrow> recv buf sz c io;
          if r < 0 then Some (msg_cnt, queue_msg, c, io)
          else
            let queue_msg = (if r = 0
                  then push_msg \<lparr>m_conv = c_conv c, m_data = buf, m_size = sz\<rparr> queue_msg else queue_msg)
            in recv_loop fuel recv buf sz (msg_cnt + 1) queue_msg c io }"

definition recv_fuel :: "ikcpcb \<Rightarrow> nat" where
  "recv_fuel kcp = Suc (length (k_rcv_queue kcp) + length (k_rcv_buf kcp))"

definition conn_run :: "'a recv_method \<Rightarrow> env \<Rightarrow> u64 \<Rightarrow> kcpuv_msg list \<Rightarrow> 'a conn_scheme \<Rightarrow> io
    \<Rightarrow> (int \<times> kcpuv_msg list \<times> 'a conn_scheme \<times> io) option" where
  "conn_run recv env tick queue_msg c io =
     do { kcp \<leftarrow> c_kcp c;
          let (kcp, ds) = ikcp_update kcp (ucast tick);
          let c = c\<lparr>c_kcp := Some kcp\<rparr>;
          let io = output_all env ds c io;
          (msg_cnt, queue_msg, c, io) \<leftarrow> recv_loop (recv_fuel kcp) recv None 0 0 queue_msg c io;
          if msg_cnt > 0
          then let (c, io) = alive env c io in Some (msg_cnt, queue_msg, c, io)
          else Some (msg_cnt, queue_msg, c, io) }"

section \<open>What the receive loop delivers\<close>

text \<open>
  \<open>drain n kcp\<close>: the messages \<^verbatim>\<open>ikcp_recv\<close> gives one after the other while \<^verbatim>\<open>ikcp_peeksize\<close> is positive, each with its
  size. A message is \<open>authentic\<close> for a key if it starts with it, and \<open>delivered\<close> are the messages for the
  application: the payloads of the authentic messages that have one.
\<close>

fun drain :: "nat \<Rightarrow> ikcpcb \<Rightarrow> (int \<times> u8 list) list" where
  "drain 0 kcp = []"
| "drain (Suc n) kcp =
     (let len = ikcp_peeksize kcp
      in if len > 0
         then let (r, data, kcp) = ikcp_recv kcp True len in (len, data) # drain n kcp
         else [])"

definition authentic :: "u32 \<Rightarrow> int \<times> u8 list \<Rightarrow> bool" where
  "authentic key m \<longleftrightarrow> 4 \<le> fst m \<and> ph_key (pack_header_cast (snd m)) = key"

definition body :: "int \<times> u8 list \<Rightarrow> u8 list" where
  "body m = take (unat (word_of_int (fst m) - 4 :: u32)) (drop 4 (snd m))"

definition delivered :: "u32 \<Rightarrow> kcpuv_conv \<Rightarrow> (int \<times> u8 list) list \<Rightarrow> kcpuv_msg list" where
  "delivered key conv ms =
     map (\<lambda>m. \<lparr>m_conv = conv, m_data = Some (body m), m_size = word_of_int (fst m) - 4\<rparr>)
       (filter (\<lambda>m. authentic key m \<and> word_of_int (fst m) \<noteq> (4 :: u32)) ms)"

text \<open>What the receive side of a control block depends on; sending does not touch it.\<close>

definition rcv_same :: "ikcpcb \<Rightarrow> ikcpcb \<Rightarrow> bool" where
  "rcv_same a b \<longleftrightarrow> k_rcv_queue a = k_rcv_queue b \<and> k_rcv_buf a = k_rcv_buf b \<and>
     k_rcv_nxt a = k_rcv_nxt b \<and> k_nrcv_que a = k_nrcv_que b \<and> k_rcv_wnd a = k_rcv_wnd b"

lemma rcv_same_refl [simp]: "rcv_same a a"
  by (simp add: rcv_same_def)

lemma rcv_same_sym: "rcv_same a b \<Longrightarrow> rcv_same b a"
  by (simp add: rcv_same_def)

lemma rcv_move_loop_same: "rcv_same a b \<Longrightarrow> rcv_same (rcv_move_loop p a) (rcv_move_loop p b)"
proof (induction p arbitrary: a b)
  case (Cons s p)
  have e: "s_sn s = k_rcv_nxt a \<and> k_nrcv_que a < k_rcv_wnd a \<longleftrightarrow> s_sn s = k_rcv_nxt b \<and> k_nrcv_que b < k_rcv_wnd b"
    using Cons.prems by (simp add: rcv_same_def)
  show ?case
  proof (cases "s_sn s = k_rcv_nxt b \<and> k_nrcv_que b < k_rcv_wnd b")
    case True
    then show ?thesis
      unfolding rcv_move_loop.simps e if_P [OF True]
      by (rule_tac Cons.IH) (use Cons.prems in \<open>simp add: rcv_same_def\<close>)
  next
    case False
    then show ?thesis unfolding rcv_move_loop.simps e if_not_P [OF False] using Cons.prems by simp
  qed
qed simp

lemma recv_same:
  assumes "rcv_same a b"
  shows "ikcp_peeksize a = ikcp_peeksize b"
    and "rcv_same (snd (snd (ikcp_recv a True n))) (snd (snd (ikcp_recv b True n)))"
    and "fst (snd (ikcp_recv a True n)) = fst (snd (ikcp_recv b True n))"
proof -
  have f: "k_rcv_queue a = k_rcv_queue b" "k_rcv_buf a = k_rcv_buf b" "k_rcv_nxt a = k_rcv_nxt b"
    "k_nrcv_que a = k_nrcv_que b" "k_rcv_wnd a = k_rcv_wnd b"
    using assms by (simp_all add: rcv_same_def)
  show p: "ikcp_peeksize a = ikcp_peeksize b" unfolding peeksize_eq f ..
  have "rcv_same (recv_take q a) (recv_take q b)" for q using f by (simp add: recv_take_def rcv_same_def Let_def)
  moreover have "rcv_same (rcv_move j) (rcv_move k)" if "rcv_same j k" for j k
    using rcv_move_loop_same [OF that, of "k_rcv_buf k"] that by (simp add: rcv_move_def rcv_same_def)
  moreover have "rcv_same (recv_tell r k) (recv_tell r' k') = rcv_same k k'" for r r' k k'
    by (simp add: recv_tell_def rcv_same_def)
  ultimately have "rcv_same (recv_tell r (rcv_move (recv_take q a))) (recv_tell r' (rcv_move (recv_take q b)))" for r r' q
    by blast
  then show "rcv_same (snd (snd (ikcp_recv a True n))) (snd (snd (ikcp_recv b True n)))"
    using assms unfolding ikcp_recv_eq Let_def p f by simp
  show "fst (snd (ikcp_recv a True n)) = fst (snd (ikcp_recv b True n))"
    unfolding ikcp_recv_eq Let_def p f by simp
qed

lemma drain_same: "rcv_same a b \<Longrightarrow> drain n a = drain n b"
proof (induction n arbitrary: a b)
  case (Suc n)
  note e = recv_same [OF Suc.prems]
  show ?case using e(1) e(3) Suc.IH [OF e(2)] by (simp add: Let_def split_beta)
qed simp

text \<open>A message leaves at least one segment less to come, so the loop ends.\<close>

lemma recv_fuel_less:
  assumes "0 < ikcp_peeksize kcp"
  shows "recv_fuel (snd (snd (ikcp_recv kcp True (ikcp_peeksize kcp)))) < recv_fuel kcp"
proof -
  let ?q = "k_rcv_queue kcp" and ?k = "recv_take False kcp"
  have q: "?q \<noteq> []" using assms by (auto simp: peeksize_eq)
  then have f: "0 < length (first_msg ?q)" by (cases ?q) auto
  have m: "k_rcv_queue (rcv_move ?k) @ k_rcv_buf (rcv_move ?k) = k_rcv_queue ?k @ k_rcv_buf ?k"
    by (rule rcv_move_shape [of ?k]) simp
  have k: "snd (snd (ikcp_recv kcp True (ikcp_peeksize kcp))) =
      recv_tell (k_rcv_wnd kcp \<le> k_nrcv_que kcp) (rcv_move ?k)"
    using assms q by (simp add: ikcp_recv_eq Let_def)
  have t: "k_rcv_queue (recv_tell r j) = k_rcv_queue j" "k_rcv_buf (recv_tell r j) = k_rcv_buf j" for r j
    by (simp_all add: recv_tell_def)
  have "length (k_rcv_queue ?k) + length (k_rcv_buf ?k) < length ?q + length (k_rcv_buf kcp)"
    using f q by (simp add: recv_take_def Let_def)
  then show ?thesis
    using arg_cong [OF m, of length] by (simp only: k t recv_fuel_def length_append)
qed

lemma recv_positive:
  assumes "0 < ikcp_peeksize kcp"
  shows "fst (ikcp_recv kcp True (ikcp_peeksize kcp)) = ikcp_peeksize kcp"
proof -
  have "k_rcv_queue kcp \<noteq> []" using assms by (auto simp: peeksize_eq)
  then show ?thesis using assms peeksize_first_msg [of kcp] by (simp add: ikcp_recv_eq Let_def)
qed

section \<open>The contract of \<^verbatim>\<open>recv_kcp\<close>\<close>

text \<open>
  What \<^verbatim>\<open>Conn::run\<close> relies on, whatever class overrides \<^verbatim>\<open>recv_kcp\<close>: with nothing to read the call returns -1 and
  changes nothing; otherwise it takes one message as \<^verbatim>\<open>ikcp_recv\<close> does, returns 0 with the payload exactly for a message to be delivered,
  and a positive number otherwise.
\<close>

definition to_deliver :: "u32 \<Rightarrow> int \<times> u8 list \<Rightarrow> bool" where
  "to_deliver key m \<longleftrightarrow> authentic key m \<and> word_of_int (fst m) \<noteq> (4 :: u32)"

locale recv_kcp_method =
  fixes recv :: "'a recv_method"
  assumes no_message: "c_kcp c = Some kcp \<Longrightarrow> ikcp_peeksize kcp \<le> 0 \<Longrightarrow>
      recv buf sz c io = Some (-1, buf, sz, c, io)"
    and message: "c_kcp c = Some kcp \<Longrightarrow> 0 < ikcp_peeksize kcp \<Longrightarrow>
      ikcp_recv kcp True (ikcp_peeksize kcp) = (n, data, kcp1) \<Longrightarrow>
      \<exists>r buf' sz' c' io' kcp'. recv buf sz c io = Some (r, buf', sz', c', io') \<and> 0 \<le> r \<and>
        c_kcp c' = Some kcp' \<and> rcv_same kcp' kcp1 \<and> c_key c' = c_key c \<and> c_conv c' = c_conv c \<and>
        c_status c' = c_status c \<and> conn.more c' = conn.more c \<and>
        (r = 0 \<longleftrightarrow> to_deliver (c_key c) (n, data)) \<and>
        (r = 0 \<longrightarrow> buf' = Some (body (n, data)) \<and> sz' = word_of_int n - 4)"
begin

lemma loop_spec:
  assumes "c_kcp c = Some kcp" "recv_fuel kcp \<le> fuel"
  shows "\<exists>c' io' kcp'. recv_loop fuel recv buf sz cnt q c io =
      Some (cnt + int (length (drain fuel kcp)), q @ delivered (c_key c) (c_conv c) (drain fuel kcp), c', io') \<and>
    c_kcp c' = Some kcp' \<and> c_key c' = c_key c \<and> c_conv c' = c_conv c \<and> c_status c' = c_status c \<and>
    conn.more c' = conn.more c"
  using assms
proof (induction fuel arbitrary: buf sz cnt q c io kcp)
  case 0
  then show ?case by (simp add: recv_fuel_def)
next
  case (Suc fuel)
  show ?case
  proof (cases "0 < ikcp_peeksize kcp")
    case False
    then have "recv buf sz c io = Some (-1, buf, sz, c, io)"
      using no_message [OF Suc.prems(1)] by simp
    with False Suc.prems(1) show ?thesis by (simp add: delivered_def)
  next
    case True
    obtain n data kcp1 where recv: "ikcp_recv kcp True (ikcp_peeksize kcp) = (n, data, kcp1)"
      by (metis surj_pair)
    then have n: "n = ikcp_peeksize kcp" using recv_positive [OF True] by simp
    obtain r buf' sz' c' io' kcp' where m: "recv buf sz c io = Some (r, buf', sz', c', io')" "0 \<le> r"
      "c_kcp c' = Some kcp'" "rcv_same kcp' kcp1" "c_key c' = c_key c" "c_conv c' = c_conv c"
      "c_status c' = c_status c" "conn.more c' = conn.more c" "r = 0 \<longleftrightarrow> to_deliver (c_key c) (n, data)"
      "r = 0 \<longrightarrow> buf' = Some (body (n, data)) \<and> sz' = word_of_int n - 4"
      using message [OF Suc.prems(1) True recv, of buf sz io] by blast
    have "recv_fuel kcp' = recv_fuel kcp1" using m(4) by (simp add: rcv_same_def recv_fuel_def)
    then have f: "recv_fuel kcp' \<le> fuel" using recv_fuel_less [OF True] recv Suc.prems(2) by simp
    have d: "drain (Suc fuel) kcp = (n, data) # drain fuel kcp'"
      using True recv drain_same [OF m(4), of fuel] n by simp
    let ?q = "if r = 0 then q @ [\<lparr>m_conv = c_conv c', m_data = buf', m_size = sz'\<rparr>] else q"
    have q: "?q = q @ delivered (c_key c) (c_conv c) [(n, data)]"
      using m(6,9,10) by (simp add: delivered_def to_deliver_def)
    have app: "delivered k v ((n, data) # ms) = delivered k v [(n, data)] @ delivered k v ms" for k v ms
      by (simp add: delivered_def)
    have l: "recv_loop (Suc fuel) recv buf sz cnt q c io = recv_loop fuel recv buf' sz' (cnt + 1) ?q c' io'"
      using m(1,2) by simp
    have e: "cnt + int (length (drain (Suc fuel) kcp)) = cnt + 1 + int (length (drain fuel kcp'))"
      by (simp only: d) simp
    have e': "q @ delivered (c_key c) (c_conv c) (drain (Suc fuel) kcp) =
        ?q @ delivered (c_key c) (c_conv c) (drain fuel kcp')"
      by (simp only: d q app [of _ _ "drain fuel kcp'"] append_assoc)
    show ?thesis
      unfolding l e e' using Suc.IH [OF m(3) f, of buf' sz' "cnt + 1" ?q io'] by (simp only: m(5-8))
  qed
qed

text \<open>Whatever fuel is enough, the result is the same; a run returns on every object with a control block.\<close>

lemma run_spec:
  assumes "c_kcp c = Some kcp"
    and k_def: "k = fst (ikcp_update kcp (ucast tick))" and ms_def: "ms = drain (recv_fuel k) k"
  shows "\<exists>c' io' kcp'. conn_run recv env tick q c io =
      Some (int (length ms), q @ delivered (c_key c) (c_conv c) ms, c', io') \<and>
    c_kcp c' = Some kcp' \<and> c_key c' = c_key c \<and> c_conv c' = c_conv c \<and> c_status c' = c_status c \<and>
    conn.more c' = conn.more c"
proof -
  let ?io = "output_all env (snd (ikcp_update kcp (ucast tick))) (c\<lparr>c_kcp := Some k\<rparr>) io"
  obtain c' io' kcp' where l: "recv_loop (recv_fuel k) recv None 0 0 q (c\<lparr>c_kcp := Some k\<rparr>) ?io =
      Some (int (length ms), q @ delivered (c_key c) (c_conv c) ms, c', io')"
    "c_kcp c' = Some kcp'" "c_key c' = c_key c" "c_conv c' = c_conv c" "c_status c' = c_status c"
    "conn.more c' = conn.more c"
    using loop_spec [of "c\<lparr>c_kcp := Some k\<rparr>" k "recv_fuel k" None 0 0 q ?io] by (auto simp: ms_def)
  show ?thesis
    using l by (simp add: conn_run_def assms(1) k_def [symmetric] Let_def split_beta alive_def)
qed

end

section \<open>The base class\<close>

lemma conn_recv_nothing:
  "c_kcp c = Some kcp \<Longrightarrow> ikcp_peeksize kcp \<le> 0 \<Longrightarrow> conn_recv_kcp buf sz c = Some (-1, buf, sz, c)"
  by (simp add: conn_recv_kcp_def Let_def)

lemma conn_recv_message:
  assumes "c_kcp c = Some kcp" "0 < ikcp_peeksize kcp"
    and "ikcp_recv kcp True (ikcp_peeksize kcp) = (n, data, kcp1)"
  shows "conn_recv_kcp buf sz c =
    (if \<not> authentic (c_key c) (n, data) then Some (n, buf, sz, c\<lparr>c_kcp := Some kcp1\<rparr>)
     else if to_deliver (c_key c) (n, data)
          then Some (0, Some (body (n, data)), word_of_int n - 4, c\<lparr>c_kcp := Some kcp1\<rparr>)
     else Some (0, None, 0, c\<lparr>c_kcp := Some kcp1\<rparr>))"
proof -
  have n: "n = ikcp_peeksize kcp" using recv_positive [OF assms(2)] assms(3) by simp
  have z: "(0 < (w :: u32) - 4) = (w \<noteq> 4)" for w by (simp add: word_gt_0)
  show ?thesis
    using assms unfolding n
    by (auto simp: conn_recv_kcp_def authentic_def to_deliver_def body_def Let_def z)
qed

lemma send_fragments_same: "rcv_same (snd (send_fragments alloc count n buffer len kcp)) kcp"
proof (induction n arbitrary: buffer len kcp)
  case (Suc n)
  have "rcv_same (snd (send_fragments alloc count n b l (kcp\<lparr>k_snd_queue := q, k_nsnd_que := m\<rparr>))) kcp" for b l q m
    using Suc [of b l "kcp\<lparr>k_snd_queue := q, k_nsnd_que := m\<rparr>"] by (simp add: rcv_same_def)
  then show ?case by (simp add: Let_def split: option.split)
qed simp

lemma ikcp_send_same: "rcv_same (snd (ikcp_send alloc kcp buffer len)) kcp"
  using send_fragments_same by (simp add: ikcp_send_def Let_def del: send_fragments.simps)

lemma send_kcp_raw_eq:
  "c_kcp c = Some kcp \<Longrightarrow> send_kcp_raw env b c io =
     Some (fst (ikcp_send (ev_alloc env (io_n io)) kcp (Some b) (int (length b))),
       c\<lparr>c_kcp := Some (snd (ikcp_send (ev_alloc env (io_n io)) kcp (Some b) (int (length b))))\<rparr>, asked io)"
  by (simp add: send_kcp_raw_def Let_def split_beta)

section \<open>Drawing a conversation number\<close>

definition draw :: "env \<Rightarrow> nat \<Rightarrow> u32" where
  "draw env i = word_of_int (ev_random env i)"

text \<open>Any \<open>fuel\<close> consecutive draws have more than \<open>n\<close> different values.\<close>

definition fair_random :: "env \<Rightarrow> nat \<Rightarrow> nat \<Rightarrow> bool" where
  "fair_random env fuel n \<longleftrightarrow> (\<forall>i. n < card ((\<lambda>j. draw env (i + j)) ` {..<fuel}))"

lemma new_conv_fresh: "new_conv fuel env used io = Some (conv, io') \<Longrightarrow> \<not> used conv"
  by (induction fuel env used io rule: new_conv.induct)
    (auto simp: rand_uint32_def Let_def split: if_splits)

lemma new_conv_returns:
  assumes "j < fuel" "\<not> used (draw env (io_n io + j))"
  shows "\<exists>conv io'. new_conv fuel env used io = Some (conv, io')"
  using assms
proof (induction fuel arbitrary: j io)
  case (Suc fuel)
  show ?case
  proof (cases "used (draw env (io_n io))")
    case True
    then obtain i where i: "j = Suc i" using Suc.prems(2) by (cases j) auto
    then show ?thesis
      using Suc.IH [of i "asked io"] Suc.prems True by (simp add: rand_uint32_def draw_def Let_def)
  qed (simp add: rand_uint32_def draw_def Let_def)
qed simp

lemma fair_new_conv:
  assumes "fair_random env fuel n" "finite {c. used c}" "card {c. used c} \<le> n"
  obtains conv io' where "new_conv fuel env used io = Some (conv, io')" "\<not> used conv"
proof -
  let ?D = "(\<lambda>j. draw env (io_n io + j)) ` {..<fuel}"
  have "card {c. used c} < card ?D" using assms(1,3) by (auto simp: fair_random_def intro: le_less_trans)
  then have "\<not> ?D \<subseteq> {c. used c}" using card_mono [OF assms(2)] by (meson not_le)
  then obtain j where "j < fuel" "\<not> used (draw env (io_n io + j))" by auto
  from new_conv_returns [of j fuel used env io, OF this] show thesis
    using that new_conv_fresh by blast
qed

lemma fair_random_mono: "fair_random env fuel n \<Longrightarrow> m \<le> n \<Longrightarrow> fair_random env fuel m"
  unfolding fair_random_def by (meson le_less_trans)

end
