(* ===== verification/Conn_Client.thy ===== *)
theory Conn_Client
  imports Conn
begin

text \<open>
  \<^verbatim>\<open>src/conn_client.cpp\<close>: the client's side of the handshake. It repeats its request until the server's answer
  with its number arrives; then it has a conversation and a key, acknowledges with the first message of the conversation, and is
  established.
\<close>

record conn_client = conn +
  cc_next_ping_tick :: u64
  cc_req_conn_times :: int
  cc_next_req_conn_tick :: u64
  cc_req_conn :: hs_req_conn

text \<open>The members of \<^verbatim>\<open>_req_conn\<close> are not initialised by the constructor; they are 0 here and set before any use.\<close>

definition client_new :: "nat \<Rightarrow> conn_client" where
  "client_new this =
     conn.extend (conn_new this)
       \<lparr>cc_next_ping_tick = 0, cc_req_conn_times = 0, cc_next_req_conn_tick = 0,
        cc_req_conn = \<lparr>rq_conv = 0, rq_n = 0\<rparr>\<rparr>"

definition prepare_req_conn :: "env \<Rightarrow> sockaddr \<Rightarrow> conn_client \<Rightarrow> io \<Rightarrow> int \<times> conn_client \<times> io" where
  "prepare_req_conn env addr c io =
     (let c = c\<lparr>c_addr := addr, c_udp := True, c_status := CONV_REQ_CONN,
                cc_next_req_conn_tick := 0, cc_req_conn_times := 10\<rparr>;
          (n, io) = rand_uint32 env io
      in (0, c\<lparr>cc_req_conn := \<lparr>rq_conv = CONV_REQ_CONN, rq_n = n\<rparr>\<rparr>, io))"

definition req_conn_run :: "env \<Rightarrow> conn_client \<Rightarrow> io \<Rightarrow> conn_client \<times> io" where
  "req_conn_run env c io =
     (let (now, io) = get_tick_ms env io
      in if c_status c = CONV_REQ_CONN then
           if cc_req_conn_times c > 0 then
             if now > cc_next_req_conn_tick c then
               let (_, io) = send_udp env (req_conn_bytes (cc_req_conn c)) c io
               in (c\<lparr>cc_req_conn_times := cc_req_conn_times c - 1,
                     cc_next_req_conn_tick := now + 1000\<rparr>, io)
             else (c, io)
           else (c, io)
         else (c, io))"

definition on_recv_udp_snd_conv :: "env \<Rightarrow> u8 list \<Rightarrow> conn_client \<Rightarrow> io \<Rightarrow> (conn_client \<times> io) option" where
  "on_recv_udp_snd_conv env buf c io =
     (let (r, conv) = ikcp_get_conv (Some buf)
      in PROC_ERR_NOLOG r (Some (c, io))
          (CHK_COND_NOLOG (conv = Some CONV_SND_CONV) (Some (c, io))
            (CHK_COND_NOLOG (16 = length buf) (Some (c, io))
              (let hs = snd_conv_cast buf
               in CHK_COND_NOLOG (sc_n hs = rq_n (cc_req_conn c)) (Some (c, io))
                    (let (r, c, io) = init_kcp env (sc_new_conv hs) c io
                     in PROC_ERR_NOLOG r (Some (c, io))
                          (do { let c = c\<lparr>c_conv := sc_new_conv hs, c_key := sc_key hs\<rparr>;
                                let ack = \<lparr>ak_header = \<lparr>ph_key = c_key c\<rparr>\<rparr>;
                                (r, c, io) \<leftarrow> send_kcp_raw env (ack_conv_bytes ack) c io;
                                PROC_ERR r (Some (c, io))
                                  (Some (alive env (c\<lparr>c_status := CONV_ESTABLISHED\<rparr>) io)) }))))))"

definition client_on_recv_udp ::
    "env \<Rightarrow> u8 list \<Rightarrow> sockaddr \<Rightarrow> conn_client \<Rightarrow> io \<Rightarrow> (conn_client \<times> io) option" where
  "client_on_recv_udp env buf addr c io =
     (if c_status c = CONV_REQ_CONN then on_recv_udp_snd_conv env buf c io
      else conn_on_recv_udp env buf addr c io)"

definition client_recv_kcp :: "'a recv_method" where
  "client_recv_kcp buf sz c io =
     do { (r, buf, sz, c) \<leftarrow> conn_recv_kcp buf sz c;
          if r = 0 \<and> sz = 0 \<and> buf = None then Some (1, buf, sz, c, io) else Some (r, buf, sz, c, io) }"

definition client_run :: "env \<Rightarrow> u64 \<Rightarrow> kcpuv_msg list \<Rightarrow> conn_client \<Rightarrow> io
    \<Rightarrow> (int \<times> kcpuv_msg list \<times> conn_client \<times> io) option" where
  "client_run env tick queue_msg c io = conn_run client_recv_kcp env tick queue_msg c io"

section \<open>The contracts\<close>

interpretation client_recv: recv_kcp_method client_recv_kcp
proof (unfold_locales, goal_cases)
  case (1 c kcp buf sz io)
  then show ?case by (simp add: client_recv_kcp_def conn_recv_nothing)
next
  case (2 c kcp n data kcp1 buf sz io)
  have "0 < n" using recv_positive [OF 2(2)] 2(2,3) by simp
  then show ?case using conn_recv_message [OF 2, of buf sz]
    by (auto simp: client_recv_kcp_def to_deliver_def split: if_splits)
qed

end
