(* ===== verification/Conn_Server.thy ===== *)
theory Conn_Server
  imports Conn
begin

text \<open>
  \<^verbatim>\<open>src/conn_server.cpp\<close>: the server's side of the handshake. It draws a conversation number and a key for the request,
  repeats them until the first message of the conversation arrives, and answers every empty message with one of its own.
\<close>

record conn_server = conn +
  cs_n :: u32
  cs_next_snd_conv_tick :: u64
  cs_snd_conv :: hs_snd_conv

definition server_new :: "nat \<Rightarrow> conn_server" where
  "server_new this =
     conn.extend (conn_new this)
       \<lparr>cs_n = 0, cs_next_snd_conv_tick = 0,
        cs_snd_conv = \<lparr>sc_conv = 0, sc_n = 0, sc_new_conv = 0, sc_key = 0\<rparr>\<rparr>"

definition prepare_snd_conv :: "nat \<Rightarrow> env \<Rightarrow> (kcpuv_conv \<Rightarrow> bool) \<Rightarrow> sockaddr \<Rightarrow> u32 \<Rightarrow> conn_server \<Rightarrow> io
    \<Rightarrow> (int \<times> conn_server \<times> io) option" where
  "prepare_snd_conv fuel env used addr n c io =
     do { let c = c\<lparr>c_addr := addr, c_udp := True, cs_n := n\<rparr>;
          (conv, io) \<leftarrow> new_conv fuel env used io;
          let c = c\<lparr>c_conv := conv, cs_next_snd_conv_tick := 0\<rparr>;
          let (key, io) = new_key env io;
          let c = c\<lparr>cs_snd_conv := \<lparr>sc_conv = CONV_SND_CONV, sc_n = n, sc_new_conv = conv, sc_key = key\<rparr>,
                    c_key := key, c_status := CONV_SND_CONV\<rparr>;
          Some (init_kcp env conv c io) }"

definition snd_conn_run :: "env \<Rightarrow> conn_server \<Rightarrow> io \<Rightarrow> conn_server \<times> io" where
  "snd_conn_run env c io =
     (let (now, io) = get_tick_ms env io
      in if c_status c = CONV_SND_CONV then
           if now > cs_next_snd_conv_tick c then
             let (_, io) = send_udp env (snd_conv_bytes (cs_snd_conv c)) c io
             in (c\<lparr>cs_next_snd_conv_tick := now + 1000\<rparr>, io)
           else (c, io)
         else (c, io))"

definition server_recv_kcp :: "env \<Rightarrow> 'a recv_method" where
  "server_recv_kcp env buf sz c io =
     do { (r, buf, sz, c) \<leftarrow> conn_recv_kcp buf sz c;
          if r = 0 \<and> sz = 0 \<and> buf = None then
            do { let ack = \<lparr>ak_header = \<lparr>ph_key = c_key c\<rparr>\<rparr>;
                 (_, c, io) \<leftarrow> send_kcp_raw env (ack_conv_bytes ack) c io;
                 Some (1, buf, sz, c, io) }
          else Some (r, buf, sz, c, io) }"

definition server_run :: "env \<Rightarrow> u64 \<Rightarrow> kcpuv_msg list \<Rightarrow> conn_server \<Rightarrow> io
    \<Rightarrow> (int \<times> kcpuv_msg list \<times> conn_server \<times> io) option" where
  "server_run env tick queue_msg c io =
     do { (msg_cnt, queue_msg, c, io) \<leftarrow> conn_run (server_recv_kcp env) env tick queue_msg c io;
          if c_status c = CONV_SND_CONV then
            if msg_cnt > 0 then Some (0, queue_msg, c\<lparr>c_status := CONV_ESTABLISHED\<rparr>, io)
            else let (c, io) = snd_conn_run env c io in Some (0, queue_msg, c, io)
          else Some (0, queue_msg, c, io) }"

section \<open>The contracts\<close>

interpretation server_recv: recv_kcp_method "server_recv_kcp env"
proof (unfold_locales, goal_cases)
  case (1 c kcp buf sz io)
  then show ?case by (simp add: server_recv_kcp_def conn_recv_nothing)
next
  case (2 c kcp n data kcp1 buf sz io)
  have "0 < n" using recv_positive [OF 2(2)] 2(2,3) by simp
  then show ?case
    using conn_recv_message [OF 2, of buf sz]
    by (auto simp: server_recv_kcp_def to_deliver_def send_kcp_raw_eq ikcp_send_same split: if_splits)
qed

end
