(* ===== verification/Std_Map.thy ===== *)
theory Std_Map
  imports Prelude
begin

text \<open>
  \<^verbatim>\<open>std::map\<close>, as far as \<^verbatim>\<open>network.cpp\<close> uses it: \<^verbatim>\<open>find\<close>, \<^verbatim>\<open>operator[]\<close> on the left of an assignment, \<^verbatim>\<open>erase\<close> by key and
  the iteration in ascending order of the keys. It is the sorted list of its entries. The locale
  \<open>ordered_map\<close> is the contract of these operations, and its lemmas (erasing a list of keys, what
  iteration sees) are proved once against it.
\<close>

section \<open>Operations\<close>

fun map_put :: "'k::linorder \<Rightarrow> 'v \<Rightarrow> ('k \<times> 'v) list \<Rightarrow> ('k \<times> 'v) list" where
  "map_put k v [] = [(k, v)]"
| "map_put k v ((k', v') # m) =
     (if k < k' then (k, v) # (k', v') # m
      else if k = k' then (k, v) # m
      else (k', v') # map_put k v m)"

definition map_find :: "('k \<times> 'v) list \<Rightarrow> 'k \<Rightarrow> 'v option" where
  "map_find m k = map_of m k"

definition map_erase :: "'k \<Rightarrow> ('k \<times> 'v) list \<Rightarrow> ('k \<times> 'v) list" where
  "map_erase k m = filter (\<lambda>e. fst e \<noteq> k) m"

definition map_wf :: "('k::linorder \<times> 'v) list \<Rightarrow> bool" where
  "map_wf m \<longleftrightarrow> sorted_wrt (<) (map fst m)"

section \<open>The contract\<close>

locale ordered_map =
  fixes wf :: "'m \<Rightarrow> bool"
    and entries :: "'m \<Rightarrow> ('k::linorder \<times> 'v) list"
    and find :: "'m \<Rightarrow> 'k \<Rightarrow> 'v option"
    and put :: "'k \<Rightarrow> 'v \<Rightarrow> 'm \<Rightarrow> 'm"
    and erase :: "'k \<Rightarrow> 'm \<Rightarrow> 'm"
  assumes entries_sorted: "wf m \<Longrightarrow> sorted_wrt (<) (map fst (entries m))"
    and find_entries: "wf m \<Longrightarrow> find m k = map_of (entries m) k"
    and wf_put: "wf m \<Longrightarrow> wf (put k v m)"
    and find_put: "wf m \<Longrightarrow> find (put k v m) = (find m)(k \<mapsto> v)"
    and wf_erase: "wf m \<Longrightarrow> wf (erase k m)"
    and find_erase: "wf m \<Longrightarrow> find (erase k m) = (find m)(k := None)"
begin

lemma distinct_keys: "wf m \<Longrightarrow> distinct (map fst (entries m))"
  using entries_sorted [of m] by (simp add: strict_sorted_iff)

lemma entries_find: "wf m \<Longrightarrow> (k, v) \<in> set (entries m) \<longleftrightarrow> find m k = Some v"
  using distinct_keys [of m] by (simp add: find_entries)

lemma wf_erase_all: "wf m \<Longrightarrow> wf (fold erase ks m)"
  by (induction ks arbitrary: m) (simp_all add: wf_erase)

lemma find_erase_all: "wf m \<Longrightarrow> find (fold erase ks m) k = (if k \<in> set ks then None else find m k)"
  by (induction ks arbitrary: m) (auto simp: wf_erase find_erase)

lemma entries_erase_all:
  "wf m \<Longrightarrow> set (entries (fold erase ks m)) = {(k, v) \<in> set (entries m). k \<notin> set ks}"
  using wf_erase_all by (auto simp: entries_find find_erase_all split: if_splits)

lemma entries_put:
  "wf m \<Longrightarrow> set (entries (put k v m)) = insert (k, v) {(k', v') \<in> set (entries m). k' \<noteq> k}"
  by (auto simp: entries_find wf_put find_put split: if_splits)

end

lemma map_put_keys: "set (map fst (map_put k v m)) = insert k (set (map fst m))"
proof (induction m)
  case (Cons e m)
  then show ?case by (cases e) (auto simp del: set_map)
qed simp

lemma map_put_wf: "map_wf m \<Longrightarrow> map_wf (map_put k v m)"
proof (induction m)
  case (Cons e m)
  obtain k' v' where e: "e = (k', v')" by fastforce
  have s: "\<forall>x \<in> set (map fst m). k' < x" "map_wf m"
    using Cons.prems by (simp_all add: map_wf_def e)
  consider "k < k'" | "k = k'" | "k' < k" by (meson less_linear)
  then show ?case
  proof cases
    case 1
    then have "\<forall>x \<in> set (map fst m). k < x" using s(1) by (meson less_trans)
    then show ?thesis using 1 Cons.prems by (simp add: map_wf_def e)
  next
    case 2
    then show ?thesis using Cons.prems by (simp add: map_wf_def e)
  next
    case 3
    then have "\<forall>x \<in> set (map fst (map_put k v m)). k' < x"
      unfolding map_put_keys using s(1) by blast
    then show ?thesis using 3 Cons.IH [OF s(2)] by (auto simp: map_wf_def e)
  qed
qed (simp add: map_wf_def)

lemma map_of_put: "map_wf m \<Longrightarrow> map_of (map_put k v m) = (map_of m)(k \<mapsto> v)"
proof (induction m)
  case (Cons e m)
  have "map_of m k = None" if "k < fst e"
    using Cons.prems that by (fastforce simp: map_wf_def map_of_eq_None_iff)
  then show ?case using Cons by (cases e) (auto simp: map_wf_def fun_eq_iff)
qed simp

lemma map_of_erase: "map_of (map_erase k m) = (map_of m)(k := None)"
  by (induction m) (auto simp: map_erase_def fun_eq_iff)

lemma map_erase_wf: "map_wf m \<Longrightarrow> map_wf (map_erase k m)"
  by (induction m) (auto simp: map_wf_def map_erase_def)

interpretation smap: ordered_map map_wf "\<lambda>m. m" map_find map_put map_erase
  by unfold_locales (auto simp: map_wf_def map_find_def [abs_def] map_of_put [unfolded map_wf_def]
      map_put_wf [unfolded map_wf_def] map_of_erase map_erase_wf [unfolded map_wf_def])

lemma map_wf_Nil [simp]: "map_wf []"
  by (simp add: map_wf_def)

end
