(* ===== verification/Network.thy ===== *)
theory Network
  imports Conn_Client Conn_Server Std_Map
begin

text \<open>
  \<^verbatim>\<open>src/network.cpp\<close>: the class \<^verbatim>\<open>Network\<close> with its connections, and the public interface of \<^verbatim>\<open>inc/kcpuv.h\<close>.

  Connections are objects that several pointers share (the map, libuv's handle), so they live in a store: \<open>n_heap\<close>
  maps an address to the object there, \<^verbatim>\<open>new\<close> takes the address \<open>n_next\<close>, and \<^verbatim>\<open>delete\<close> removes the entry. A method called through a null
  or dangling pointer has no defined result, which is \<open>None\<close>. Virtual methods are case distinctions on the object's class.

  libuv is outside: one \<^verbatim>\<open>uv_run\<close> is the list of the events it reports, in order, and each calls the
  callback that the code registered for it.
\<close>

section \<open>Objects\<close>

datatype conn_obj = Client_obj conn_client | Server_obj conn_server

fun obj_conv :: "conn_obj \<Rightarrow> kcpuv_conv" where
  "obj_conv (Client_obj c) = get_conv c"
| "obj_conv (Server_obj c) = get_conv c"

fun obj_kcp :: "conn_obj \<Rightarrow> ikcpcb option" where
  "obj_kcp (Client_obj c) = c_kcp c"
| "obj_kcp (Server_obj c) = c_kcp c"

fun obj_run :: "env \<Rightarrow> u64 \<Rightarrow> kcpuv_msg list \<Rightarrow> conn_obj \<Rightarrow> io \<Rightarrow> (kcpuv_msg list \<times> conn_obj \<times> io) option" where
  "obj_run env tick q (Client_obj c) io =
     map_option (\<lambda>(r, q, c, io). (q, Client_obj c, io)) (client_run env tick q c io)"
| "obj_run env tick q (Server_obj c) io =
     map_option (\<lambda>(r, q, c, io). (q, Server_obj c, io)) (server_run env tick q c io)"

fun obj_on_recv_udp :: "env \<Rightarrow> u8 list \<Rightarrow> sockaddr \<Rightarrow> conn_obj \<Rightarrow> io \<Rightarrow> (conn_obj \<times> io) option" where
  "obj_on_recv_udp env buf addr (Client_obj c) io =
     map_option (\<lambda>(c, io). (Client_obj c, io)) (client_on_recv_udp env buf addr c io)"
| "obj_on_recv_udp env buf addr (Server_obj c) io =
     map_option (\<lambda>(c, io). (Server_obj c, io)) (conn_on_recv_udp env buf addr c io)"

fun obj_expired :: "env \<Rightarrow> conn_obj \<Rightarrow> io \<Rightarrow> int \<times> io" where
  "obj_expired env (Client_obj c) io = expired env c io"
| "obj_expired env (Server_obj c) io = expired env c io"

fun obj_shutdown :: "conn_obj \<Rightarrow> mem_block list option" where
  "obj_shutdown (Client_obj c) = conn_shutdown c"
| "obj_shutdown (Server_obj c) = conn_shutdown c"

fun obj_send_kcp :: "env \<Rightarrow> u8 list \<Rightarrow> conn_obj \<Rightarrow> io \<Rightarrow> (int \<times> conn_obj \<times> io) option" where
  "obj_send_kcp env buf (Client_obj c) io =
     map_option (\<lambda>(r, c, io). (r, Client_obj c, io)) (send_kcp env buf c io)"
| "obj_send_kcp env buf (Server_obj c) io =
     map_option (\<lambda>(r, c, io). (r, Server_obj c, io)) (send_kcp env buf c io)"

section \<open>Members\<close>

text \<open>What \<^verbatim>\<open>_udp.data\<close> points to, and the callback \<^verbatim>\<open>uv_udp_recv_start\<close> was given.\<close>

datatype handle_data = Data_null | Data_network | Data_conn nat
datatype recv_cb = Cb_server | Cb_client

record network =
  n_loop :: bool
  n_udp_data :: handle_data
  n_udp_cb :: "recv_cb option"
  n_map_conn :: "(kcpuv_conv \<times> nat) list"
  n_map_req_conn :: "(u32 \<times> kcpuv_conv) list"
  n_queue_msg :: "kcpuv_msg list"
  n_heap :: "nat \<Rightarrow> conn_obj option"
  n_next :: nat

definition network_new :: network where
  "network_new =
     \<lparr>n_loop = False, n_udp_data = Data_null, n_udp_cb = None, n_map_conn = [], n_map_req_conn = [],
      n_queue_msg = [], n_heap = (\<lambda>_. None), n_next = 0\<rparr>"

text \<open>\<^verbatim>\<open>rand_seed\<close> only affects the values of the random generator, which are those of \<open>env\<close>.\<close>

definition network_init :: "env \<Rightarrow> network \<Rightarrow> io \<Rightarrow> int \<times> network \<times> io" where
  "network_init env net io =
     (let net = net\<lparr>n_loop := True\<rparr>;
          (seed, io) = get_tick_ms env io
      in (0, net, io))"

definition store :: "nat \<Rightarrow> conn_obj \<Rightarrow> network \<Rightarrow> network" where
  "store a obj net = net\<lparr>n_heap := (n_heap net)(a \<mapsto> obj)\<rparr>"

definition delete :: "nat \<Rightarrow> network \<Rightarrow> network" where
  "delete a net = net\<lparr>n_heap := (n_heap net)(a := None)\<rparr>"

section \<open>Receiving datagrams\<close>

definition get_conn_by_conv :: "network \<Rightarrow> kcpuv_conv \<Rightarrow> nat option" where
  "get_conn_by_conv net conv = map_find (n_map_conn net) conv"

definition proc_req_conn :: "nat \<Rightarrow> env \<Rightarrow> u8 list \<Rightarrow> sockaddr \<Rightarrow> network \<Rightarrow> io \<Rightarrow> (int \<times> network \<times> io) option" where
  "proc_req_conn fuel env buf addr net io =
     (let req = req_conn_cast buf
      in CHK_COND_NOLOG (length buf = 8) (Some (-1, net, io))
          (CHK_COND_NOLOG (map_find (n_map_req_conn net) (rq_n req) = None) (Some (-1, net, io))
            (let a = n_next net;
                 net = net\<lparr>n_next := Suc a\<rparr>
             in do { (r, conn, io) \<leftarrow> prepare_snd_conv fuel env (\<lambda>conv. get_conn_by_conv net conv \<noteq> None)
                                        addr (rq_n req) (server_new a) io;
                     PROC_ERR r (Some (r, net, io))
                       (let net = net\<lparr>n_map_req_conn := map_put (rq_n req) (get_conv conn) (n_map_req_conn net),
                                      n_map_conn := map_put (get_conv conn) a (n_map_conn net)\<rparr>;
                            (conn, io) = alive env conn io
                        in Some (0, store a (Server_obj conn) net, io)) })))"

definition network_on_recv_udp :: "nat \<Rightarrow> env \<Rightarrow> u8 list \<Rightarrow> sockaddr \<Rightarrow> network \<Rightarrow> io \<Rightarrow> (network \<times> io) option" where
  "network_on_recv_udp fuel env buf addr net io =
     (case ikcp_get_conv (Some buf) of
        (r, None) \<Rightarrow> Some (net, io)
      | (r, Some conv) \<Rightarrow>
          if conv = CONV_REQ_CONN
          then map_option snd (proc_req_conn fuel env buf addr net io)
          else
            case get_conn_by_conv net conv of
              None \<Rightarrow> Some (net, io)
            | Some a \<Rightarrow>
                do { obj \<leftarrow> n_heap net a;
                     (obj, io) \<leftarrow> obj_on_recv_udp env buf addr obj io;
                     Some (store a obj net, io) })"

definition on_recv_udp_server :: "nat \<Rightarrow> env \<Rightarrow> int \<Rightarrow> u8 list \<Rightarrow> sockaddr \<Rightarrow> network \<Rightarrow> io \<Rightarrow> (network \<times> io) option" where
  "on_recv_udp_server fuel env nread base addr net io =
     (if nread \<le> 0 then Some (net, io)
      else
        case n_udp_data net of
          Data_network \<Rightarrow> network_on_recv_udp fuel env (take (nat nread) base) addr net io
        | _ \<Rightarrow> None)"

definition on_recv_udp_client :: "env \<Rightarrow> int \<Rightarrow> u8 list \<Rightarrow> sockaddr \<Rightarrow> network \<Rightarrow> io \<Rightarrow> (network \<times> io) option" where
  "on_recv_udp_client env nread base addr net io =
     (if nread \<le> 0 then Some (net, io)
      else
        case n_udp_data net of
          Data_conn a \<Rightarrow>
            do { obj \<leftarrow> n_heap net a;
                 (obj, io) \<leftarrow> obj_on_recv_udp env (take (nat nread) base) addr obj io;
                 Some (store a obj net, io) }
        | _ \<Rightarrow> None)"

section \<open>The event loop\<close>

text \<open>\<open>Ev_recv\<close>: a datagram (or an error, then \<^verbatim>\<open>nread\<close> is not positive). \<open>Ev_sent\<close>: a send request is finished.\<close>

datatype uv_event = Ev_recv int "u8 list" sockaddr | Ev_sent nat int

fun uv_step :: "nat \<Rightarrow> env \<Rightarrow> uv_event \<Rightarrow> network \<Rightarrow> io \<Rightarrow> (network \<times> io) option" where
  "uv_step fuel env (Ev_recv nread base addr) net io =
     (case n_udp_cb net of
        None \<Rightarrow> Some (net, io)
      | Some Cb_server \<Rightarrow> on_recv_udp_server fuel env nread base addr net io
      | Some Cb_client \<Rightarrow> on_recv_udp_client env nread base addr net io)"
| "uv_step fuel env (Ev_sent req st) net io = Some (net, on_send_done req io)"

fun uv_run :: "nat \<Rightarrow> env \<Rightarrow> uv_event list \<Rightarrow> network \<Rightarrow> io \<Rightarrow> (network \<times> io) option" where
  "uv_run fuel env [] net io = Some (net, io)"
| "uv_run fuel env (ev # evs) net io =
     do { (net, io) \<leftarrow> uv_step fuel env ev net io; uv_run fuel env evs net io }"

fun run_conns :: "env \<Rightarrow> (kcpuv_conv \<times> nat) list \<Rightarrow> kcpuv_conv list \<Rightarrow> network \<Rightarrow> io
    \<Rightarrow> (kcpuv_conv list \<times> network \<times> io) option" where
  "run_conns env [] remove_list net io = Some (remove_list, net, io)"
| "run_conns env ((_, a) # it) remove_list net io =
     do { conn \<leftarrow> n_heap net a;
          let (e, io) = obj_expired env conn io;
          if e = 0 then run_conns env it (remove_list @ [obj_conv conn]) (delete a net) io
          else
            do { let (now, io) = get_tick_ms env io;
                 (queue_msg, conn, io) \<leftarrow> obj_run env now (n_queue_msg net) conn io;
                 run_conns env it remove_list (store a conn (net\<lparr>n_queue_msg := queue_msg\<rparr>)) io } }"

definition network_run :: "nat \<Rightarrow> env \<Rightarrow> uv_event list \<Rightarrow> network \<Rightarrow> io \<Rightarrow> (network \<times> io) option" where
  "network_run fuel env evs net io =
     do { (net, io) \<leftarrow> uv_run fuel env evs net io;
          (remove_list, net, io) \<leftarrow> run_conns env (n_map_conn net) [] net io;
          Some (net\<lparr>n_map_conn := fold map_erase remove_list (n_map_conn net)\<rparr>, io) }"

section \<open>Listening, connecting, shutting down\<close>

definition uv_call :: "env \<Rightarrow> io \<Rightarrow> int \<times> io" where
  "uv_call env io = (ev_uv env (io_n io), asked io)"

text \<open>
  The calls with a result are \<^verbatim>\<open>uv_ip4_addr\<close>, \<^verbatim>\<open>uv_udp_bind\<close> and \<^verbatim>\<open>uv_udp_recv_start\<close>; a handle that \<^verbatim>\<open>uv_udp_init\<close>
  has initialised has no receive callback.
\<close>

definition udp_listen :: "env \<Rightarrow> network \<Rightarrow> io \<Rightarrow> int \<times> network \<times> io" where
  "udp_listen env net io =
     (let net = net\<lparr>n_udp_data := Data_network, n_udp_cb := None\<rparr>;
          (r, io) = uv_call env io
      in PROC_ERR r (r, net, io)
          (let (r, io) = uv_call env io
           in PROC_ERR r (r, net, io)
               (let (r, io) = uv_call env io
                in PROC_ERR r (r, net, io) (0, net\<lparr>n_udp_cb := Some Cb_server\<rparr>, io))))"

text \<open>
  The loop of \<^verbatim>\<open>connect\<close>: \<open>rounds\<close> are the events of its successive calls of \<^verbatim>\<open>uv_run\<close>. The result says whether the connection is
  established; \<open>None\<close> if the rounds given are not enough to end it.
\<close>

fun connect_loop :: "nat \<Rightarrow> env \<Rightarrow> u64 \<Rightarrow> nat \<Rightarrow> uv_event list list \<Rightarrow> network \<Rightarrow> io \<Rightarrow> (bool \<times> network \<times> io) option" where
  "connect_loop fuel env timeout a [] net io =
     (let (now, io) = get_tick_ms env io
      in if now < timeout then None else Some (False, net, io))"
| "connect_loop fuel env timeout a (evs # rounds) net io =
     (let (now, io) = get_tick_ms env io
      in if now < timeout then
           case n_heap net a of
             Some (Client_obj conn) \<Rightarrow>
               do { let (conn, io) = req_conn_run env conn io;
                    (net, io) \<leftarrow> uv_run fuel env evs (store a (Client_obj conn) net) io;
                    case n_heap net a of
                      Some (Client_obj conn) \<Rightarrow>
                        if status conn = CONV_ESTABLISHED then Some (True, net, io)
                        else connect_loop fuel env timeout a rounds net io
                    | _ \<Rightarrow> None }
           | _ \<Rightarrow> None
         else Some (False, net, io))"

definition connect :: "nat \<Rightarrow> env \<Rightarrow> sockaddr \<Rightarrow> uv_event list list \<Rightarrow> network \<Rightarrow> io
    \<Rightarrow> (kcpuv_conv \<times> network \<times> io) option" where
  "connect fuel env addr rounds net io =
     (let (now, io) = get_tick_ms env io;
          timeout = now + 10 * 1000000;
          a = n_next net;
          net = store a (Client_obj (client_new a)) (net\<lparr>n_next := Suc a, n_udp_data := Data_conn a, n_udp_cb := None\<rparr>);
          exit0 = (\<lambda>net io. Some (0, (delete a net)\<lparr>n_udp_data := Data_null\<rparr>, io));
          (r, io) = uv_call env io
      in PROC_ERR r (exit0 net io)
          (let (r, conn, io) = prepare_req_conn env addr (client_new a) io;
               net = store a (Client_obj conn) net
           in PROC_ERR r (exit0 net io)
               (let (r, io) = uv_call env io
                in PROC_ERR r (exit0 net io)
                    (do { (ok, net, io) \<leftarrow> connect_loop fuel env timeout a rounds (net\<lparr>n_udp_cb := Some Cb_client\<rparr>) io;
                          if ok then
                            do { conn \<leftarrow> n_heap net a;
                                 Some (obj_conv conn,
                                   net\<lparr>n_map_conn := map_put (obj_conv conn) a (n_map_conn net)\<rparr>, io) }
                          else exit0 net io }))))"

text \<open>\<^verbatim>\<open>shutdown\<close>: after \<^verbatim>\<open>uv_close\<close> no datagram is reported any more; the result is the list of the blocks freed.\<close>

fun shutdown_conns :: "(kcpuv_conv \<times> nat) list \<Rightarrow> mem_block list \<Rightarrow> network \<Rightarrow> (mem_block list \<times> network) option" where
  "shutdown_conns [] freed net = Some (freed, net)"
| "shutdown_conns ((_, a) # it) freed net =
     do { conn \<leftarrow> n_heap net a;
          blocks \<leftarrow> obj_shutdown conn;
          shutdown_conns it (freed @ blocks) (delete a net) }"

definition network_shutdown :: "nat \<Rightarrow> env \<Rightarrow> uv_event list \<Rightarrow> network \<Rightarrow> io \<Rightarrow> (mem_block list \<times> network \<times> io) option" where
  "network_shutdown fuel env evs net io =
     do { (net, io) \<leftarrow> uv_run fuel env evs (net\<lparr>n_udp_cb := None\<rparr>) io;
          (freed, net) \<leftarrow> shutdown_conns (n_map_conn net) [] (net\<lparr>n_loop := False\<rparr>);
          Some (freed, net, io) }"

section \<open>Messages\<close>

definition get_msg :: "network \<Rightarrow> int \<times> kcpuv_msg option \<times> network" where
  "get_msg net =
     (case n_queue_msg net of
        [] \<Rightarrow> (-1, None, net)
      | msg # queue_msg \<Rightarrow> (0, Some msg, net\<lparr>n_queue_msg := queue_msg\<rparr>))"

section \<open>The public interface\<close>

definition kcpuv_create :: "env \<Rightarrow> io \<Rightarrow> network option \<times> io" where
  "kcpuv_create env io =
     (let (r, net, io) = network_init env network_new io
      in PROC_ERR r (None, io) (Some net, io))"

definition kcpuv_destroy :: "nat \<Rightarrow> env \<Rightarrow> uv_event list \<Rightarrow> network \<Rightarrow> io \<Rightarrow> (mem_block list \<times> io) option" where
  "kcpuv_destroy fuel env evs net io =
     map_option (\<lambda>(freed, net, io). (freed, io)) (network_shutdown fuel env evs net io)"

definition kcpuv_listen :: "env \<Rightarrow> network \<Rightarrow> io \<Rightarrow> int \<times> network \<times> io" where
  "kcpuv_listen env net io = udp_listen env net io"

definition kcpuv_connect :: "nat \<Rightarrow> env \<Rightarrow> sockaddr \<Rightarrow> uv_event list list \<Rightarrow> network \<Rightarrow> io
    \<Rightarrow> (kcpuv_conv \<times> network \<times> io) option" where
  "kcpuv_connect fuel env addr rounds net io = connect fuel env addr rounds net io"

definition kcpuv_run :: "nat \<Rightarrow> env \<Rightarrow> uv_event list \<Rightarrow> network \<Rightarrow> io \<Rightarrow> (network \<times> io) option" where
  "kcpuv_run fuel env evs net io = network_run fuel env evs net io"

definition kcpuv_recv :: "network \<Rightarrow> int \<times> kcpuv_msg option \<times> network" where
  "kcpuv_recv net = get_msg net"

definition kcpuv_send :: "env \<Rightarrow> kcpuv_conv \<Rightarrow> u8 list \<Rightarrow> network \<Rightarrow> io \<Rightarrow> (int \<times> network \<times> io) option" where
  "kcpuv_send env conv data net io =
     (case get_conn_by_conv net conv of
        None \<Rightarrow> Some (-1, net, io)
      | Some a \<Rightarrow>
          do { conn \<leftarrow> n_heap net a;
               (r, conn, io) \<leftarrow> obj_send_kcp env data conn io;
               Some (r, store a conn net, io) })"

definition kcpuv_msg_free :: "kcpuv_msg \<Rightarrow> kcpuv_msg" where
  "kcpuv_msg_free msg = msg\<lparr>m_data := None\<rparr>"

definition kcpuv_conv_valid :: "network \<Rightarrow> kcpuv_conv \<Rightarrow> int" where
  "kcpuv_conv_valid net conv = (if get_conn_by_conv net conv \<noteq> None then 0 else -1)"

end
