(* ===== verification/Network_Inv.thy ===== *)
theory Network_Inv
  imports Network
begin

text \<open>
  The state of a server: every entry of the map of connections points to a live object of its own, whose
  conversation, key and handshake message agree, and every request number that was answered is remembered. Every event and every
  run keeps this, and a run returns: no call goes through a null or dangling pointer.
\<close>

section \<open>The invariant\<close>

definition server_conn_ok :: "(u32 \<times> kcpuv_conv) list \<Rightarrow> kcpuv_conv \<Rightarrow> conn_server \<Rightarrow> bool" where
  "server_conn_ok reqs conv c \<longleftrightarrow>
     c_kcp c \<noteq> None \<and> c_conv c = conv \<and>
     cs_snd_conv c = \<lparr>sc_conv = CONV_SND_CONV, sc_n = cs_n c, sc_new_conv = conv, sc_key = c_key c\<rparr> \<and>
     c_status c \<in> {CONV_SND_CONV, CONV_ESTABLISHED} \<and> map_find reqs (cs_n c) = Some conv"

definition entry_ok :: "network \<Rightarrow> kcpuv_conv \<times> nat \<Rightarrow> bool" where
  "entry_ok net e \<longleftrightarrow> snd e < n_next net \<and>
     (\<exists>c. n_heap net (snd e) = Some (Server_obj c) \<and> server_conn_ok (n_map_req_conn net) (fst e) c)"

definition server_ok :: "network \<Rightarrow> bool" where
  "server_ok net \<longleftrightarrow> map_wf (n_map_conn net) \<and> map_wf (n_map_req_conn net) \<and>
     distinct (map snd (n_map_conn net)) \<and> list_all (entry_ok net) (n_map_conn net) \<and>
     (n_udp_cb net = None \<or> n_udp_cb net = Some Cb_server \<and> n_udp_data net = Data_network)"

lemma server_fields:
  assumes "conn.more c' = conn.more (c :: conn_server)"
  shows "cs_n c' = cs_n c" "cs_snd_conv c' = cs_snd_conv c" "cs_next_snd_conv_tick c' = cs_next_snd_conv_tick c"
  using assms by (cases c; cases c'; simp)+

lemma server_ok_find:
  assumes "server_ok net" "get_conn_by_conv net conv = Some a"
  shows "(conv, a) \<in> set (n_map_conn net)" "entry_ok net (conv, a)"
  using assms smap.entries_find [of "n_map_conn net" conv a]
  by (auto simp: server_ok_def get_conn_by_conv_def list_all_iff)

text \<open>Replacing the object of one entry by another that fits the entry keeps the invariant.\<close>

lemma server_ok_store:
  assumes "server_ok net" "(conv, a) \<in> set (n_map_conn net)" "server_conn_ok (n_map_req_conn net) conv c"
  shows "server_ok (store a (Server_obj c) net)"
proof -
  have inj: "k = conv" if "(k, a) \<in> set (n_map_conn net)" for k
  proof -
    have "distinct (map snd (n_map_conn net))" using assms(1) by (simp add: server_ok_def)
    from eq_key_imp_eq_value [of "map prod.swap (n_map_conn net)" a k conv] this that assms(2)
    show ?thesis by (force simp: comp_def)
  qed
  have "entry_ok (store a (Server_obj c) net) e" if "e \<in> set (n_map_conn net)" for e
    using assms that inj [of "fst e"]
    by (cases e) (auto simp: server_ok_def entry_ok_def store_def list_all_iff)
  then show ?thesis using assms(1) by (simp add: server_ok_def store_def list_all_iff)
qed

section \<open>One object\<close>

lemma server_recv_ok:
  assumes "server_conn_ok reqs conv c"
  shows "\<exists>c' io'. conn_on_recv_udp env buf addr c io = Some (c', io') \<and> server_conn_ok reqs conv c'"
  using assms by (auto simp: server_conn_ok_def conn_on_recv_udp_def Let_def)

text \<open>\<open>status_after\<close>: what a run of the server's side does to the status when \<open>n\<close> messages came in.\<close>

definition status_after :: "nat \<Rightarrow> u32 \<Rightarrow> u32" where
  "status_after n st = (if st = CONV_SND_CONV \<and> 0 < n then CONV_ESTABLISHED else st)"

lemma server_run_spec:
  assumes "c_kcp c = Some kcp" "k = fst (ikcp_update kcp (ucast tick))" "ms = drain (recv_fuel k) k"
  shows "\<exists>c' io'. server_run env tick q c io = Some (0, q @ delivered (c_key c) (c_conv c) ms, c', io') \<and>
    c_kcp c' \<noteq> None \<and> c_key c' = c_key c \<and> c_conv c' = c_conv c \<and>
    c_status c' = status_after (length ms) (c_status c) \<and>
    cs_n c' = cs_n c \<and> cs_snd_conv c' = cs_snd_conv c"
proof -
  obtain c1 io1 where r: "conn_run (server_recv_kcp env) env tick q c io =
      Some (int (length ms), q @ delivered (c_key c) (c_conv c) ms, c1, io1)"
    "c_kcp c1 \<noteq> None" "c_key c1 = c_key c" "c_conv c1 = c_conv c" "c_status c1 = c_status c"
    "conn.more c1 = conn.more c"
    using server_recv.run_spec [OF assms, of env env q io] by auto
  note f = server_fields [OF r(6)]
  show ?thesis
    using r(2-5) f
    by (auto simp: server_run_def r(1) status_after_def snd_conn_run_def Let_def split_beta)
qed

lemma server_run_ok:
  assumes "server_conn_ok reqs conv c"
  shows "\<exists>q' c' io'. server_run env tick q c io = Some (0, q', c', io') \<and> server_conn_ok reqs conv c'"
proof -
  obtain kcp where k: "c_kcp c = Some kcp" using assms by (auto simp: server_conn_ok_def)
  from server_run_spec [OF k refl refl, of env tick q io] show ?thesis
    using assms by (auto simp: server_conn_ok_def status_after_def)
qed

section \<open>One round over the connections\<close>

lemma run_conns_entry:
  assumes "entry_ok net (k, a)"
  obtains rs net1 io1 where
    "run_conns env ((k, a) # it) remove_list net io = run_conns env it (remove_list @ rs) net1 io1"
    "net1 = net\<lparr>n_heap := n_heap net1, n_queue_msg := n_queue_msg net1\<rparr>"
    "\<forall>b. b \<noteq> a \<longrightarrow> n_heap net1 b = n_heap net b"
    "rs = [k] \<and> n_heap net1 a = None \<or> rs = [] \<and> entry_ok net1 (k, a)"
proof -
  obtain c where c: "n_heap net a = Some (Server_obj c)" "server_conn_ok (n_map_req_conn net) k c"
    using assms by (auto simp: entry_ok_def)
  let ?x = "fst (obj_expired env (Server_obj c) io)" and ?io = "snd (obj_expired env (Server_obj c) io)"
  show thesis
  proof (cases "?x = 0")
    case True
    then show thesis
      using c by (intro that [of "[k]" "delete a net" ?io])
        (simp_all add: delete_def server_conn_ok_def get_conv_def Let_def split_beta)
  next
    case False
    obtain q' c' io' where r: "server_run env (tick_at env (io_n ?io)) (n_queue_msg net) c (asked ?io) = Some (0, q', c', io')"
      "server_conn_ok (n_map_req_conn net) k c'"
      using server_run_ok [OF c(2)] by blast
    have "entry_ok (store a (Server_obj c') (net\<lparr>n_queue_msg := q'\<rparr>)) (k, a)"
      using r(2) assms by (simp add: entry_ok_def store_def)
    then show thesis
      using False c(1) r(1)
      by (intro that [of "[]" "store a (Server_obj c') (net\<lparr>n_queue_msg := q'\<rparr>)" io'])
        (simp_all add: store_def Let_def split_beta)
  qed
qed

lemma run_conns_ok:
  assumes "list_all (entry_ok net) it" "distinct (map snd it)" "distinct (map fst it)"
  shows "\<exists>rs net' io'. run_conns env it remove_list net io = Some (remove_list @ rs, net', io') \<and>
    set rs \<subseteq> set (map fst it) \<and>
    net' = net\<lparr>n_heap := n_heap net', n_queue_msg := n_queue_msg net'\<rparr> \<and>
    (\<forall>b. b \<notin> set (map snd it) \<longrightarrow> n_heap net' b = n_heap net b) \<and>
    (\<forall>e \<in> set it. if fst e \<in> set rs then n_heap net' (snd e) = None else entry_ok net' e)"
  using assms
proof (induction it arbitrary: remove_list net io)
  case Nil
  then show ?case by auto
next
  case (Cons e it)
  obtain k a where e: "e = (k, a)" by fastforce
  have "entry_ok net (k, a)" using Cons.prems(1) by (simp add: e)
  from run_conns_entry [OF this] obtain rs0 net1 io1 where
    s: "run_conns env (e # it) remove_list net io = run_conns env it (remove_list @ rs0) net1 io1"
    "net1 = net\<lparr>n_heap := n_heap net1, n_queue_msg := n_queue_msg net1\<rparr>"
    "\<forall>b. b \<noteq> a \<longrightarrow> n_heap net1 b = n_heap net b"
    "rs0 = [k] \<and> n_heap net1 a = None \<or> rs0 = [] \<and> entry_ok net1 (k, a)" unfolding e by blast
  have f: "n_next net1 = n_next net" "n_map_req_conn net1 = n_map_req_conn net"
    by (subst s(2), simp)+
  have "entry_ok net1 x" if "x \<in> set it" for x
  proof -
    have "snd x \<noteq> a" using Cons.prems(2) that by (auto simp: e)
    then have "n_heap net1 (snd x) = n_heap net (snd x)" using s(3) by blast
    moreover have "entry_ok net x" using Cons.prems(1) that by (simp add: list_all_iff)
    ultimately show ?thesis by (simp add: entry_ok_def f)
  qed
  then have "list_all (entry_ok net1) it" by (simp add: list_all_iff)
  from Cons.IH [OF this, of "remove_list @ rs0" io1] Cons.prems
  obtain rs net' io' where i: "run_conns env it (remove_list @ rs0) net1 io1 = Some ((remove_list @ rs0) @ rs, net', io')"
    "set rs \<subseteq> set (map fst it)" "net' = net1\<lparr>n_heap := n_heap net', n_queue_msg := n_queue_msg net'\<rparr>"
    "\<forall>b. b \<notin> set (map snd it) \<longrightarrow> n_heap net' b = n_heap net1 b"
    "\<forall>e \<in> set it. if fst e \<in> set rs then n_heap net' (snd e) = None else entry_ok net' e" by auto
  have g: "n_next net' = n_next net" "n_map_req_conn net' = n_map_req_conn net"
    by (subst i(3), simp add: f)+
  have a: "n_heap net' a = n_heap net1 a" using i(4) Cons.prems(2) by (simp add: e)
  have k: "k \<notin> set (map fst it)" using Cons.prems(3) by (simp add: e)
  have n: "net' = net\<lparr>n_heap := n_heap net', n_queue_msg := n_queue_msg net'\<rparr>"
    by (subst i(3), subst s(2)) simp
  have h: "entry_ok net' (k, a)" if "entry_ok net1 (k, a)"
    using that a by (simp add: entry_ok_def f g)
  have all: "if fst x \<in> set (rs0 @ rs) then n_heap net' (snd x) = None else entry_ok net' x" if "x \<in> set (e # it)" for x
  proof (cases "x = e")
    case True
    then show ?thesis using s(4) a h k i(2) by (auto simp: e)
  next
    case False
    then have "x \<in> set it" "fst x \<noteq> k" using that k by (auto simp: e)
    then show ?thesis using i(5) s(4) by auto
  qed
  show ?case
  proof (intro exI conjI)
    show "run_conns env (e # it) remove_list net io = Some (remove_list @ rs0 @ rs, net', io')"
      unfolding s(1) i(1) by simp
    show "set (rs0 @ rs) \<subseteq> set (map fst (e # it))" using s(4) i(2) by (auto simp: e)
    show "\<forall>b. b \<notin> set (map snd (e # it)) \<longrightarrow> n_heap net' b = n_heap net b"
      using i(4) s(3) by (simp add: e)
  qed (use n all in blast)+
qed

lemma erase_all_distinct: "distinct (map snd m) \<Longrightarrow> distinct (map snd (fold map_erase ks m))"
  by (induction ks arbitrary: m) (simp_all add: map_erase_def distinct_map_filter)

lemma network_run_conns_ok:
  assumes "server_ok net"
  shows "\<exists>rs net' io'. run_conns env (n_map_conn net) [] net io = Some (rs, net', io') \<and>
    server_ok (net'\<lparr>n_map_conn := fold map_erase rs (n_map_conn net')\<rparr>) \<and>
    n_map_conn net' = n_map_conn net \<and>
    (\<forall>e \<in> set (n_map_conn net). fst e \<in> set rs \<longrightarrow> n_heap net' (snd e) = None)"
proof -
  let ?m = "n_map_conn net"
  have w: "map_wf ?m" "distinct (map snd ?m)" "list_all (entry_ok net) ?m"
    using assms by (simp_all add: server_ok_def)
  obtain rs net' io' where r: "run_conns env ?m [] net io = Some (rs, net', io')"
    "net' = net\<lparr>n_heap := n_heap net', n_queue_msg := n_queue_msg net'\<rparr>"
    "\<forall>e \<in> set ?m. if fst e \<in> set rs then n_heap net' (snd e) = None else entry_ok net' e"
    using run_conns_ok [OF w(3,2) smap.distinct_keys [OF w(1)], of env "[]" io] by auto
  have f: "n_map_conn net' = ?m" "n_map_req_conn net' = n_map_req_conn net" "n_udp_cb net' = n_udp_cb net"
    "n_udp_data net' = n_udp_data net" "n_next net' = n_next net"
    by (subst r(2), simp)+
  let ?net = "net'\<lparr>n_map_conn := fold map_erase rs (n_map_conn net')\<rparr>"
  have e: "entry_ok ?net x = entry_ok net' x" for x by (simp add: entry_ok_def)
  have s: "set (fold map_erase rs ?m) = {(k, v) \<in> set ?m. k \<notin> set rs}"
    by (rule smap.entries_erase_all [OF w(1)])
  have "distinct (map snd (fold map_erase rs ?m))" by (rule erase_all_distinct [OF w(2)])
  moreover have "list_all (entry_ok ?net) (fold map_erase rs ?m)"
    using r(3) by (auto simp: list_all_iff s e)
  ultimately have "server_ok ?net"
    using assms smap.wf_erase_all [OF w(1), of rs] by (simp add: server_ok_def f)
  then show ?thesis using r f by auto
qed

section \<open>A request for a connection\<close>

lemma init_kcp_result:
  "init_kcp env conv c io = (r, c', io') \<Longrightarrow>
   r = 0 \<and> (\<exists>kcp. c' = c\<lparr>c_kcp := Some kcp, c_conv := conv\<rparr> \<and> k_conv kcp = conv) \<or> r = -1 \<and> c' = c\<lparr>c_kcp := None\<rparr>"
  by (auto simp: init_kcp_def ikcp_nodelay_def ikcp_create_def Let_def split_beta split: if_splits)

lemma prepare_snd_conv_result:
  assumes "prepare_snd_conv fuel env used addr n (server_new a) io = Some (r, c, io')"
  shows "r = -1 \<or> r = 0 \<and> \<not> used (c_conv c) \<and> cs_n c = n \<and> c_addr c = addr \<and>
    (\<forall>reqs. map_find reqs n = Some (c_conv c) \<longrightarrow> server_conn_ok reqs (c_conv c) c) \<and> c_status c = CONV_SND_CONV"
proof -
  obtain conv io1 where n: "new_conv fuel env used io = Some (conv, io1)"
    using assms by (cases "new_conv fuel env used io") (auto simp: prepare_snd_conv_def Let_def)
  have "\<not> used conv" by (rule new_conv_fresh [OF n])
  then show ?thesis
    using assms n
    by (auto simp: prepare_snd_conv_def Let_def new_key_def rand_uint32_def server_conn_ok_def
        dest!: init_kcp_result)
qed

lemma prepare_snd_conv_returns:
  assumes "fair_random env fuel n" "finite {c. used c}" "card {c. used c} \<le> n"
  shows "\<exists>r c io'. prepare_snd_conv fuel env used addr m (server_new a) io = Some (r, c, io')"
proof -
  obtain conv io1 where n: "new_conv fuel env used io = Some (conv, io1)"
    by (rule fair_new_conv [OF assms, of io])
  let ?c = "(server_new a)\<lparr>c_addr := addr, c_udp := True, cs_n := m, c_conv := conv, cs_next_snd_conv_tick := 0\<rparr>"
  let ?key = "fst (new_key env io1)"
  let ?d = "?c\<lparr>cs_snd_conv := \<lparr>sc_conv = CONV_SND_CONV, sc_n = m, sc_new_conv = conv, sc_key = ?key\<rparr>,
    c_key := ?key, c_status := CONV_SND_CONV\<rparr>"
  have "prepare_snd_conv fuel env used addr m (server_new a) io = Some (init_kcp env conv ?d (snd (new_key env io1)))"
    by (simp add: prepare_snd_conv_def n Let_def split_beta)
  then show ?thesis by (cases "init_kcp env conv ?d (snd (new_key env io1))") simp
qed

lemma used_convs:
  "finite {conv. get_conn_by_conv net conv \<noteq> None}"
  "card {conv. get_conn_by_conv net conv \<noteq> None} \<le> length (n_map_conn net)"
proof -
  have e: "{conv. get_conn_by_conv net conv \<noteq> None} = set (map fst (n_map_conn net))"
    by (auto simp: get_conn_by_conv_def map_find_def map_of_eq_None_iff)
  show "finite {conv. get_conn_by_conv net conv \<noteq> None}"
    "card {conv. get_conn_by_conv net conv \<noteq> None} \<le> length (n_map_conn net)"
    unfolding e using card_length [of "map fst (n_map_conn net)"] by simp_all
qed

lemma length_map_put: "length (map_put k v m) \<le> Suc (length m)"
  by (induction k v m rule: map_put.induct) auto

lemma server_ok_add:
  assumes ok: "server_ok net" and a: "a = n_next net" and conv: "get_conn_by_conv net conv = None"
    and n: "map_find (n_map_req_conn net) (cs_n c) = None"
    and c: "\<And>reqs. map_find reqs (cs_n c) = Some conv \<Longrightarrow> server_conn_ok reqs conv c"
  shows "server_ok (store a (Server_obj c) (net\<lparr>n_next := Suc a,
    n_map_req_conn := map_put (cs_n c) conv (n_map_req_conn net),
    n_map_conn := map_put conv a (n_map_conn net)\<rparr>))" (is "server_ok ?net")
proof -
  let ?m = "n_map_conn net" and ?r = "n_map_req_conn net"
  have w: "map_wf ?m" "map_wf ?r" "distinct (map snd ?m)" "\<And>e. e \<in> set ?m \<Longrightarrow> entry_ok net e"
    using ok by (simp_all add: server_ok_def list_all_iff)
  have fresh: "snd e < a" if "e \<in> set ?m" for e using w(4) [OF that] by (simp add: entry_ok_def a)
  have set_put: "set (map_put conv a ?m) = insert (conv, a) (set ?m)"
    using smap.entries_put [OF w(1), of conv a] conv smap.entries_find [OF w(1), of conv]
    by (fastforce simp: get_conn_by_conv_def)
  have find_put: "map_find (map_put (cs_n c) conv ?r) = (map_find ?r)(cs_n c \<mapsto> conv)"
    by (rule smap.find_put [OF w(2)])
  have "distinct (map snd (map_put conv a ?m))"
  proof -
    have "inj_on snd (set ?m)" "distinct ?m" using w(3) by (simp_all add: distinct_map)
    then have "inj_on snd (set (map_put conv a ?m))"
      unfolding set_put using fresh by (fastforce simp: inj_on_def)
    moreover have "distinct (map_put conv a ?m)"
      using smap.distinct_keys [OF smap.wf_put [OF w(1)], of conv a] by (simp add: distinct_map)
    ultimately show ?thesis by (simp add: distinct_map)
  qed
  moreover have "entry_ok ?net e" if e: "e \<in> set ?m" for e
  proof -
    obtain d where d: "n_heap net (snd e) = Some (Server_obj d)" "server_conn_ok ?r (fst e) d"
      using w(4) [OF e] by (auto simp: entry_ok_def)
    have "cs_n d \<noteq> cs_n c" using d(2) n by (auto simp: server_conn_ok_def)
    then have "server_conn_ok (map_put (cs_n c) conv ?r) (fst e) d"
      using d(2) by (simp add: server_conn_ok_def find_put)
    then show ?thesis using d(1) fresh [OF e] by (simp add: entry_ok_def store_def)
  qed
  moreover have "entry_ok ?net (conv, a)" using c by (simp add: entry_ok_def store_def find_put)
  ultimately show ?thesis
    using ok smap.wf_put [OF w(1)] smap.wf_put [OF w(2)]
    by (simp add: server_ok_def store_def list_all_iff set_put)
qed

lemma proc_req_conn_ok:
  assumes ok: "server_ok net" and fair: "fair_random env fuel (length (n_map_conn net))"
  shows "\<exists>r net' io'. proc_req_conn fuel env buf addr net io = Some (r, net', io') \<and> server_ok net' \<and>
    length (n_map_conn net') \<le> Suc (length (n_map_conn net))"
proof -
  let ?n = "rq_n (req_conn_cast buf)" and ?a = "n_next net"
  let ?net = "net\<lparr>n_next := Suc ?a\<rparr>"
  have ok': "server_ok ?net"
    using ok by (auto simp: server_ok_def list_all_iff entry_ok_def)
  consider "length buf \<noteq> 8 \<or> map_find (n_map_req_conn net) ?n \<noteq> None"
    | "length buf = 8" "map_find (n_map_req_conn net) ?n = None" by blast
  then show ?thesis
  proof cases
    case 1
    then show ?thesis using ok by (auto simp: proc_req_conn_def Let_def)
  next
    case 2
    let ?used = "\<lambda>conv. get_conn_by_conv ?net conv \<noteq> None"
    have u: "get_conn_by_conv ?net = get_conn_by_conv net" by (simp add: get_conn_by_conv_def fun_eq_iff)
    obtain r c io1 where p: "prepare_snd_conv fuel env ?used addr ?n (server_new ?a) io = Some (r, c, io1)"
      using prepare_snd_conv_returns [OF fair, of ?used] used_convs [of net] unfolding u by blast
    from prepare_snd_conv_result [OF p]
    consider "r = -1" | "r = 0" "get_conn_by_conv net (c_conv c) = None" "cs_n c = ?n"
      "\<And>reqs. map_find reqs ?n = Some (c_conv c) \<Longrightarrow> server_conn_ok reqs (c_conv c) c"
      unfolding u by blast
    then show ?thesis
    proof cases
      case 1
      then show ?thesis using ok' p 2 by (simp add: proc_req_conn_def Let_def)
    next
      case s: 2
      let ?c = "fst (alive env c io1)"
      have c: "cs_n ?c = ?n" "c_conv ?c = c_conv c"
        "\<And>reqs. map_find reqs ?n = Some (c_conv c) \<Longrightarrow> server_conn_ok reqs (c_conv c) ?c"
        using s(3,4) by (auto simp: alive_def Let_def server_conn_ok_def)
      have "server_ok (store ?a (Server_obj ?c) (net\<lparr>n_next := Suc ?a,
          n_map_req_conn := map_put ?n (c_conv c) (n_map_req_conn net),
          n_map_conn := map_put (c_conv c) ?a (n_map_conn net)\<rparr>))"
        using server_ok_add [OF ok refl s(2), of ?c] 2(2) c by simp
      then show ?thesis
        using p 2 s(1) length_map_put
        by (simp add: proc_req_conn_def Let_def get_conv_def split_beta) (simp add: store_def length_map_put)
    qed
  qed
qed

section \<open>Events\<close>

lemma network_on_recv_udp_ok:
  assumes ok: "server_ok net" and fair: "fair_random env fuel (length (n_map_conn net))"
  shows "\<exists>net' io'. network_on_recv_udp fuel env buf addr net io = Some (net', io') \<and> server_ok net' \<and>
    length (n_map_conn net') \<le> Suc (length (n_map_conn net))"
proof -
  obtain r oc where g: "ikcp_get_conv (Some buf) = (r, oc)" by fastforce
  show ?thesis
  proof (cases oc)
    case None
    then show ?thesis using ok g by (simp add: network_on_recv_udp_def)
  next
    case conv: (Some conv)
    show ?thesis
    proof (cases "conv = CONV_REQ_CONN")
      case True
      then show ?thesis
        using proc_req_conn_ok [OF ok fair, of buf addr io] g conv by (auto simp: network_on_recv_udp_def)
    next
      case False
      show ?thesis
      proof (cases "get_conn_by_conv net conv")
        case None
        then show ?thesis using ok g conv False by (simp add: network_on_recv_udp_def)
      next
        case (Some a)
        note f = server_ok_find [OF ok Some]
        obtain c where c: "n_heap net a = Some (Server_obj c)" "server_conn_ok (n_map_req_conn net) conv c"
          using f(2) by (auto simp: entry_ok_def)
        obtain c' io' where r: "conn_on_recv_udp env buf addr c io = Some (c', io')"
          "server_conn_ok (n_map_req_conn net) conv c'"
          using server_recv_ok [OF c(2)] by blast
        show ?thesis
          using server_ok_store [OF ok f(1) r(2)] g conv False Some c(1) r(1)
          by (simp add: network_on_recv_udp_def) (simp add: store_def)
      qed
    qed
  qed
qed

lemma uv_step_ok:
  assumes ok: "server_ok net" and fair: "fair_random env fuel (length (n_map_conn net))"
  shows "\<exists>net' io'. uv_step fuel env ev net io = Some (net', io') \<and> server_ok net' \<and>
    length (n_map_conn net') \<le> Suc (length (n_map_conn net))"
proof (cases ev)
  case (Ev_recv nread base addr)
  have "n_udp_cb net = None \<or> n_udp_cb net = Some Cb_server \<and> n_udp_data net = Data_network"
    using ok by (simp add: server_ok_def)
  then show ?thesis
    using ok network_on_recv_udp_ok [OF ok fair, of "take (nat nread) base" addr io]
    by (auto simp: Ev_recv on_recv_udp_server_def)
qed (use ok in simp)

lemma uv_run_ok:
  assumes "server_ok net" "fair_random env fuel (length (n_map_conn net) + length evs)"
  shows "\<exists>net' io'. uv_run fuel env evs net io = Some (net', io') \<and> server_ok net'"
  using assms
proof (induction evs arbitrary: net io)
  case (Cons ev evs)
  have f: "fair_random env fuel (length (n_map_conn net))" by (rule fair_random_mono [OF Cons.prems(2)]) simp
  obtain net1 io1 where s: "uv_step fuel env ev net io = Some (net1, io1)" "server_ok net1"
    "length (n_map_conn net1) \<le> Suc (length (n_map_conn net))"
    using uv_step_ok [OF Cons.prems(1) f] by blast
  have "fair_random env fuel (length (n_map_conn net1) + length evs)"
    using s(3) by (intro fair_random_mono [OF Cons.prems(2)]) simp
  from Cons.IH [OF s(2) this] show ?case using s(1) by simp
qed simp

lemma network_run_ok:
  assumes "server_ok net" "fair_random env fuel (length (n_map_conn net) + length evs)"
  shows "\<exists>net' io'. network_run fuel env evs net io = Some (net', io') \<and> server_ok net'"
proof -
  obtain net1 io1 where u: "uv_run fuel env evs net io = Some (net1, io1)" "server_ok net1"
    using uv_run_ok [OF assms] by blast
  from network_run_conns_ok [OF u(2), of env io1] show ?thesis
    using u(1) by (auto simp: network_run_def)
qed

end
