(* ===== verification/Sample_Run.thy ===== *)
theory Sample_Run
  imports Endpoint
begin

text \<open>
  A concrete run of two endpoints: one sends three bytes, flushes them, the other takes the datagram,
  returns the message, flushes its acknowledgement, and the first takes that. Its states are the inputs
  at which the properties of the root theory are exercised.
\<close>

section \<open>Control blocks\<close>

definition demo_seg :: iseg where
  "demo_seg = \<lparr>s_conv = 0, s_cmd = 0, s_frg = 0, s_wnd = 0, s_ts = 0, s_sn = 0, s_una = 0, s_len = 0,
     s_resendts = 0, s_rto = 0, s_fastack = 0, s_xmit = 0, s_data = []\<rparr>"

definition demo_alloc :: "nat \<Rightarrow> iseg option" where
  "demo_alloc i = Some demo_seg"

definition demo_mem :: "nat \<Rightarrow> fresh_mem" where
  "demo_mem n = \<lparr>fresh_cell = (\<lambda>_. 0), fresh_seg = demo_seg\<rparr>"

definition demo_new :: ikcpcb where
  "demo_new = the (ikcp_create True True 7 0)"

definition demo_fast :: ikcpcb where
  "demo_fast = snd (ikcp_nodelay demo_new 1 10 2 1)"

definition demo_queued :: ikcpcb where
  "demo_queued = snd (ikcp_send demo_alloc demo_fast (Some [65, 66, 67]) 3)"

definition demo_flushed :: "ikcpcb \<times> u8 list list" where
  "demo_flushed = ikcp_update demo_queued 1000"

definition demo_dgram :: "u8 list" where
  "demo_dgram = hd (snd demo_flushed)"

definition demo_peer :: ikcpcb where
  "demo_peer = snd (ikcp_input demo_mem demo_new (Some demo_dgram))"

definition demo_read :: "int \<times> u8 list \<times> ikcpcb" where
  "demo_read = ikcp_recv demo_peer True 10"

definition demo_reply :: "ikcpcb \<times> u8 list list" where
  "demo_reply = ikcp_update (snd (snd demo_read)) 1005"

definition demo_ack :: "u8 list" where
  "demo_ack = hd (snd demo_reply)"

definition demo_acked :: ikcpcb where
  "demo_acked = snd (ikcp_input demo_mem (fst demo_flushed) (Some demo_ack))"

lemma demo_new_fields:
  "k_conv demo_new = 7" "k_mss demo_new = 1376" "k_snd_una demo_new = 0" "k_snd_nxt demo_new = 0" "k_rcv_nxt demo_new = 0"
  "k_rx_minrto demo_new = 100" "k_snd_wnd demo_new = 32" "k_rcv_wnd demo_new = 32" "k_interval demo_new = 100"
  "k_updated demo_new = 0" "k_nrcv_buf demo_new = 0" "k_nrcv_que demo_new = 0" "k_nsnd_que demo_new = 0" "k_ackcount demo_new = 0"
  "k_snd_buf demo_new = []" "k_rcv_buf demo_new = []" "k_snd_queue demo_new = []" "k_rcv_queue demo_new = []"
  "k_acklist demo_new = None" "k_buffer demo_new \<noteq> None"
  by (simp_all add: demo_new_def ikcp_create_def ikcp_consts)

text \<open>The whole exchange, evaluated once; each \<^theory_text>\<open>case\<close> is one call.\<close>

lemma demo_trace:
  "case demo_flushed of (kf, out) \<Rightarrow>
   case ikcp_input demo_mem demo_new (Some (hd out)) of (_, kp) \<Rightarrow>
   case ikcp_recv kp True 10 of (n, bytes, kr) \<Rightarrow>
   case ikcp_update kr 1005 of (kb, out') \<Rightarrow>
   case ikcp_input demo_mem kf (Some (hd out')) of (_, ka) \<Rightarrow>
     length out = 1 \<and> length (hd out) = 27 \<and> unat (k_ackcount kf) = 0 \<and>
     map s_sn (k_snd_buf kf) = [0] \<and> k_snd_una kf = 0 \<and> k_snd_nxt kf = 1 \<and>
     concat (map seg_bytes (k_rcv_queue kp)) = [65, 66, 67] \<and> ikcp_peeksize kp = 3 \<and>
     concat (map seg_bytes (first_msg (k_rcv_queue kp))) = [65, 66, 67] \<and>
     n = 3 \<and> bytes = [65, 66, 67] \<and> length out' = 1 \<and> length (hd out') = 24 \<and>
     ikcp_waitsnd ka = 0 \<and> k_snd_nxt ka = 1"
  by code_simp

lemmas demo_facts = demo_trace [unfolded split_beta demo_dgram_def [symmetric] demo_peer_def [symmetric]
  demo_read_def [symmetric] demo_reply_def [symmetric] demo_ack_def [symmetric] demo_acked_def [symmetric]]

lemma demo_steps:
  "length (snd demo_flushed) = 1" "length demo_dgram = 27" "unat (k_ackcount (fst demo_flushed)) = 0"
  "fst demo_read = 3" "fst (snd demo_read) = [65, 66, 67]" "length (snd demo_reply) = 1" "length demo_ack = 24"
  "ikcp_peeksize demo_peer = 3" "concat (map seg_bytes (first_msg (k_rcv_queue demo_peer))) = [65, 66, 67]"
  "ikcp_waitsnd demo_acked = 0" "k_snd_nxt demo_acked = 1"
  using demo_facts by blast+

lemmas demo_flushed_one = demo_steps(1)
lemmas demo_dgram_length = demo_steps(2)
lemmas demo_flushed_acks = demo_steps(3)
lemmas demo_read_code = demo_steps(4)
lemmas demo_read_bytes = demo_steps(5)
lemmas demo_reply_one = demo_steps(6)
lemmas demo_ack_length = demo_steps(7)

lemma demo_queued_trace:
  "case ikcp_send demo_alloc demo_fast (Some [65, 66, 67]) 3 of (r, kcp) \<Rightarrow>
     r = 0 \<and> map payload (k_snd_queue kcp) = [(0, [65, 66, 67])] \<and> k_ackcount kcp = 0 \<and> k_snd_buf kcp = [] \<and>
     moved (flush_window kcp) kcp = 1 \<and> k_snd_wnd kcp = 32 \<and> k_rcv_wnd kcp = 32 \<and> k_rcv_buf kcp = []"
  by code_simp

lemma demo_send_code: "fst (ikcp_send demo_alloc demo_fast (Some [65, 66, 67]) 3) = 0"
  and demo_queue: "map payload (k_snd_queue demo_queued) = [(0, [65, 66, 67])]"
  and demo_queued_fields: "k_ackcount demo_queued = 0" "k_snd_buf demo_queued = []"
    "moved (flush_window demo_queued) demo_queued = 1" "k_snd_wnd demo_queued = 32" "k_rcv_wnd demo_queued = 32" "k_rcv_buf demo_queued = []"
  using demo_queued_trace by (simp_all add: split_beta demo_queued_def)

lemma demo_new_acks: "unat (k_ackcount demo_new) = 0"
  by (simp add: demo_new_fields)

lemma demo_queue_empty: "length (k_snd_queue demo_fast) = 0"
  by code_simp

section \<open>Endpoints\<close>

definition demo_a :: "ikcpcb \<Rightarrow> u8 list list \<Rightarrow> stream \<Rightarrow> endpoint" where
  "demo_a kcp sent hist = \<lparr>e_kcp = kcp, e_sent = sent, e_hist = hist, e_got = []\<rparr>"

definition demo_b :: "ikcpcb \<Rightarrow> u8 list list \<Rightarrow> endpoint" where
  "demo_b kcp got = \<lparr>e_kcp = kcp, e_sent = [], e_hist = [], e_got = got\<rparr>"

abbreviation demo_stream :: stream where
  "demo_stream \<equiv> [(0, [65, 66, 67])]"

abbreviation demo_msgs :: "u8 list list" where
  "demo_msgs \<equiv> [[65, 66, 67]]"

definition demo_sys :: "endpoint \<Rightarrow> endpoint \<Rightarrow> u8 list set \<Rightarrow> u8 list set \<Rightarrow> sys" where
  "demo_sys a b ab ba = \<lparr>y_a = a, y_b = b, y_ab = ab, y_ba = ba\<rparr>"

definition demo_start :: sys where
  "demo_start = demo_sys (demo_a demo_new [] []) (demo_b demo_new []) {} {}"

definition demo_sys_queued :: sys where
  "demo_sys_queued = demo_sys (demo_a demo_queued demo_msgs demo_stream) (demo_b demo_new []) {} {}"

definition demo_sys_flushed :: sys where
  "demo_sys_flushed = demo_sys (demo_a (fst demo_flushed) demo_msgs demo_stream) (demo_b demo_new [])
     {demo_dgram} {}"

definition demo_sys_input :: sys where
  "demo_sys_input = demo_sys (demo_a (fst demo_flushed) demo_msgs demo_stream) (demo_b demo_peer [])
     {demo_dgram} {}"

definition demo_sys_read :: sys where
  "demo_sys_read = demo_sys (demo_a (fst demo_flushed) demo_msgs demo_stream)
     (demo_b (snd (snd demo_read)) demo_msgs) {demo_dgram} {}"

definition demo_sys_reply :: sys where
  "demo_sys_reply = demo_sys (demo_a (fst demo_flushed) demo_msgs demo_stream)
     (demo_b (fst demo_reply) demo_msgs) {demo_dgram} {demo_ack}"

definition demo_end :: sys where
  "demo_end = demo_sys (demo_a demo_acked demo_msgs demo_stream)
     (demo_b (fst demo_reply) demo_msgs) {demo_dgram} {demo_ack}"

section \<open>The run\<close>

lemma single_list: "length xs = 1 \<Longrightarrow> set xs = {hd xs}"
  by (cases xs) auto

lemma demo_init: "sys_init 7 demo_start"
proof -
  have "ep_new 7 0 (demo_a demo_new [] [])" "ep_new 7 0 (demo_b demo_new [])"
    by (auto simp: ep_new_def demo_a_def demo_b_def demo_new_def ikcp_create_def)
  then show ?thesis by (auto simp: sys_init_def demo_start_def demo_sys_def)
qed

lemma demo_step_fast: "sys_step demo_start (demo_sys (demo_a demo_fast [] []) (demo_b demo_new []) {} {})"
proof -
  have "ikcp_nodelay (e_kcp (demo_a demo_new [] [])) 1 10 2 1 = (0, demo_fast)"
    by (simp add: demo_a_def demo_fast_def ikcp_nodelay_def Let_def)
  from step_a [of demo_start, OF ep_nodelay, of 1 10 2 1 0 demo_fast] this show ?thesis
    by (simp add: demo_start_def demo_sys_def demo_a_def)
qed

lemma demo_step_send:
  "sys_step (demo_sys (demo_a demo_fast [] []) (demo_b demo_new []) {} {}) demo_sys_queued"
proof -
  let ?s = "demo_sys (demo_a demo_fast [] []) (demo_b demo_new []) {} {}"
  have "ikcp_send demo_alloc demo_fast (Some [65, 66, 67]) 3 = (0, demo_queued)"
    by (simp add: demo_queued_def demo_send_code prod_eq_iff)
  then have "ep_step (y_ba ?s) (y_a ?s) {} ((y_a ?s)\<lparr>e_kcp := demo_queued, e_hist := demo_stream,
      e_sent := (if (0::int) = 0 then e_sent (y_a ?s) @ [[65, 66, 67]] else e_sent (y_a ?s))\<rparr>)"
    by (intro ep_send [where alloc = demo_alloc])
      (simp_all add: demo_alloc_def demo_sys_def demo_a_def demo_queue_empty [simplified] demo_queue)
  from step_a [OF this] show ?thesis
    by (simp add: demo_sys_queued_def demo_sys_def demo_a_def)
qed

lemma demo_step_update: "sys_step demo_sys_queued demo_sys_flushed"
proof -
  let ?s = demo_sys_queued
  have "ikcp_update (e_kcp (y_a ?s)) 1000 = (fst demo_flushed, snd demo_flushed)"
    by (simp add: demo_sys_queued_def demo_sys_def demo_a_def demo_flushed_def)
  from step_a [OF ep_update [OF this]] show ?thesis
    by (simp add: demo_sys_queued_def demo_sys_flushed_def demo_sys_def demo_a_def demo_dgram_def
        single_list [OF demo_flushed_one])
qed

lemma demo_step_input: "sys_step demo_sys_flushed demo_sys_input"
proof -
  let ?s = demo_sys_flushed
  have "ikcp_input demo_mem (e_kcp (y_b ?s)) (Some demo_dgram) =
      (fst (ikcp_input demo_mem demo_new (Some demo_dgram)), demo_peer)"
    by (simp add: demo_sys_flushed_def demo_sys_def demo_b_def demo_peer_def)
  from step_b [OF ep_input [OF _ _ this]] show ?thesis
    by (simp add: demo_sys_flushed_def demo_sys_input_def demo_sys_def demo_b_def demo_dgram_length
        demo_new_acks [simplified])
qed

lemma demo_step_read: "sys_step demo_sys_input demo_sys_read"
proof -
  let ?s = demo_sys_input
  have "ikcp_recv (e_kcp (y_b ?s)) True 10 = (3, [65, 66, 67], snd (snd demo_read))"
    using demo_read_code demo_read_bytes
    by (simp add: demo_sys_input_def demo_sys_def demo_b_def demo_read_def prod_eq_iff)
  from step_b [OF ep_recv [OF _ this]] show ?thesis
    by (simp add: demo_sys_input_def demo_sys_read_def demo_sys_def demo_b_def)
qed

lemma demo_step_reply: "sys_step demo_sys_read demo_sys_reply"
proof -
  let ?s = demo_sys_read
  have "ikcp_update (e_kcp (y_b ?s)) 1005 = (fst demo_reply, snd demo_reply)"
    by (simp add: demo_sys_read_def demo_sys_def demo_b_def demo_reply_def)
  from step_b [OF ep_update [OF this]] show ?thesis
    by (simp add: demo_sys_read_def demo_sys_reply_def demo_sys_def demo_b_def demo_ack_def
        single_list [OF demo_reply_one])
qed

lemma demo_step_acked: "sys_step demo_sys_reply demo_end"
proof -
  let ?s = demo_sys_reply
  have "ikcp_input demo_mem (e_kcp (y_a ?s)) (Some demo_ack) =
      (fst (ikcp_input demo_mem (fst demo_flushed) (Some demo_ack)), demo_acked)"
    by (simp add: demo_sys_reply_def demo_sys_def demo_a_def demo_acked_def)
  from step_a [OF ep_input [OF _ _ this]] show ?thesis
    by (simp add: demo_sys_reply_def demo_end_def demo_sys_def demo_a_def demo_ack_length
        demo_flushed_acks [simplified])
qed

lemma demo_run: "sys_step\<^sup>*\<^sup>* demo_start demo_end"
  using demo_step_fast demo_step_send demo_step_update demo_step_input demo_step_read demo_step_reply
    demo_step_acked
  by (meson converse_rtranclp_into_rtranclp rtranclp.rtrancl_refl)

section \<open>The invariants along the run\<close>

lemma demo_inv:
  "sys_inv 7 demo_start" "sys_inv 7 (demo_sys (demo_a demo_fast [] []) (demo_b demo_new []) {} {})"
  "sys_inv 7 demo_sys_queued" "sys_inv 7 demo_sys_flushed" "sys_inv 7 demo_sys_input"
  "sys_inv 7 demo_sys_read" "sys_inv 7 demo_sys_reply" "sys_inv 7 demo_end"
proof -
  note i = sys_init_inv [OF demo_init]
  note i1 = sys_step_inv [OF i demo_step_fast]
  note i2 = sys_step_inv [OF i1 demo_step_send]
  note i3 = sys_step_inv [OF i2 demo_step_update]
  note i4 = sys_step_inv [OF i3 demo_step_input]
  note i5 = sys_step_inv [OF i4 demo_step_read]
  note i6 = sys_step_inv [OF i5 demo_step_reply]
  note i7 = sys_step_inv [OF i6 demo_step_acked]
  show "sys_inv 7 demo_start" "sys_inv 7 (demo_sys (demo_a demo_fast [] []) (demo_b demo_new []) {} {})"
    "sys_inv 7 demo_sys_queued" "sys_inv 7 demo_sys_flushed" "sys_inv 7 demo_sys_input"
    "sys_inv 7 demo_sys_read" "sys_inv 7 demo_sys_reply" "sys_inv 7 demo_end"
    by (rule i i1 i2 i3 i4 i5 i6 i7)+
qed

lemma demo_ok:
  "kcp_ok demo_new" "mtu_ok 1400 demo_new" "kcp_ok demo_fast" "mtu_ok 1400 demo_fast"
  "kcp_ok demo_queued" "mtu_ok 1400 demo_queued"
  "kcp_ok (fst demo_flushed)" "mtu_ok 1400 (fst demo_flushed)" "kcp_ok demo_peer" "mtu_ok 1400 demo_peer"
  "kcp_ok (snd (snd demo_read))" "kcp_ok (fst demo_reply)" "kcp_ok demo_acked"
  using demo_inv
  by (simp_all add: sys_inv_def ep_own_def demo_start_def demo_sys_queued_def demo_sys_flushed_def
      demo_sys_input_def demo_sys_read_def demo_sys_reply_def demo_end_def demo_sys_def demo_a_def demo_b_def)

section \<open>Further states\<close>

lemma demo_queue_bytes: "concat (map seg_bytes (k_rcv_queue demo_peer)) = [65, 66, 67]"
  using demo_facts by blast

lemma demo_flight: "map s_sn (k_snd_buf (fst demo_flushed)) = [0]" "k_snd_una (fst demo_flushed) = 0"
  "k_snd_nxt (fst demo_flushed) = 1"
  using demo_facts by blast+

lemma demo_ready: "kcp_ok (demo_queued\<lparr>k_updated := 1\<rparr>)" "mtu_ok 1400 (demo_queued\<lparr>k_updated := 1\<rparr>)"
  using clock_fields(1) [where k = demo_queued and t = "k_current demo_queued" and x = 1 and y = "k_ts_flush demo_queued"]
    clock_fields(2) [where k = demo_queued and t = "k_current demo_queued" and x = 1 and y = "k_ts_flush demo_queued"]
    demo_ok(5,6)
  by simp_all

text \<open>A message of 250 bytes queued under an MTU of 300, and the MTU then set to 50.\<close>

definition demo_shrunk :: ikcpcb where
  "demo_shrunk = snd (ikcp_setmtu True (snd (ikcp_send demo_alloc (snd (ikcp_setmtu True demo_fast 300))
     (Some (replicate 250 7)) 250)) 50)"

end
