(* ===== verification/Sample_Net.thy ===== *)
theory Sample_Net
  imports Network_Inv Sample_Run
begin

text \<open>
  A concrete environment and a concrete server and client: the server listens, takes a request and answers it, and
  the client takes the answer. Its states are the inputs at which the properties of the C++ layer are exercised.
\<close>

definition demo_env :: env where
  "demo_env =
     \<lparr>ev_random = (\<lambda>i. 1000 + int i), ev_timeofday = (\<lambda>i. (word_of_nat (1000 + i), 0)), ev_uv = (\<lambda>_. 0),
      ev_create = (\<lambda>_. (True, True)), ev_alloc = (\<lambda>_. demo_alloc), ev_mem = (\<lambda>_. demo_mem)\<rparr>"

definition demo_io :: io where
  "demo_io = \<lparr>io_n = 0, io_out = [], io_reqs = []\<rparr>"

definition demo_listen :: "int \<times> network \<times> io" where
  "demo_listen = udp_listen demo_env network_new demo_io"

definition demo_net :: network where
  "demo_net = fst (snd demo_listen)"

definition demo_net_io :: io where
  "demo_net_io = snd (snd demo_listen)"

definition demo_request :: "u8 list" where
  "demo_request = req_conn_bytes \<lparr>rq_conv = CONV_REQ_CONN, rq_n = 77\<rparr>"

definition demo_server :: conn_server where
  "demo_server = (server_new 0)\<lparr>c_addr := [9], c_udp := True, c_conv := 5000, c_key := 6000, cs_n := 77,
     c_status := CONV_SND_CONV, c_kcp := Some demo_new,
     cs_snd_conv := \<lparr>sc_conv = CONV_SND_CONV, sc_n = 77, sc_new_conv = 5000, sc_key = 6000\<rparr>\<rparr>"

definition demo_client :: conn_client where
  "demo_client = (client_new 1)\<lparr>c_addr := [8], c_udp := True, c_status := CONV_REQ_CONN,
     cc_req_conn_times := 10, cc_req_conn := \<lparr>rq_conv = CONV_REQ_CONN, rq_n = 77\<rparr>\<rparr>"

lemma demo_env_sel [simp]:
  "ev_random demo_env i = 1000 + int i" "ev_timeofday demo_env i = (word_of_nat (1000 + i), 0)"
  "ev_uv demo_env i = 0" "ev_create demo_env i = (True, True)" "ev_alloc demo_env i = demo_alloc"
  by (simp_all add: demo_env_def)

lemma demo_net_eq: "demo_net = network_new\<lparr>n_udp_data := Data_network, n_udp_cb := Some Cb_server\<rparr>"
  by (simp add: demo_net_def demo_listen_def udp_listen_def uv_call_def Let_def network_new_def)

lemma demo_net_ok: "server_ok demo_net"
  by (simp add: demo_net_eq server_ok_def network_new_def)

lemma demo_server_ok: "server_conn_ok [(77, 5000)] 5000 demo_server"
  by (simp add: server_conn_ok_def demo_server_def server_new_def map_find_def conv_consts)

text \<open>The generator counts up, so its draws are all different.\<close>

lemma demo_fair: "n < fuel \<Longrightarrow> fuel < 1000 \<Longrightarrow> fair_random demo_env fuel n"
proof -
  assume n: "n < fuel" "fuel < 1000"
  have "card ((\<lambda>j. draw demo_env (i + j)) ` {..<fuel}) = fuel" for i
  proof -
    have d: "draw demo_env (i + j) = word_of_nat (1000 + i) + word_of_nat j" for j
      by (simp add: draw_def)
    have "inj_on (\<lambda>j. draw demo_env (i + j)) {..<fuel}"
    proof (rule inj_onI)
      fix x y
      assume xy: "x \<in> {..<fuel}" "y \<in> {..<fuel}" "draw demo_env (i + x) = draw demo_env (i + y)"
      then have "(word_of_nat x :: u32) = word_of_nat y" unfolding d by simp
      then have "unat (word_of_nat x :: u32) = unat (word_of_nat y :: u32)" by simp
      then show "x = y" using xy(1,2) n(2) by (simp add: word_of_nat_eq_32)
    qed
    then show ?thesis by (simp add: card_image)
  qed
  then show ?thesis using n(1) by (simp add: fair_random_def)
qed

text \<open>The receiver of the sample run a little later: the message of three bytes, too short for a key, is still there.\<close>

definition demo_late :: ikcpcb where
  "demo_late = fst (ikcp_update demo_peer 1234)"

lemma demo_late_trace:
  "case ikcp_update demo_peer 1234 of (kcp, out) \<Rightarrow> recv_fuel kcp = 2 \<and> map fst (drain 2 kcp) = [3]"
  by code_simp

lemma demo_late_fuel: "recv_fuel demo_late = 2"
  and demo_late_messages: "map fst (drain 2 demo_late) = [3]"
  using demo_late_trace by (simp_all add: split_beta demo_late_def)

lemma demo_late_message: "\<exists>m. drain (recv_fuel demo_late) demo_late = [m] \<and> delivered k v [m] = []"
  using demo_late_messages
  by (cases "drain 2 demo_late") (auto simp: demo_late_fuel delivered_def authentic_def)

end
