(* ===== verification/Echo_Server.thy ===== *)
theory Echo_Server
  imports Network_Inv
begin

text \<open>
  The test program \<^verbatim>\<open>test/test_echo_server.cpp\<close>: an application of the public interface that answers every message with
  its text and \<open> - reply\<close>. Its buffer of 1024 bytes is a list; what C leaves undefined (a write past the buffer, a handle that is
  null) is \<open>None\<close>. The messages are handled as C strings: \<open>c_string\<close> is what they are up to the first zero byte.
\<close>

section \<open>C strings\<close>

definition c_string :: "u8 list \<Rightarrow> u8 list" where
  "c_string b = takeWhile (\<lambda>x. x \<noteq> 0) b"

text \<open>\<^verbatim>\<open>strncpy(buf, src, n)\<close> fills up with zeros; \<^verbatim>\<open>strcpy(buf + off, s)\<close> writes \<open>s\<close> and a zero.\<close>

definition strncpy :: "u8 list \<Rightarrow> u8 list \<Rightarrow> nat \<Rightarrow> u8 list option" where
  "strncpy buf src n =
     (if n \<le> length buf then
        let s = c_string (take n src) in Some (s @ replicate (n - length s) 0 @ drop n buf)
      else None)"

definition strcpy_at :: "u8 list \<Rightarrow> nat \<Rightarrow> u8 list \<Rightarrow> u8 list option" where
  "strcpy_at buf off s =
     (if off + length s + 1 \<le> length buf then
        Some (take off buf @ s @ [0] @ drop (off + length s + 1) buf)
      else None)"

section \<open>The program\<close>

definition reply_text :: "u8 list" where
  "reply_text = [32, 45, 32, 114, 101, 112, 108, 121]"

text \<open>The body of the receive loop, without the \<^verbatim>\<open>printf\<close>: the bytes of the answer.\<close>

definition echo_reply :: "kcpuv_msg \<Rightarrow> u8 list option" where
  "echo_reply msg =
     do { data \<leftarrow> m_data msg;
          buf \<leftarrow> strncpy (replicate 1024 0) data (unat (m_size msg));
          buf \<leftarrow> strcpy_at buf (unat (m_size msg)) reply_text;
          Some (c_string buf) }"

partial_function (option) echo_loop :: "env \<Rightarrow> network \<Rightarrow> io \<Rightarrow> (network \<times> io) option" where
  "echo_loop env net io =
     (case kcpuv_recv net of (r, msg, net) \<Rightarrow>
        if r < 0 then Some (net, io)
        else do { msg \<leftarrow> msg;
                  reply \<leftarrow> echo_reply msg;
                  (r, net, io) \<leftarrow> kcpuv_send env (m_conv msg) reply net io;
                  let msg = kcpuv_msg_free msg;
                  echo_loop env net io })"

definition echo_round :: "nat \<Rightarrow> env \<Rightarrow> uv_event list \<Rightarrow> network \<Rightarrow> io \<Rightarrow> (network \<times> io) option" where
  "echo_round fuel env evs net io =
     do { (net, io) \<leftarrow> kcpuv_run fuel env evs net io; echo_loop env net io }"

text \<open>
  The outer loop runs until the clock is 15000000 ms past the start \<open>t\<close>; \<open>rounds\<close> are the events of its successive rounds, and
  \<open>None\<close> if they are not enough to end it.
\<close>

fun echo_rounds :: "nat \<Rightarrow> env \<Rightarrow> u64 \<Rightarrow> uv_event list list \<Rightarrow> network \<Rightarrow> io \<Rightarrow> (network \<times> io) option" where
  "echo_rounds fuel env t [] net io =
     (let (now, io) = get_tick_ms env io
      in if now - t < 15000000 then None else Some (net, io))"
| "echo_rounds fuel env t (evs # rounds) net io =
     (let (now, io) = get_tick_ms env io
      in if now - t < 15000000 then
           do { (net, io) \<leftarrow> echo_round fuel env evs net io; echo_rounds fuel env t rounds net io }
         else Some (net, io))"

definition echo_main :: "nat \<Rightarrow> env \<Rightarrow> uv_event list list \<Rightarrow> uv_event list \<Rightarrow> io \<Rightarrow> (mem_block list \<times> io) option" where
  "echo_main fuel env rounds evs io =
     (case kcpuv_create env io of
        (None, io) \<Rightarrow> None
      | (Some net, io) \<Rightarrow>
          let (r, net, io) = kcpuv_listen env net io;
              (t, io) = get_tick_ms env io
          in do { (net, io) \<leftarrow> echo_rounds fuel env t rounds net io;
                  kcpuv_destroy fuel env evs net io })"

section \<open>The answer\<close>

lemma c_string_zero: "0 \<notin> set b \<Longrightarrow> c_string (b @ 0 # r) = b"
  by (induction b) (auto simp: c_string_def)

lemma c_string_id: "0 \<notin> set b \<Longrightarrow> c_string b = b"
  by (induction b) (auto simp: c_string_def)

lemma length_strncpy:
  assumes "strncpy buf src n = Some b"
  shows "length b = length buf"
proof -
  have "length (c_string (take n src)) \<le> n"
    unfolding c_string_def using length_takeWhile_le [of _ "take n src"] by (rule order_trans) simp
  then show ?thesis using assms by (auto simp: strncpy_def Let_def split: if_splits)
qed

text \<open>A message of up to 1015 bytes is answered, a longer one is written past the end of the buffer.\<close>

lemma echo_reply_defined:
  assumes "m_data m = Some d" "unat (m_size m) = length d"
  shows "echo_reply m \<noteq> None \<longleftrightarrow> length d \<le> 1015"
proof (cases "length d \<le> 1024")
  case False
  then show ?thesis using assms by (simp add: echo_reply_def strncpy_def)
next
  case True
  obtain b where b: "strncpy (replicate 1024 0) d (length d) = Some b"
    using True by (simp add: strncpy_def Let_def)
  have "length b = 1024" using length_strncpy [OF b] by simp
  then show ?thesis using assms b by (simp add: echo_reply_def strcpy_at_def reply_text_def)
qed

lemma echo_reply_text:
  assumes "m_data m = Some d" "unat (m_size m) = length d" "length d \<le> 1015" "0 \<notin> set d"
  shows "echo_reply m = Some (d @ reply_text)"
proof -
  have s: "strncpy (replicate 1024 0) d (length d) = Some (d @ replicate (1024 - length d) 0)"
    using assms(3) by (simp add: strncpy_def c_string_id [OF assms(4)])
  have "strcpy_at (d @ replicate (1024 - length d) 0) (length d) reply_text =
      Some ((d @ reply_text) @ 0 # drop (length d + 9) (d @ replicate (1024 - length d) 0))"
    using assms(3) by (simp add: strcpy_at_def reply_text_def)
  moreover have "0 \<notin> set (d @ reply_text)" using assms(4) by (simp add: reply_text_def)
  ultimately show ?thesis
    using assms(1,2) s c_string_zero by (simp add: echo_reply_def del: append_assoc)
qed

text \<open>A zero byte ends the answer: neither the rest of the message nor the reply text is sent.\<close>

lemma echo_reply_cut:
  assumes "m_data m = Some (p @ 0 # q)" "unat (m_size m) = length (p @ 0 # q)" "length (p @ 0 # q) \<le> 1015" "0 \<notin> set p"
  shows "echo_reply m = Some p"
proof -
  let ?d = "p @ 0 # q" and ?n = "Suc (length p + length q)"
  have s: "strncpy (replicate 1024 0) ?d ?n = Some (p @ replicate (?n - length p) 0 @ replicate (1024 - ?n) 0)"
    using assms(3) c_string_zero [OF assms(4)] by (simp add: strncpy_def)
  then have s': "strncpy (replicate 1024 0) ?d ?n = Some (p @ 0 # replicate (length q) 0 @ replicate (1024 - ?n) 0)"
    by simp
  have "strcpy_at (p @ 0 # v) ?n reply_text = Some (p @ 0 # take (length q) v @ reply_text @ 0 # drop (10 + length q) (0 # v))"
    if "length v = 1023 - length p" for v
    using assms(3) that by (simp add: strcpy_at_def reply_text_def)
  from this [of "replicate (length q) 0 @ replicate (1024 - ?n) 0"]
  obtain r where "strcpy_at (p @ 0 # replicate (length q) 0 @ replicate (1024 - ?n) 0) ?n reply_text = Some (p @ 0 # r)"
    using assms(3) by simp
  then show ?thesis using assms(1,2) s' c_string_zero [OF assms(4)] by (simp add: echo_reply_def)
qed

section \<open>The loops\<close>

lemma send_kcp_ok:
  assumes "server_conn_ok reqs conv c"
  shows "\<exists>r c' io'. send_kcp env b c io = Some (r, c', io') \<and> server_conn_ok reqs conv c'"
proof -
  obtain kcp where k: "c_kcp c = Some kcp" using assms by (auto simp: server_conn_ok_def)
  show ?thesis
    using assms by (auto simp: send_kcp_def send_kcp_raw_eq [OF k] Let_def server_conn_ok_def)
qed

lemma kcpuv_send_ok:
  assumes "server_ok net"
  shows "\<exists>r net' io'. kcpuv_send env conv data net io = Some (r, net', io') \<and> server_ok net' \<and>
    n_queue_msg net' = n_queue_msg net \<and> n_map_conn net' = n_map_conn net"
proof (cases "get_conn_by_conv net conv")
  case None
  then show ?thesis using assms by (simp add: kcpuv_send_def)
next
  case (Some a)
  note f = server_ok_find [OF assms Some]
  obtain c where c: "n_heap net a = Some (Server_obj c)" "server_conn_ok (n_map_req_conn net) conv c"
    using f(2) by (auto simp: entry_ok_def)
  obtain r c' io' where s: "send_kcp env data c io = Some (r, c', io')" "server_conn_ok (n_map_req_conn net) conv c'"
    using send_kcp_ok [OF c(2)] by blast
  have "server_ok (store a (Server_obj c') net)" by (rule server_ok_store [OF assms f(1) s(2)])
  then show ?thesis using Some c(1) s(1) by (simp add: kcpuv_send_def store_def)
qed

definition msg_wf :: "kcpuv_msg \<Rightarrow> bool" where
  "msg_wf m \<longleftrightarrow> (case m_data m of None \<Rightarrow> False | Some d \<Rightarrow> length d = unat (m_size m))"

lemma server_ok_pop: "server_ok net \<Longrightarrow> server_ok (net\<lparr>n_queue_msg := q\<rparr>)"
proof -
  have "entry_ok (net\<lparr>n_queue_msg := q\<rparr>) = entry_ok net" by (rule ext) (simp add: entry_ok_def)
  then show "server_ok net \<Longrightarrow> server_ok (net\<lparr>n_queue_msg := q\<rparr>)" by (simp add: server_ok_def)
qed

text \<open>The receive loop empties the queue and returns exactly if no message in it is too long.\<close>

lemma echo_loop_exact:
  assumes "server_ok net" "list_all msg_wf (n_queue_msg net)"
  shows "if list_all (\<lambda>m. unat (m_size m) \<le> 1015) (n_queue_msg net)
    then \<exists>net' io'. echo_loop env net io = Some (net', io') \<and> server_ok net' \<and> n_queue_msg net' = []
    else echo_loop env net io = None"
  using assms
proof (induction "n_queue_msg net" arbitrary: net io)
  case Nil
  then show ?case by (subst (1 2) echo_loop.simps) (simp add: kcpuv_recv_def get_msg_def)
next
  case (Cons m q)
  let ?net = "net\<lparr>n_queue_msg := q\<rparr>"
  have r: "kcpuv_recv net = (0, Some m, ?net)"
    using Cons.hyps(2) [symmetric] by (simp add: kcpuv_recv_def get_msg_def)
  obtain d where d: "m_data m = Some d" "unat (m_size m) = length d"
    using Cons.prems(2) Cons.hyps(2) [symmetric] by (auto simp: msg_wf_def split: option.splits)
  show ?case
  proof (cases "length d \<le> 1015")
    case False
    then have "echo_reply m = None" using echo_reply_defined [OF d] by blast
    then have "echo_loop env net io = None" by (subst echo_loop.simps) (simp add: r)
    then show ?thesis using False d(2) Cons.hyps(2) [symmetric] by simp
  next
    case True
    then obtain b where b: "echo_reply m = Some b" using echo_reply_defined [OF d] by blast
    have ok: "server_ok ?net" by (rule server_ok_pop [OF Cons.prems(1)])
    obtain v net1 io1 where s: "kcpuv_send env (m_conv m) b ?net io = Some (v, net1, io1)" "server_ok net1"
      "n_queue_msg net1 = n_queue_msg ?net"
      using kcpuv_send_ok [OF ok, of env "m_conv m" b io] by blast
    have e: "echo_loop env net io = echo_loop env net1 io1"
      by (subst echo_loop.simps) (simp add: r b s(1))
    have q: "q = n_queue_msg net1" "list_all msg_wf (n_queue_msg net1)"
      using s(3) Cons.prems(2) Cons.hyps(2) [symmetric] by simp_all
    show ?thesis
      unfolding e using Cons.hyps(1) [OF q(1) s(2) q(2), of io1] True d(2) q(1) Cons.hyps(2) [symmetric] by simp
  qed
qed

end
