(* ===== verification/Rb_Macros.thy ===== *)
theory Rb_Macros
  imports Prelude
begin

text \<open>
  The red-black tree macros of \<^verbatim>\<open>libuv/inc/tree.h\<close> (lines 297 to 766), at pointer level: a heap
  gives the fields of the entry (\<^verbatim>\<open>RB_ENTRY\<close>) at every address and the field of the one head. Each
  macro is the sequence of its assignments. The comparison is an argument, as it is of the
  macro. A loop is a \<open>partial_function\<close>, so that a loop that does not end has the value
  \<^term>\<open>None\<close>; the theories Rb_Tree, Rb_Insert and Rb_Remove prove that on a well-formed tree
  every operation returns.

  \<^verbatim>\<open>RB_AUGMENT\<close> is the empty macro unless the including file defines it, and no file of the
  repository does: its calls have no counterpart here. The loop of \<^verbatim>\<open>RB_REMOVE\<close> that calls it on
  the way to the root is kept (\<open>augment_up\<close>), because it has to end.
\<close>

section \<open>Heads, entries and rotations\<close>

definition RB_BLACK :: int where "RB_BLACK = 0"
definition RB_RED :: int where "RB_RED = 1"

record rbheap =
  rbe_left :: "addr \<Rightarrow> addr"
  rbe_right :: "addr \<Rightarrow> addr"
  rbe_parent :: "addr \<Rightarrow> addr"
  rbe_color :: "addr \<Rightarrow> int"
  rbh_root :: addr

definition set_left :: "addr \<Rightarrow> addr \<Rightarrow> rbheap \<Rightarrow> rbheap" where
  "set_left a v h = h\<lparr>rbe_left := (rbe_left h)(a := v)\<rparr>"

definition set_right :: "addr \<Rightarrow> addr \<Rightarrow> rbheap \<Rightarrow> rbheap" where
  "set_right a v h = h\<lparr>rbe_right := (rbe_right h)(a := v)\<rparr>"

definition set_parent :: "addr \<Rightarrow> addr \<Rightarrow> rbheap \<Rightarrow> rbheap" where
  "set_parent a v h = h\<lparr>rbe_parent := (rbe_parent h)(a := v)\<rparr>"

definition set_color :: "addr \<Rightarrow> int \<Rightarrow> rbheap \<Rightarrow> rbheap" where
  "set_color a v h = h\<lparr>rbe_color := (rbe_color h)(a := v)\<rparr>"

definition set_root :: "addr \<Rightarrow> rbheap \<Rightarrow> rbheap" where
  "set_root v h = h\<lparr>rbh_root := v\<rparr>"

definition RB_INIT :: "rbheap \<Rightarrow> rbheap" where
  "RB_INIT h = set_root 0 h"

definition RB_EMPTY :: "rbheap \<Rightarrow> bool" where
  "RB_EMPTY h \<longleftrightarrow> rbh_root h = 0"

definition RB_SET :: "addr \<Rightarrow> addr \<Rightarrow> rbheap \<Rightarrow> rbheap" where
  "RB_SET elm parent h =
     (let h = set_parent elm parent h;
          h = set_right elm 0 h;
          h = set_left elm 0 h
      in set_color elm RB_RED h)"

definition RB_SET_BLACKRED :: "addr \<Rightarrow> addr \<Rightarrow> rbheap \<Rightarrow> rbheap" where
  "RB_SET_BLACKRED black red h = set_color red RB_RED (set_color black RB_BLACK h)"

text \<open>The rotations; their result parameter \<open>tmp\<close> is the child that goes up.\<close>

definition RB_ROTATE_LEFT :: "addr \<Rightarrow> rbheap \<Rightarrow> rbheap" where
  "RB_ROTATE_LEFT elm h =
     (let tmp = rbe_right h elm;
          h = set_right elm (rbe_left h tmp) h;
          h = (if rbe_right h elm \<noteq> 0 then set_parent (rbe_left h tmp) elm h else h);
          h = set_parent tmp (rbe_parent h elm) h;
          h = (if rbe_parent h tmp \<noteq> 0
               then if elm = rbe_left h (rbe_parent h elm)
                    then set_left (rbe_parent h elm) tmp h
                    else set_right (rbe_parent h elm) tmp h
               else set_root tmp h);
          h = set_left tmp elm h
      in set_parent elm tmp h)"

definition RB_ROTATE_RIGHT :: "addr \<Rightarrow> rbheap \<Rightarrow> rbheap" where
  "RB_ROTATE_RIGHT elm h =
     (let tmp = rbe_left h elm;
          h = set_left elm (rbe_right h tmp) h;
          h = (if rbe_left h elm \<noteq> 0 then set_parent (rbe_right h tmp) elm h else h);
          h = set_parent tmp (rbe_parent h elm) h;
          h = (if rbe_parent h tmp \<noteq> 0
               then if elm = rbe_left h (rbe_parent h elm)
                    then set_left (rbe_parent h elm) tmp h
                    else set_right (rbe_parent h elm) tmp h
               else set_root tmp h);
          h = set_right tmp elm h
      in set_parent elm tmp h)"

section \<open>Insertion\<close>

text \<open>One iteration of the loop of \<^verbatim>\<open>RB_INSERT_COLOR\<close>, with the new value of \<open>elm\<close>.\<close>

definition insert_color_left :: "addr \<Rightarrow> rbheap \<Rightarrow> addr \<times> rbheap" where
  "insert_color_left elm h =
     (let parent = rbe_parent h elm;
          gparent = rbe_parent h parent;
          tmp = rbe_right h gparent
      in if tmp \<noteq> 0 \<and> rbe_color h tmp = RB_RED
         then (gparent, RB_SET_BLACKRED parent gparent (set_color tmp RB_BLACK h))
         else let (parent, elm, h) =
                    (if rbe_right h parent = elm
                     then (elm, parent, RB_ROTATE_LEFT parent h)
                     else (parent, elm, h));
                  h = RB_SET_BLACKRED parent gparent h
              in (elm, RB_ROTATE_RIGHT gparent h))"

definition insert_color_right :: "addr \<Rightarrow> rbheap \<Rightarrow> addr \<times> rbheap" where
  "insert_color_right elm h =
     (let parent = rbe_parent h elm;
          gparent = rbe_parent h parent;
          tmp = rbe_left h gparent
      in if tmp \<noteq> 0 \<and> rbe_color h tmp = RB_RED
         then (gparent, RB_SET_BLACKRED parent gparent (set_color tmp RB_BLACK h))
         else let (parent, elm, h) =
                    (if rbe_left h parent = elm
                     then (elm, parent, RB_ROTATE_RIGHT parent h)
                     else (parent, elm, h));
                  h = RB_SET_BLACKRED parent gparent h
              in (elm, RB_ROTATE_LEFT gparent h))"

definition insert_color_step :: "addr \<Rightarrow> rbheap \<Rightarrow> addr \<times> rbheap" where
  "insert_color_step elm h =
     (let parent = rbe_parent h elm;
          gparent = rbe_parent h parent
      in if parent = rbe_left h gparent then insert_color_left elm h
         else insert_color_right elm h)"

partial_function (option) RB_INSERT_COLOR :: "addr \<Rightarrow> rbheap \<Rightarrow> rbheap option" where
  "RB_INSERT_COLOR elm h =
     (if rbe_parent h elm \<noteq> 0 \<and> rbe_color h (rbe_parent h elm) = RB_RED
      then RB_INSERT_COLOR (fst (insert_color_step elm h)) (snd (insert_color_step elm h))
      else Some (set_color (rbh_root h) RB_BLACK h))"

text \<open>
  The search of \<^verbatim>\<open>RB_INSERT\<close>: the place for \<open>elm\<close> as its parent and the side
  (\<open>side\<close>, the variable \<^verbatim>\<open>comp\<close> with the result of the last comparison), or the node found.
\<close>

partial_function (option) insert_search ::
    "(addr \<Rightarrow> addr \<Rightarrow> int) \<Rightarrow> addr \<Rightarrow> rbheap \<Rightarrow> addr \<Rightarrow> addr \<Rightarrow> int \<Rightarrow> (addr + addr \<times> int) option"
  where
  "insert_search cmp elm h tmp parent side =
     (if tmp = 0 then Some (Inr (parent, side))
      else if cmp elm tmp < 0 then insert_search cmp elm h (rbe_left h tmp) tmp (cmp elm tmp)
      else if cmp elm tmp > 0 then insert_search cmp elm h (rbe_right h tmp) tmp (cmp elm tmp)
      else Some (Inl tmp))"

definition insert_link :: "addr \<Rightarrow> addr \<Rightarrow> int \<Rightarrow> rbheap \<Rightarrow> rbheap" where
  "insert_link elm parent side h =
     (let h = RB_SET elm parent h
      in if parent \<noteq> 0
         then if side < 0 then set_left parent elm h else set_right parent elm h
         else set_root elm h)"

definition RB_INSERT ::
    "(addr \<Rightarrow> addr \<Rightarrow> int) \<Rightarrow> addr \<Rightarrow> rbheap \<Rightarrow> (addr \<times> rbheap) option" where
  "RB_INSERT cmp elm h =
     (case insert_search cmp elm h (rbh_root h) 0 0 of
        None \<Rightarrow> None
      | Some (Inl tmp) \<Rightarrow> Some (tmp, h)
      | Some (Inr (parent, side)) \<Rightarrow>
          map_option (\<lambda>h. (0, h)) (RB_INSERT_COLOR elm (insert_link elm parent side h)))"

section \<open>Search and traversal\<close>

partial_function (option) rb_find_loop ::
    "(addr \<Rightarrow> addr \<Rightarrow> int) \<Rightarrow> addr \<Rightarrow> rbheap \<Rightarrow> addr \<Rightarrow> addr option" where
  "rb_find_loop cmp elm h tmp =
     (if tmp = 0 then Some 0
      else if cmp elm tmp < 0 then rb_find_loop cmp elm h (rbe_left h tmp)
      else if cmp elm tmp > 0 then rb_find_loop cmp elm h (rbe_right h tmp)
      else Some tmp)"

definition RB_FIND :: "(addr \<Rightarrow> addr \<Rightarrow> int) \<Rightarrow> addr \<Rightarrow> rbheap \<Rightarrow> addr option" where
  "RB_FIND cmp elm h = rb_find_loop cmp elm h (rbh_root h)"

partial_function (option) rb_nfind_loop ::
    "(addr \<Rightarrow> addr \<Rightarrow> int) \<Rightarrow> addr \<Rightarrow> rbheap \<Rightarrow> addr \<Rightarrow> addr \<Rightarrow> addr option" where
  "rb_nfind_loop cmp elm h tmp res =
     (if tmp = 0 then Some res
      else if cmp elm tmp < 0 then rb_nfind_loop cmp elm h (rbe_left h tmp) tmp
      else if cmp elm tmp > 0 then rb_nfind_loop cmp elm h (rbe_right h tmp) res
      else Some tmp)"

definition RB_NFIND :: "(addr \<Rightarrow> addr \<Rightarrow> int) \<Rightarrow> addr \<Rightarrow> rbheap \<Rightarrow> addr option" where
  "RB_NFIND cmp elm h = rb_nfind_loop cmp elm h (rbh_root h) 0"

text \<open>The loops of \<^verbatim>\<open>RB_NEXT\<close> and \<^verbatim>\<open>RB_PREV\<close>: down one side, and up while coming from a side.\<close>

partial_function (option) down_left :: "rbheap \<Rightarrow> addr \<Rightarrow> addr option" where
  "down_left h elm = (if rbe_left h elm \<noteq> 0 then down_left h (rbe_left h elm) else Some elm)"

partial_function (option) down_right :: "rbheap \<Rightarrow> addr \<Rightarrow> addr option" where
  "down_right h elm = (if rbe_right h elm \<noteq> 0 then down_right h (rbe_right h elm) else Some elm)"

partial_function (option) up_from_right :: "rbheap \<Rightarrow> addr \<Rightarrow> addr option" where
  "up_from_right h elm =
     (if rbe_parent h elm \<noteq> 0 \<and> elm = rbe_right h (rbe_parent h elm)
      then up_from_right h (rbe_parent h elm)
      else Some (rbe_parent h elm))"

partial_function (option) up_from_left :: "rbheap \<Rightarrow> addr \<Rightarrow> addr option" where
  "up_from_left h elm =
     (if rbe_parent h elm \<noteq> 0 \<and> elm = rbe_left h (rbe_parent h elm)
      then up_from_left h (rbe_parent h elm)
      else Some (rbe_parent h elm))"

definition RB_NEXT :: "addr \<Rightarrow> rbheap \<Rightarrow> addr option" where
  "RB_NEXT elm h =
     (if rbe_right h elm \<noteq> 0 then down_left h (rbe_right h elm)
      else if rbe_parent h elm \<noteq> 0 \<and> elm = rbe_left h (rbe_parent h elm)
      then Some (rbe_parent h elm)
      else up_from_right h elm)"

definition RB_PREV :: "addr \<Rightarrow> rbheap \<Rightarrow> addr option" where
  "RB_PREV elm h =
     (if rbe_left h elm \<noteq> 0 then down_right h (rbe_left h elm)
      else if rbe_parent h elm \<noteq> 0 \<and> elm = rbe_right h (rbe_parent h elm)
      then Some (rbe_parent h elm)
      else up_from_left h elm)"

definition RB_NEGINF :: int where "RB_NEGINF = - 1"
definition RB_INF :: int where "RB_INF = 1"

partial_function (option) rb_minmax_loop :: "int \<Rightarrow> rbheap \<Rightarrow> addr \<Rightarrow> addr \<Rightarrow> addr option" where
  "rb_minmax_loop val h tmp parent =
     (if tmp = 0 then Some parent
      else if val < 0 then rb_minmax_loop val h (rbe_left h tmp) tmp
      else rb_minmax_loop val h (rbe_right h tmp) tmp)"

definition RB_MINMAX :: "int \<Rightarrow> rbheap \<Rightarrow> addr option" where
  "RB_MINMAX val h = rb_minmax_loop val h (rbh_root h) 0"

text \<open>
  \<^verbatim>\<open>RB_FOREACH\<close> and \<^verbatim>\<open>RB_FOREACH_REVERSE\<close> with a body that leaves the tree alone: the
  elements that the body sees, in order.
\<close>

partial_function (option) rb_foreach_from :: "rbheap \<Rightarrow> addr \<Rightarrow> addr list option" where
  "rb_foreach_from h x =
     (if x \<noteq> 0
      then Option.bind (RB_NEXT x h) (\<lambda>y. Option.bind (rb_foreach_from h y) (\<lambda>xs. Some (x # xs)))
      else Some [])"

definition RB_FOREACH :: "rbheap \<Rightarrow> addr list option" where
  "RB_FOREACH h = Option.bind (RB_MINMAX RB_NEGINF h) (rb_foreach_from h)"

partial_function (option) rb_foreach_back :: "rbheap \<Rightarrow> addr \<Rightarrow> addr list option" where
  "rb_foreach_back h x =
     (if x \<noteq> 0
      then Option.bind (RB_PREV x h) (\<lambda>y. Option.bind (rb_foreach_back h y) (\<lambda>xs. Some (x # xs)))
      else Some [])"

definition RB_FOREACH_REVERSE :: "rbheap \<Rightarrow> addr list option" where
  "RB_FOREACH_REVERSE h = Option.bind (RB_MINMAX RB_INF h) (rb_foreach_back h)"

section \<open>Removal\<close>

text \<open>
  One iteration of the loop of \<^verbatim>\<open>RB_REMOVE_COLOR\<close>, the branch for a left child and the one for a
  right child: whether the loop is left by \<^verbatim>\<open>break\<close>, and the new \<open>parent\<close> and \<open>elm\<close>. The part
  after the sibling \<open>tmp\<close> is known to be black is a definition of its own.
\<close>

definition is_black :: "addr \<Rightarrow> rbheap \<Rightarrow> bool" where
  "is_black a h \<longleftrightarrow> a = 0 \<or> rbe_color h a = RB_BLACK"

definition remove_nephews_left :: "addr \<Rightarrow> addr \<Rightarrow> rbheap \<Rightarrow> bool \<times> addr \<times> addr \<times> rbheap" where
  "remove_nephews_left parent tmp h =
     (if is_black (rbe_left h tmp) h \<and> is_black (rbe_right h tmp) h
      then let h = set_color tmp RB_RED h
           in (False, rbe_parent h parent, parent, h)
      else
        let (tmp, h) =
              (if is_black (rbe_right h tmp) h
               then let oleft = rbe_left h tmp;
                        h = (if oleft \<noteq> 0 then set_color oleft RB_BLACK h else h);
                        h = set_color tmp RB_RED h;
                        h = RB_ROTATE_RIGHT tmp h
                    in (rbe_right h parent, h)
               else (tmp, h));
            h = set_color tmp (rbe_color h parent) h;
            h = set_color parent RB_BLACK h;
            h = (if rbe_right h tmp \<noteq> 0 then set_color (rbe_right h tmp) RB_BLACK h else h);
            h = RB_ROTATE_LEFT parent h
        in (True, parent, rbh_root h, h))"

definition remove_color_left :: "addr \<Rightarrow> rbheap \<Rightarrow> bool \<times> addr \<times> addr \<times> rbheap" where
  "remove_color_left parent h =
     (let tmp = rbe_right h parent
      in if rbe_color h tmp = RB_RED
         then let h = RB_ROTATE_LEFT parent (RB_SET_BLACKRED tmp parent h);
                  tmp = rbe_right h parent
              in remove_nephews_left parent tmp h
         else remove_nephews_left parent tmp h)"

definition remove_nephews_right :: "addr \<Rightarrow> addr \<Rightarrow> rbheap \<Rightarrow> bool \<times> addr \<times> addr \<times> rbheap" where
  "remove_nephews_right parent tmp h =
     (if is_black (rbe_left h tmp) h \<and> is_black (rbe_right h tmp) h
      then let h = set_color tmp RB_RED h
           in (False, rbe_parent h parent, parent, h)
      else
        let (tmp, h) =
              (if is_black (rbe_left h tmp) h
               then let oright = rbe_right h tmp;
                        h = (if oright \<noteq> 0 then set_color oright RB_BLACK h else h);
                        h = set_color tmp RB_RED h;
                        h = RB_ROTATE_LEFT tmp h
                    in (rbe_left h parent, h)
               else (tmp, h));
            h = set_color tmp (rbe_color h parent) h;
            h = set_color parent RB_BLACK h;
            h = (if rbe_left h tmp \<noteq> 0 then set_color (rbe_left h tmp) RB_BLACK h else h);
            h = RB_ROTATE_RIGHT parent h
        in (True, parent, rbh_root h, h))"

definition remove_color_right :: "addr \<Rightarrow> rbheap \<Rightarrow> bool \<times> addr \<times> addr \<times> rbheap" where
  "remove_color_right parent h =
     (let tmp = rbe_left h parent
      in if rbe_color h tmp = RB_RED
         then let h = RB_ROTATE_RIGHT parent (RB_SET_BLACKRED tmp parent h);
                  tmp = rbe_left h parent
              in remove_nephews_right parent tmp h
         else remove_nephews_right parent tmp h)"

definition remove_color_step :: "addr \<Rightarrow> addr \<Rightarrow> rbheap \<Rightarrow> bool \<times> addr \<times> addr \<times> rbheap" where
  "remove_color_step parent elm h =
     (if rbe_left h parent = elm then remove_color_left parent h
      else remove_color_right parent h)"

definition remove_color_end :: "addr \<Rightarrow> rbheap \<Rightarrow> rbheap" where
  "remove_color_end elm h = (if elm \<noteq> 0 then set_color elm RB_BLACK h else h)"

partial_function (option) RB_REMOVE_COLOR :: "addr \<Rightarrow> addr \<Rightarrow> rbheap \<Rightarrow> rbheap option" where
  "RB_REMOVE_COLOR parent elm h =
     (if is_black elm h \<and> elm \<noteq> rbh_root h
      then if fst (remove_color_step parent elm h)
           then Some (remove_color_end (fst (snd (snd (remove_color_step parent elm h))))
                                       (snd (snd (snd (remove_color_step parent elm h)))))
           else RB_REMOVE_COLOR (fst (snd (remove_color_step parent elm h)))
                                (fst (snd (snd (remove_color_step parent elm h))))
                                (snd (snd (snd (remove_color_step parent elm h))))
      else Some (remove_color_end elm h))"

text \<open>The pointer of \<open>parent\<close> (or of the head) that leads to \<open>elm\<close> is set to \<open>child\<close>.\<close>

definition redirect :: "addr \<Rightarrow> addr \<Rightarrow> addr \<Rightarrow> rbheap \<Rightarrow> rbheap" where
  "redirect parent elm child h =
     (if parent \<noteq> 0
      then if rbe_left h parent = elm then set_left parent child h
           else set_right parent child h
      else set_root child h)"

definition unlink :: "addr \<Rightarrow> addr \<Rightarrow> rbheap \<Rightarrow> rbheap" where
  "unlink elm child h =
     (let parent = rbe_parent h elm;
          h = (if child \<noteq> 0 then set_parent child parent h else h)
      in redirect parent elm child h)"

text \<open>\<^verbatim>\<open>(elm)->field = (old)->field\<close>: the whole entry is copied.\<close>

definition copy_entry :: "addr \<Rightarrow> addr \<Rightarrow> rbheap \<Rightarrow> rbheap" where
  "copy_entry elm old h =
     set_color elm (rbe_color h old) (set_parent elm (rbe_parent h old)
       (set_right elm (rbe_right h old) (set_left elm (rbe_left h old) h)))"

definition take_place :: "addr \<Rightarrow> addr \<Rightarrow> rbheap \<Rightarrow> rbheap" where
  "take_place elm old h =
     (let h = copy_entry elm old h;
          h = redirect (rbe_parent h old) old elm h;
          h = set_parent (rbe_left h old) elm h
      in if rbe_right h old \<noteq> 0 then set_parent (rbe_right h old) elm h else h)"

text \<open>The calls of \<^verbatim>\<open>RB_AUGMENT\<close> from a node up to the root.\<close>

partial_function (option) augment_up :: "rbheap \<Rightarrow> addr \<Rightarrow> unit option" where
  "augment_up h a = (if rbe_parent h a \<noteq> 0 then augment_up h (rbe_parent h a) else Some ())"

definition recolor :: "int \<Rightarrow> addr \<Rightarrow> addr \<Rightarrow> rbheap \<Rightarrow> rbheap option" where
  "recolor color parent child h =
     (if color = RB_BLACK then RB_REMOVE_COLOR parent child h else Some h)"

definition RB_REMOVE :: "addr \<Rightarrow> rbheap \<Rightarrow> (addr \<times> rbheap) option" where
  "RB_REMOVE elm h =
     (let old = elm
      in if rbe_left h elm \<noteq> 0 \<and> rbe_right h elm \<noteq> 0
         then case down_left h (rbe_right h elm) of
                None \<Rightarrow> None
              | Some elm \<Rightarrow>
                  let child = rbe_right h elm;
                      parent = rbe_parent h elm;
                      color = rbe_color h elm;
                      h = unlink elm child h;
                      parent = (if rbe_parent h elm = old then elm else parent);
                      h = take_place elm old h
                  in Option.bind (if parent \<noteq> 0 then augment_up h parent else Some ())
                       (\<lambda>_. map_option (\<lambda>h. (old, h)) (recolor color parent child h))
         else
           let child = (if rbe_left h elm = 0 then rbe_right h elm else rbe_left h elm);
               parent = rbe_parent h elm;
               color = rbe_color h elm;
               h = unlink elm child h
           in map_option (\<lambda>h. (old, h)) (recolor color parent child h))"

text \<open>
  \<^verbatim>\<open>RB_FOREACH_SAFE\<close>, \<^verbatim>\<open>RB_FOREACH_FROM\<close> and their reverse forms read the successor before the
  body runs, so that the body may remove its element. The body is an argument.
\<close>

partial_function (option) rb_safe_loop ::
    "(addr \<Rightarrow> rbheap \<Rightarrow> addr option) \<Rightarrow> (addr \<Rightarrow> rbheap \<Rightarrow> rbheap option) \<Rightarrow> addr \<Rightarrow> rbheap \<Rightarrow> rbheap option"
  where
  "rb_safe_loop step body x h =
     (if x \<noteq> 0
      then Option.bind (step x h) (\<lambda>y. Option.bind (body x h) (\<lambda>h. rb_safe_loop step body y h))
      else Some h)"

definition RB_FOREACH_FROM :: "(addr \<Rightarrow> rbheap \<Rightarrow> rbheap option) \<Rightarrow> addr \<Rightarrow> rbheap \<Rightarrow> rbheap option" where
  "RB_FOREACH_FROM body y h = rb_safe_loop RB_NEXT body y h"

definition RB_FOREACH_SAFE :: "(addr \<Rightarrow> rbheap \<Rightarrow> rbheap option) \<Rightarrow> rbheap \<Rightarrow> rbheap option" where
  "RB_FOREACH_SAFE body h = Option.bind (RB_MINMAX RB_NEGINF h) (\<lambda>x. rb_safe_loop RB_NEXT body x h)"

definition RB_FOREACH_REVERSE_FROM :: "(addr \<Rightarrow> rbheap \<Rightarrow> rbheap option) \<Rightarrow> addr \<Rightarrow> rbheap \<Rightarrow> rbheap option" where
  "RB_FOREACH_REVERSE_FROM body y h = rb_safe_loop RB_PREV body y h"

definition RB_FOREACH_REVERSE_SAFE :: "(addr \<Rightarrow> rbheap \<Rightarrow> rbheap option) \<Rightarrow> rbheap \<Rightarrow> rbheap option" where
  "RB_FOREACH_REVERSE_SAFE body h = Option.bind (RB_MINMAX RB_INF h) (\<lambda>x. rb_safe_loop RB_PREV body x h)"

definition remove_body :: "addr \<Rightarrow> rbheap \<Rightarrow> rbheap option" where
  "remove_body x h = map_option snd (RB_REMOVE x h)"

end
