(* ===== verification/Rb_Tree.thy ===== *)
theory Rb_Tree
  imports Rb_Macros "HOL-Library.Tree" "HOL-Library.Multiset"
begin

text \<open>
  What a red-black tree in the heap is. \<open>shape\<close> relates the pointers to a tree whose nodes are
  addresses with their colours; a position inside the tree is a subtree and the list of
  frames above it (\<open>focus\<close>), so that the loops that climb and the rotations at an inner node are
  statements about one position. The colours, the black height and the order of the keys are
  properties of that tree, independent of the heap. This theory has these notions, the frame
  rules and the effect of the macros on a position.
\<close>

section \<open>Trees and positions\<close>

type_synonym ctree = "(addr \<times> int) tree"

datatype frame = In_Left addr int ctree | In_Right addr int ctree

fun frame_node :: "frame \<Rightarrow> addr" where
  "frame_node (In_Left a c r) = a"
| "frame_node (In_Right a c l) = a"

fun frame_color :: "frame \<Rightarrow> int" where
  "frame_color (In_Left a c r) = c"
| "frame_color (In_Right a c l) = c"

fun refill :: "ctree \<Rightarrow> frame \<Rightarrow> ctree" where
  "refill t (In_Left a c r) = Node t (a, c) r"
| "refill t (In_Right a c l) = Node l (a, c) t"

definition plug :: "ctree \<Rightarrow> frame list \<Rightarrow> ctree" where
  "plug t fs = foldl refill t fs"

lemma plug_simps [simp]:
  "plug t [] = t" "plug t (f # fs) = plug (refill t f) fs" "plug t (fs @ gs) = plug (plug t fs) gs"
  by (simp_all add: plug_def)

definition nodes :: "ctree \<Rightarrow> addr list" where
  "nodes t = map fst (inorder t)"

lemma nodes_simps [simp]:
  "nodes Leaf = []" "nodes (Node l (a, c) r) = nodes l @ a # nodes r"
  by (simp_all add: nodes_def)

fun frame_nodes :: "frame \<Rightarrow> addr list" where
  "frame_nodes (In_Left a c r) = a # nodes r"
| "frame_nodes (In_Right a c l) = a # nodes l"

definition above_nodes :: "frame list \<Rightarrow> addr list" where
  "above_nodes fs = concat (map frame_nodes fs)"

lemma above_nodes_simps [simp]:
  "above_nodes [] = []" "above_nodes (f # fs) = frame_nodes f @ above_nodes fs"
  "above_nodes (fs @ gs) = above_nodes fs @ above_nodes gs"
  by (simp_all add: above_nodes_def)

definition up :: "frame list \<Rightarrow> addr" where
  "up fs = (case fs of [] \<Rightarrow> 0 | f # _ \<Rightarrow> frame_node f)"

lemma up_simps [simp]: "up [] = 0" "up (f # fs) = frame_node f"
  by (simp_all add: up_def)

section \<open>Trees and positions in the heap\<close>

fun shape :: "rbheap \<Rightarrow> addr \<Rightarrow> addr \<Rightarrow> ctree \<Rightarrow> bool" where
  "shape h par p Leaf = (p = 0)"
| "shape h par p (Node l (a, c) r) =
     (p = a \<and> a \<noteq> 0 \<and> rbe_parent h a = par \<and> rbe_color h a = c
      \<and> shape h a (rbe_left h a) l \<and> shape h a (rbe_right h a) r)"

fun above :: "rbheap \<Rightarrow> addr \<Rightarrow> frame list \<Rightarrow> bool" where
  "above h q [] = (rbh_root h = q)"
| "above h q (In_Left a c r # fs) =
     (a \<noteq> 0 \<and> rbe_left h a = q \<and> rbe_color h a = c \<and> rbe_parent h a = up fs
      \<and> shape h a (rbe_right h a) r \<and> above h a fs)"
| "above h q (In_Right a c l # fs) =
     (a \<noteq> 0 \<and> rbe_right h a = q \<and> rbe_color h a = c \<and> rbe_parent h a = up fs
      \<and> shape h a (rbe_left h a) l \<and> above h a fs)"

definition focus :: "rbheap \<Rightarrow> addr \<Rightarrow> ctree \<Rightarrow> frame list \<Rightarrow> bool" where
  "focus h p t fs \<longleftrightarrow>
     shape h (up fs) p t \<and> above h p fs \<and> distinct (nodes t @ above_nodes fs)"

lemma focus_left:
  "focus h p t (In_Left a c r # fs) \<longleftrightarrow> focus h a (Node t (a, c) r) fs \<and> p = rbe_left h a"
  by (auto simp: focus_def)

lemma focus_right:
  "focus h p t (In_Right a c l # fs) \<longleftrightarrow> focus h a (Node l (a, c) t) fs \<and> p = rbe_right h a"
  by (auto simp: focus_def)

lemma focus_refill: "focus h p t (f # fs) \<Longrightarrow> focus h (frame_node f) (refill t f) fs"
  by (cases f) (auto simp: focus_left focus_right)

lemma focus_up: "focus h p t (fs @ gs) \<Longrightarrow> \<exists>q. focus h q (plug t fs) gs"
proof (induction fs arbitrary: p t)
  case (Cons f fs)
  then show ?case using focus_refill [of h p t f "fs @ gs"] by auto
qed auto

lemma focus_down: "focus h q (plug t fs) gs \<Longrightarrow> \<exists>p. focus h p t (fs @ gs)"
proof (induction fs arbitrary: t)
  case (Cons f fs)
  then obtain p where "focus h p (refill t f) (fs @ gs)" by auto
  then show ?case by (cases f) (auto simp: focus_left focus_right focus_def)
qed auto

lemma focus_node:
  "focus h p (Node l (a, c) r) fs \<Longrightarrow>
     p = a \<and> a \<noteq> 0 \<and> rbe_parent h a = up fs \<and> rbe_color h a = c"
  by (simp add: focus_def)

lemma focus_children:
  assumes "focus h p (Node l (a, c) r) fs"
  shows "focus h (rbe_left h a) l (In_Left a c r # fs)" "focus h (rbe_right h a) r (In_Right a c l # fs)"
  using assms focus_node [OF assms] by (simp_all add: focus_left focus_right)

lemma shape_0 [simp]: "shape h par 0 t \<longleftrightarrow> t = Leaf"
  by (cases t) auto

lemma focus_zero: "focus h 0 t fs \<Longrightarrow> t = Leaf"
  by (cases t) (auto simp: focus_def)

lemma focus_nonzero: "focus h p t fs \<Longrightarrow> p \<noteq> 0 \<longleftrightarrow> t \<noteq> Leaf"
  by (cases t) (auto simp: focus_def)

lemma focus_distinct: "focus h p t fs \<Longrightarrow> distinct (nodes t @ above_nodes fs)"
  by (simp add: focus_def)

lemma nodes_refill: "mset (nodes (refill t f)) = mset (nodes t) + mset (frame_nodes f)"
  by (cases f) auto

lemma nodes_plug: "mset (nodes (plug t fs)) = mset (nodes t) + mset (above_nodes fs)"
  by (induction fs arbitrary: t) (auto simp: nodes_refill)

lemma set_nodes_plug: "set (nodes (plug t fs)) = set (nodes t) \<union> set (above_nodes fs)"
  using arg_cong [OF nodes_plug, of set_mset] by simp

lemma frame_node_in: "frame_node f \<in> set (frame_nodes f)"
  by (cases f) auto

lemma up_in: "fs \<noteq> [] \<Longrightarrow> up fs \<in> set (above_nodes fs)"
  by (cases fs) (auto simp: frame_node_in)

lemma above_root: "above h p fs \<Longrightarrow> fs \<noteq> [] \<Longrightarrow> rbh_root h \<in> set (above_nodes fs)"
proof (induction fs arbitrary: p)
  case (Cons f fs)
  then show ?case by (cases f; cases fs) auto
qed simp

lemma shape_nonzero: "shape h par p t \<Longrightarrow> 0 \<notin> set (nodes t)"
  by (induction h par p t rule: shape.induct) auto

lemma above_nonzero: "above h p fs \<Longrightarrow> 0 \<notin> set (above_nodes fs)"
  by (induction h p fs rule: above.induct) (auto dest: shape_nonzero)

lemma focus_nonzeros: "focus h p t fs \<Longrightarrow> 0 \<notin> set (nodes t) \<and> 0 \<notin> set (above_nodes fs)"
  by (auto simp: focus_def dest: shape_nonzero above_nonzero)

lemma focus_at_root: "focus h p t fs \<Longrightarrow> p = rbh_root h \<longleftrightarrow> fs = []"
proof (cases "fs = []")
  case False
  assume f: "focus h p t fs"
  then have "rbh_root h \<in> set (above_nodes fs)"
    using False above_root by (auto simp: focus_def)
  moreover have "p = 0 \<or> p \<in> set (nodes t)"
    using f by (cases t) (auto simp: focus_def)
  ultimately show ?thesis
    using f False focus_nonzeros [OF f] by (auto simp: focus_def)
qed (simp add: focus_def)

section \<open>Frame rules\<close>

lemma set_sel [simp]:
  "rbe_left (set_left a v h) = (rbe_left h)(a := v)" "rbe_right (set_left a v h) = rbe_right h"
  "rbe_parent (set_left a v h) = rbe_parent h" "rbe_color (set_left a v h) = rbe_color h"
  "rbh_root (set_left a v h) = rbh_root h"
  "rbe_left (set_right a v h) = rbe_left h" "rbe_right (set_right a v h) = (rbe_right h)(a := v)"
  "rbe_parent (set_right a v h) = rbe_parent h" "rbe_color (set_right a v h) = rbe_color h"
  "rbh_root (set_right a v h) = rbh_root h"
  "rbe_left (set_parent a v h) = rbe_left h" "rbe_right (set_parent a v h) = rbe_right h"
  "rbe_parent (set_parent a v h) = (rbe_parent h)(a := v)" "rbe_color (set_parent a v h) = rbe_color h"
  "rbh_root (set_parent a v h) = rbh_root h"
  "rbe_left (set_color a w h) = rbe_left h" "rbe_right (set_color a w h) = rbe_right h"
  "rbe_parent (set_color a w h) = rbe_parent h" "rbe_color (set_color a w h) = (rbe_color h)(a := w)"
  "rbh_root (set_color a w h) = rbh_root h"
  "rbe_left (set_root v h) = rbe_left h" "rbe_right (set_root v h) = rbe_right h"
  "rbe_parent (set_root v h) = rbe_parent h" "rbe_color (set_root v h) = rbe_color h"
  "rbh_root (set_root v h) = v"
  by (simp_all add: set_left_def set_right_def set_parent_def set_color_def set_root_def)

definition same_entries :: "addr set \<Rightarrow> rbheap \<Rightarrow> rbheap \<Rightarrow> bool" where
  "same_entries A h h' \<longleftrightarrow>
     (\<forall>a\<in>A. rbe_left h' a = rbe_left h a \<and> rbe_right h' a = rbe_right h a
            \<and> rbe_parent h' a = rbe_parent h a \<and> rbe_color h' a = rbe_color h a)"

lemma shape_cong: "same_entries (set (nodes t)) h h' \<Longrightarrow> shape h' par p t = shape h par p t"
  by (induction t arbitrary: par p) (auto simp: same_entries_def)

lemma shape_upd [simp]:
  "a \<notin> set (nodes t) \<Longrightarrow> shape (set_left a v h) par p t = shape h par p t"
  "a \<notin> set (nodes t) \<Longrightarrow> shape (set_right a v h) par p t = shape h par p t"
  "a \<notin> set (nodes t) \<Longrightarrow> shape (set_parent a v h) par p t = shape h par p t"
  "a \<notin> set (nodes t) \<Longrightarrow> shape (set_color a w h) par p t = shape h par p t"
  "shape (set_root v h) par p t = shape h par p t"
  by (rule shape_cong; auto simp: same_entries_def)+

lemma above_upd [simp]:
  "a \<notin> set (above_nodes fs) \<Longrightarrow> above (set_left a v h) p fs = above h p fs"
  "a \<notin> set (above_nodes fs) \<Longrightarrow> above (set_right a v h) p fs = above h p fs"
  "a \<notin> set (above_nodes fs) \<Longrightarrow> above (set_parent a v h) p fs = above h p fs"
  "a \<notin> set (above_nodes fs) \<Longrightarrow> above (set_color a w h) p fs = above h p fs"
  by (induction h p fs rule: above.induct) auto

lemma above_head_upd:
  "above h p (In_Left a c r # fs) \<Longrightarrow> a \<notin> set (nodes r) \<Longrightarrow> a \<notin> set (above_nodes fs) \<Longrightarrow>
     above (set_left a q h) q (In_Left a c r # fs)"
  "above h p (In_Right a c r # fs) \<Longrightarrow> a \<notin> set (nodes r) \<Longrightarrow> a \<notin> set (above_nodes fs) \<Longrightarrow>
     above (set_right a q h) q (In_Right a c r # fs)"
  by simp_all

text \<open>The pointer to a position, redirected to another node.\<close>

lemma above_redirect:
  assumes "above h p fs" "distinct (above_nodes fs)" "p \<noteq> 0" "p \<notin> set (above_nodes fs)"
  shows "above (redirect (up fs) p q h) q fs"
proof (cases fs)
  case (Cons f gs)
  show ?thesis
  proof (cases f)
    case (In_Left a c r)
    then show ?thesis using assms Cons by (auto simp: redirect_def)
  next
    case (In_Right a c l)
    then have "rbe_left h a \<noteq> p"
      using assms Cons by (cases l) auto
    then show ?thesis using assms Cons In_Right by (auto simp: redirect_def)
  qed
qed (simp add: redirect_def)

lemma shape_redirect [simp]:
  "a \<notin> set (nodes t) \<Longrightarrow> shape (redirect a p q h) par r t = shape h par r t"
  by (simp add: redirect_def)

lemma redirect_sel [simp]:
  "rbe_parent (redirect a p q h) = rbe_parent h" "rbe_color (redirect a p q h) = rbe_color h"
  "b \<noteq> a \<Longrightarrow> rbe_left (redirect a p q h) b = rbe_left h b"
  "b \<noteq> a \<Longrightarrow> rbe_right (redirect a p q h) b = rbe_right h b"
  by (simp_all add: redirect_def)

lemma shape_member: "shape h par p t \<Longrightarrow> p = 0 \<or> p \<in> set (nodes t)"
  by (cases t) auto

lemma sibling_differs:
  "shape h par p t \<Longrightarrow> q \<noteq> 0 \<Longrightarrow> q \<notin> set (nodes t) \<Longrightarrow> p \<noteq> q"
  using shape_member by fastforce

section \<open>Rotations\<close>

text \<open>A subtree gets another parent.\<close>

definition adopt :: "addr \<Rightarrow> addr \<Rightarrow> rbheap \<Rightarrow> rbheap" where
  "adopt b x h = (if b \<noteq> 0 then set_parent b x h else h)"

lemma adopt_sel [simp]:
  "rbe_left (adopt b x h) = rbe_left h" "rbe_right (adopt b x h) = rbe_right h"
  "rbe_color (adopt b x h) = rbe_color h" "rbh_root (adopt b x h) = rbh_root h"
  "a \<noteq> b \<Longrightarrow> rbe_parent (adopt b x h) a = rbe_parent h a"
  by (simp_all add: adopt_def)

lemma shape_adopt [simp]: "b \<notin> set (nodes t) \<Longrightarrow> shape (adopt b x h) par p t = shape h par p t"
  by (simp add: adopt_def)

lemma above_adopt [simp]: "b \<notin> set (above_nodes fs) \<Longrightarrow> above (adopt b x h) p fs = above h p fs"
  by (simp add: adopt_def)

lemma shape_adopted: "shape h par b t \<Longrightarrow> distinct (nodes t) \<Longrightarrow> shape (adopt b x h) x b t"
  by (cases t) (auto simp: adopt_def)

lemma redirect_test:
  "redirect u x y h =
     (if u \<noteq> 0 then if x = rbe_left h u then set_left u y h else set_right u y h else set_root y h)"
  by (auto simp: redirect_def)

lemma rotate_left_eq:
  assumes "rbe_right h x = y" "rbe_left h y = b" "rbe_parent h x = u" "b \<noteq> x" "y \<noteq> x" "u \<noteq> x"
    "b \<noteq> y"
  shows "RB_ROTATE_LEFT x h =
    set_parent x y (set_left y x (redirect u x y (set_parent y u (adopt b x (set_right x b h)))))"
proof -
  define w where "w = rbe_left h u"
  have "rbe_left h u = w" by (simp add: w_def)
  with assms assms(4-7) [symmetric] show ?thesis
    by (cases "b = 0"; cases "u = 0"; cases "x = w")
       (simp_all add: RB_ROTATE_LEFT_def Let_def adopt_def redirect_test)
qed

lemma rotate_right_eq:
  assumes "rbe_left h x = y" "rbe_right h y = b" "rbe_parent h x = u" "b \<noteq> x" "y \<noteq> x" "u \<noteq> x"
    "b \<noteq> y"
  shows "RB_ROTATE_RIGHT x h =
    set_parent x y (set_right y x (redirect u x y (set_parent y u (adopt b x (set_left x b h)))))"
proof -
  define w where "w = rbe_left h u"
  have "rbe_left h u = w" by (simp add: w_def)
  with assms assms(4-7) [symmetric] show ?thesis
    by (cases "b = 0"; cases "u = 0"; cases "x = w")
       (simp_all add: RB_ROTATE_RIGHT_def Let_def adopt_def redirect_test)
qed

lemma focus_up_differs:
  assumes "focus h p t fs" "a \<in> set (nodes t)"
  shows "up fs \<noteq> a"
proof (cases "fs = []")
  case False
  then show ?thesis using up_in [of fs] assms by (auto simp: focus_def)
qed (use assms focus_nonzeros in fastforce)

lemma focus_rotate_left:
  assumes f: "focus h p (Node A (x, c) (Node B (y, d) C)) fs"
  shows "focus (RB_ROTATE_LEFT x h) y (Node (Node A (x, c) B) (y, d) C) fs"
proof -
  have dist: "distinct (nodes (Node A (x, c) (Node B (y, d) C)) @ above_nodes fs)"
    and above: "above h x fs" and sh: "shape h (up fs) x (Node A (x, c) (Node B (y, d) C))"
    using f by (auto simp: focus_def)
  define a b e u where "a = rbe_left h x" and "b = rbe_left h y" and "e = rbe_right h y" and "u = up fs"
  have subs: "shape h x a A" "shape h y b B" "shape h y e C" "x \<noteq> 0" "y \<noteq> 0" "rbe_right h x = y"
    "rbe_left h x = a" "rbe_left h y = b" "rbe_right h y = e" "rbe_color h x = c" "rbe_color h y = d"
    "rbe_parent h x = u" "rbe_parent h y = x"
    using sh by (auto simp: a_def b_def e_def u_def)
  have u: "u \<noteq> x" "u \<noteq> y" "u \<notin> set (nodes A)" "u \<notin> set (nodes B)" "u \<notin> set (nodes C)"
    using focus_up_differs [OF f] by (auto simp: u_def)
  have b: "b = 0 \<or> b \<in> set (nodes B)" using shape_member [OF subs(2)] .
  have nz: "0 \<notin> set (nodes A)" "0 \<notin> set (nodes C)" "0 \<notin> set (above_nodes fs)"
    using focus_nonzeros [OF f] by auto
  have bs: "b \<noteq> x" "b \<noteq> y" "b \<notin> set (nodes A)" "b \<notin> set (nodes C)" "b \<notin> set (above_nodes fs)"
    using b dist subs nz by auto
  have eq: "RB_ROTATE_LEFT x h =
    set_parent x y (set_left y x (redirect u x y (set_parent y u (adopt b x (set_right x b h)))))"
    using subs u bs dist by (intro rotate_left_eq) simp_all
  define g where "g = set_parent y u (adopt b x (set_right x b h))"
  have "above g x fs" using above dist bs by (simp add: g_def)
  then have "above (redirect u x y g) y fs"
    using dist subs by (simp add: u_def above_redirect)
  moreover have "shape (adopt b x (set_right x b h)) x b B"
    using subs dist by (intro shape_adopted) auto
  moreover have "x \<noteq> y" "distinct (nodes B)" using dist by auto
  ultimately show ?thesis
    using subs dist u bs by (auto simp: eq focus_def g_def u_def)
qed

lemma focus_rotate_right:
  assumes f: "focus h p (Node (Node C (y, d) B) (x, c) A) fs"
  shows "focus (RB_ROTATE_RIGHT x h) y (Node C (y, d) (Node B (x, c) A)) fs"
proof -
  have dist: "distinct (nodes (Node (Node C (y, d) B) (x, c) A) @ above_nodes fs)"
    and above: "above h x fs" and sh: "shape h (up fs) x (Node (Node C (y, d) B) (x, c) A)"
    using f by (auto simp: focus_def)
  define a b e u where "a = rbe_right h x" and "b = rbe_right h y" and "e = rbe_left h y" and "u = up fs"
  have subs: "shape h x a A" "shape h y b B" "shape h y e C" "x \<noteq> 0" "y \<noteq> 0" "rbe_left h x = y"
    "rbe_right h x = a" "rbe_right h y = b" "rbe_left h y = e" "rbe_color h x = c" "rbe_color h y = d"
    "rbe_parent h x = u" "rbe_parent h y = x"
    using sh by (auto simp: a_def b_def e_def u_def)
  have u: "u \<noteq> x" "u \<noteq> y" "u \<notin> set (nodes A)" "u \<notin> set (nodes B)" "u \<notin> set (nodes C)"
    using focus_up_differs [OF f] by (auto simp: u_def)
  have b: "b = 0 \<or> b \<in> set (nodes B)" using shape_member [OF subs(2)] .
  have nz: "0 \<notin> set (nodes A)" "0 \<notin> set (nodes C)" "0 \<notin> set (above_nodes fs)"
    using focus_nonzeros [OF f] by auto
  have bs: "b \<noteq> x" "b \<noteq> y" "b \<notin> set (nodes A)" "b \<notin> set (nodes C)" "b \<notin> set (above_nodes fs)"
    using b dist subs nz by auto
  have eq: "RB_ROTATE_RIGHT x h =
    set_parent x y (set_right y x (redirect u x y (set_parent y u (adopt b x (set_left x b h)))))"
    using subs u bs dist by (intro rotate_right_eq) simp_all
  define g where "g = set_parent y u (adopt b x (set_left x b h))"
  have "above g x fs" using above dist bs by (simp add: g_def)
  then have "above (redirect u x y g) y fs"
    using dist subs by (simp add: u_def above_redirect)
  moreover have "shape (adopt b x (set_left x b h)) x b B"
    using subs dist by (intro shape_adopted) auto
  moreover have "x \<noteq> y" "distinct (nodes B)" using dist by auto
  ultimately show ?thesis
    using subs dist u bs by (auto simp: eq focus_def g_def u_def)
qed

end
