(* ===== verification/Rb_Insert.thy ===== *)
theory Rb_Insert
  imports Rb_Tree
begin

text \<open>
  The balance and the order of a red-black tree, and \<^verbatim>\<open>RB_INSERT\<close>: the climbing loop of
  \<^verbatim>\<open>RB_INSERT_COLOR\<close> ends, removes the one possible violation of the colours, and leaves the
  sequence of nodes alone; the search ends at the place of the new key.
\<close>

section \<open>Colours and black heights\<close>

fun root_color :: "ctree \<Rightarrow> int" where
  "root_color Leaf = RB_BLACK"
| "root_color (Node l (a, c) r) = c"

definition up_color :: "frame list \<Rightarrow> int" where
  "up_color fs = (case fs of [] \<Rightarrow> RB_BLACK | f # _ \<Rightarrow> frame_color f)"

fun bal :: "nat \<Rightarrow> ctree \<Rightarrow> bool" where
  "bal n Leaf = (n = 0)"
| "bal n (Node l (a, c) r) =
     (if c = RB_BLACK then 0 < n \<and> bal (n - 1) l \<and> bal (n - 1) r
      else c = RB_RED \<and> root_color l = RB_BLACK \<and> root_color r = RB_BLACK \<and> bal n l \<and> bal n r)"

fun bheight :: "ctree \<Rightarrow> nat" where
  "bheight Leaf = 0"
| "bheight (Node l (a, c) r) = (if c = RB_BLACK then Suc (bheight l) else bheight l)"

lemma bal_bheight: "bal n t \<Longrightarrow> n = bheight t"
proof (induction n t rule: bal.induct)
  case (2 n l a c r)
  then show ?case by (cases "c = RB_BLACK") auto
qed auto

lemma colors_differ [simp]: "RB_RED \<noteq> RB_BLACK" "RB_BLACK \<noteq> RB_RED"
  by (simp_all add: RB_RED_def RB_BLACK_def)

fun sibling :: "frame \<Rightarrow> ctree" where
  "sibling (In_Left a c r) = r"
| "sibling (In_Right a c l) = l"

text \<open>A context that expects a subtree of black height \<open>n\<close>.\<close>

fun cxt :: "nat \<Rightarrow> frame list \<Rightarrow> bool" where
  "cxt n [] = True"
| "cxt n (f # fs) =
     (bal n (sibling f) \<and>
      (if frame_color f = RB_BLACK then cxt (Suc n) fs
       else frame_color f = RB_RED \<and> root_color (sibling f) = RB_BLACK
            \<and> fs \<noteq> [] \<and> up_color fs = RB_BLACK \<and> cxt n fs))"

definition fits :: "ctree \<Rightarrow> frame list \<Rightarrow> bool" where
  "fits t fs \<longleftrightarrow> (root_color t = RB_BLACK \<or> fs \<noteq> [] \<and> up_color fs = RB_BLACK)"

lemma up_color_simps [simp]: "up_color [] = RB_BLACK" "up_color (f # fs) = frame_color f"
  by (simp_all add: up_color_def)

lemma bal_refill:
  "bal (if frame_color f = RB_BLACK then Suc n else n) (refill t f) \<longleftrightarrow>
     bal n t \<and> bal n (sibling f) \<and>
     (frame_color f = RB_BLACK \<or> frame_color f = RB_RED \<and> root_color t = RB_BLACK
        \<and> root_color (sibling f) = RB_BLACK)"
  by (cases f) auto

lemma root_color_refill [simp]: "root_color (refill t f) = frame_color f"
  by (cases f) auto

lemma plug_bal:
  "bal n t \<Longrightarrow> cxt n fs \<Longrightarrow> fits t fs \<Longrightarrow> \<exists>m. bal m (plug t fs) \<and> root_color (plug t fs) = RB_BLACK"
proof (induction fs arbitrary: n t)
  case (Cons f fs)
  let ?m = "if frame_color f = RB_BLACK then Suc n else n"
  have "bal ?m (refill t f)" "cxt ?m fs" "fits (refill t f) fs"
    using Cons.prems bal_refill [of f n t] by (auto simp: fits_def split: if_splits)
  then show ?case using Cons.IH by simp
qed (auto simp: fits_def)

lemma bal_refill_color: "bal m (refill t f) \<Longrightarrow> frame_color f = RB_BLACK \<or> frame_color f = RB_RED"
  by (cases f) (auto split: if_splits)

lemma unplug_bal:
  "bal m (plug t fs) \<Longrightarrow> root_color (plug t fs) = RB_BLACK \<Longrightarrow> \<exists>n. bal n t \<and> cxt n fs \<and> fits t fs"
proof (induction fs arbitrary: t)
  case (Cons f fs)
  then obtain n where n: "bal n (refill t f)" "cxt n fs" "fits (refill t f) fs"
    by auto
  show ?case
  proof (cases "frame_color f = RB_BLACK")
    case True
    then have "n \<noteq> 0" using n(1) by (cases f) auto
    then obtain k where "n = Suc k" by (cases n) auto
    then show ?thesis
      using n True bal_refill [of f k t] by (auto simp: fits_def)
  next
    case False
    then show ?thesis
      using n bal_refill [of f n t] bal_refill_color [OF n(1)] by (auto simp: fits_def)
  qed
qed (auto simp: fits_def)

lemma nodes_plug_cong: "nodes s = nodes t \<Longrightarrow> nodes (plug s fs) = nodes (plug t fs)"
proof (induction fs arbitrary: s t)
  case (Cons f fs)
  then show ?case by (cases f) auto
qed simp

section \<open>Reading and writing colours\<close>

lemma red_test: "shape h par p t \<Longrightarrow> p \<noteq> 0 \<and> rbe_color h p = RB_RED \<longleftrightarrow> root_color t = RB_RED"
  by (cases t) auto

lemma black_test: "shape h par p t \<Longrightarrow> is_black p h \<longleftrightarrow> root_color t = RB_BLACK"
  by (cases t) (auto simp: is_black_def)

lemma focus_color:
  "focus h p (Node l (a, c) r) fs \<Longrightarrow> focus (set_color a d h) p (Node l (a, d) r) fs"
  by (auto simp: focus_def)

lemma focus_color_left:
  "focus h p (Node (Node A (b, e) B) (a, c) r) fs \<Longrightarrow>
     focus (set_color b d h) p (Node (Node A (b, d) B) (a, c) r) fs"
  by (auto simp: focus_def)

lemma focus_color_right:
  "focus h p (Node l (a, c) (Node A (b, e) B)) fs \<Longrightarrow>
     focus (set_color b d h) p (Node l (a, c) (Node A (b, d) B)) fs"
  by (auto simp: focus_def)

lemma focus_blackred_left:
  "focus h p (Node (Node A (b, e) B) (a, c) r) fs \<Longrightarrow>
     focus (RB_SET_BLACKRED b a h) p (Node (Node A (b, RB_BLACK) B) (a, RB_RED) r) fs"
  unfolding RB_SET_BLACKRED_def by (intro focus_color focus_color_left)

lemma focus_blackred_right:
  "focus h p (Node l (a, c) (Node A (b, e) B)) fs \<Longrightarrow>
     focus (RB_SET_BLACKRED b a h) p (Node l (a, RB_RED) (Node A (b, RB_BLACK) B)) fs"
  unfolding RB_SET_BLACKRED_def by (intro focus_color focus_color_right)

section \<open>Climbing after an insertion\<close>

lemma rb_insert_color_exit:
  assumes "focus h p (Node l (e, c) r) fs" "up_color fs = RB_BLACK"
  shows "RB_INSERT_COLOR e h = Some (set_color (rbh_root h) RB_BLACK h)"
proof -
  have "rbe_parent h e = up fs" using focus_node [OF assms(1)] by simp
  moreover have "fs \<noteq> [] \<Longrightarrow> rbe_color h (up fs) = RB_BLACK"
    using assms by (cases fs rule: list.exhaust; cases "List.hd fs") (auto simp: focus_def)
  ultimately show ?thesis
    by (cases "fs = []") (simp_all add: RB_INSERT_COLOR.simps [of e h])
qed

text \<open>The uncle is red: the colours move up and the loop goes on at the grandparent.\<close>

fun blackened :: "frame \<Rightarrow> frame" where
  "blackened (In_Left a c s) = In_Left a RB_BLACK s"
| "blackened (In_Right a c s) = In_Right a RB_BLACK s"

lemma insert_left_red:
  assumes "focus h g (Node (refill (Node l (e, c) r) f) (g, gc) (Node ul (u, RB_RED) ur)) gs"
  shows "\<exists>h'. insert_color_step e h = (g, h') \<and>
    focus h' g (Node (refill (Node l (e, c) r) (blackened f)) (g, RB_RED) (Node ul (u, RB_BLACK) ur)) gs"
proof (cases f)
  case (In_Left p d s)
  note f = assms [unfolded In_Left refill.simps]
  have "rbe_parent h e = p" "rbe_parent h p = g" "rbe_left h g = p" "rbe_right h g = u" "u \<noteq> 0"
    "rbe_color h u = RB_RED" "u \<noteq> p"
    using f by (simp_all add: focus_def)
  then have "insert_color_step e h = (g, RB_SET_BLACKRED p g (set_color u RB_BLACK h))"
    by (simp add: insert_color_step_def insert_color_left_def Let_def)
  then show ?thesis
    using In_Left focus_blackred_left [OF focus_color_right [OF f]] by simp
next
  case (In_Right p d s)
  note f = assms [unfolded In_Right refill.simps]
  have "rbe_parent h e = p" "rbe_parent h p = g" "rbe_left h g = p" "rbe_right h g = u" "u \<noteq> 0"
    "rbe_color h u = RB_RED" "u \<noteq> p"
    using f by (simp_all add: focus_def)
  then have "insert_color_step e h = (g, RB_SET_BLACKRED p g (set_color u RB_BLACK h))"
    by (simp add: insert_color_step_def insert_color_left_def Let_def)
  then show ?thesis
    using In_Right focus_blackred_left [OF focus_color_right [OF f]] by simp
qed

lemma insert_right_red:
  assumes "focus h g (Node (Node ul (u, RB_RED) ur) (g, gc) (refill (Node l (e, c) r) f)) gs"
  shows "\<exists>h'. insert_color_step e h = (g, h') \<and>
    focus h' g (Node (Node ul (u, RB_BLACK) ur) (g, RB_RED) (refill (Node l (e, c) r) (blackened f))) gs"
proof (cases f)
  case (In_Left p d s)
  note f = assms [unfolded In_Left refill.simps]
  have "rbe_parent h e = p" "rbe_parent h p = g" "rbe_right h g = p" "rbe_left h g = u" "u \<noteq> 0"
    "rbe_color h u = RB_RED" "u \<noteq> p"
    using f by (simp_all add: focus_def)
  then have "insert_color_step e h = (g, RB_SET_BLACKRED p g (set_color u RB_BLACK h))"
    by (simp add: insert_color_step_def insert_color_right_def Let_def)
  then show ?thesis
    using In_Left focus_blackred_right [OF focus_color_left [OF f]] by simp
next
  case (In_Right p d s)
  note f = assms [unfolded In_Right refill.simps]
  have "rbe_parent h e = p" "rbe_parent h p = g" "rbe_right h g = p" "rbe_left h g = u" "u \<noteq> 0"
    "rbe_color h u = RB_RED" "u \<noteq> p"
    using f by (simp_all add: focus_def)
  then have "insert_color_step e h = (g, RB_SET_BLACKRED p g (set_color u RB_BLACK h))"
    by (simp add: insert_color_step_def insert_color_right_def Let_def)
  then show ?thesis
    using In_Right focus_blackred_right [OF focus_color_left [OF f]] by simp
qed

text \<open>The uncle is black: one or two rotations, and the loop ends.\<close>

lemma focus_reads:
  assumes "focus h g (Node L (g, gc) R) gs"
  shows "shape h g (rbe_left h g) L" "shape h g (rbe_right h g) R"
  using assms by (simp_all add: focus_def)

lemma focus_sub:
  "focus h g (Node (Node A (p, d) B) (g, c) R) gs \<Longrightarrow> focus h p (Node A (p, d) B) (In_Left g c R # gs)"
  "focus h g (Node L (g, c) (Node A (p, d) B)) gs \<Longrightarrow> focus h p (Node A (p, d) B) (In_Right g c L # gs)"
  by (simp_all add: focus_left focus_right) (simp_all add: focus_def)

lemma insert_left_outer:
  assumes f: "focus h g (Node (Node (Node l (e, c) r) (p, d) s) (g, gc) U) gs"
    and U: "root_color U = RB_BLACK"
  shows "\<exists>h'. insert_color_step e h = (e, h') \<and>
    focus h' p (Node (Node l (e, c) r) (p, RB_BLACK) (Node s (g, RB_RED) U)) gs"
proof -
  have reads: "rbe_parent h e = p" "rbe_parent h p = g" "rbe_left h g = p"
    using f by (simp_all add: focus_def)
  have "\<not> (rbe_right h g \<noteq> 0 \<and> rbe_color h (rbe_right h g) = RB_RED)"
    using red_test [OF focus_reads(2) [OF f]] U by simp
  moreover have "rbe_right h p \<noteq> e"
    using f by (intro sibling_differs [OF focus_reads(2) [OF focus_sub(1) [OF f]]]) (simp_all add: focus_def)
  ultimately have "insert_color_step e h = (e, RB_ROTATE_RIGHT g (RB_SET_BLACKRED p g h))"
    using reads by (auto simp: insert_color_step_def insert_color_left_def Let_def)
  then show ?thesis
    using focus_rotate_right [OF focus_blackred_left [OF f]] by simp
qed

lemma insert_left_inner:
  assumes f: "focus h g (Node (Node s (p, d) (Node l (e, c) r)) (g, gc) U) gs"
    and U: "root_color U = RB_BLACK"
  shows "\<exists>h'. insert_color_step e h = (p, h') \<and>
    focus h' e (Node (Node s (p, d) l) (e, RB_BLACK) (Node r (g, RB_RED) U)) gs"
proof -
  have reads: "rbe_parent h e = p" "rbe_parent h p = g" "rbe_left h g = p" "rbe_right h p = e"
    using f by (simp_all add: focus_def)
  let ?h = "RB_ROTATE_LEFT p h"
  have "\<not> (rbe_right h g \<noteq> 0 \<and> rbe_color h (rbe_right h g) = RB_RED)"
    using red_test [OF focus_reads(2) [OF f]] U by simp
  then have "insert_color_step e h = (p, RB_ROTATE_RIGHT g (RB_SET_BLACKRED e g ?h))"
    using reads by (auto simp: insert_color_step_def insert_color_left_def Let_def)
  moreover have "focus ?h g (Node (Node (Node s (p, d) l) (e, c) r) (g, gc) U) gs"
    using focus_rotate_left [OF focus_children(1) [OF f]] focus_left by blast
  ultimately show ?thesis
    using focus_rotate_right [OF focus_blackred_left] by simp
qed

lemma insert_right_outer:
  assumes f: "focus h g (Node U (g, gc) (Node s (p, d) (Node l (e, c) r))) gs"
    and U: "root_color U = RB_BLACK"
  shows "\<exists>h'. insert_color_step e h = (e, h') \<and>
    focus h' p (Node (Node U (g, RB_RED) s) (p, RB_BLACK) (Node l (e, c) r)) gs"
proof -
  have reads: "rbe_parent h e = p" "rbe_parent h p = g" "rbe_right h g = p"
    using f by (simp_all add: focus_def)
  have "\<not> (rbe_left h g \<noteq> 0 \<and> rbe_color h (rbe_left h g) = RB_RED)"
    using red_test [OF focus_reads(1) [OF f]] U by simp
  moreover have "rbe_left h p \<noteq> e"
    using f by (intro sibling_differs [OF focus_reads(1) [OF focus_sub(2) [OF f]]]) (simp_all add: focus_def)
  moreover have "p \<noteq> rbe_left h g"
    using f by (intro not_sym [OF sibling_differs [OF focus_reads(1) [OF f]]]) (simp_all add: focus_def)
  ultimately have "insert_color_step e h = (e, RB_ROTATE_LEFT g (RB_SET_BLACKRED p g h))"
    using reads by (auto simp: insert_color_step_def insert_color_right_def Let_def)
  then show ?thesis
    using focus_rotate_left [OF focus_blackred_right [OF f]] by simp
qed

lemma insert_right_inner:
  assumes f: "focus h g (Node U (g, gc) (Node (Node l (e, c) r) (p, d) s)) gs"
    and U: "root_color U = RB_BLACK"
  shows "\<exists>h'. insert_color_step e h = (p, h') \<and>
    focus h' e (Node (Node U (g, RB_RED) l) (e, RB_BLACK) (Node r (p, d) s)) gs"
proof -
  have reads: "rbe_parent h e = p" "rbe_parent h p = g" "rbe_right h g = p" "rbe_left h p = e"
    using f by (simp_all add: focus_def)
  let ?h = "RB_ROTATE_RIGHT p h"
  have "\<not> (rbe_left h g \<noteq> 0 \<and> rbe_color h (rbe_left h g) = RB_RED)"
    using red_test [OF focus_reads(1) [OF f]] U by simp
  moreover have "p \<noteq> rbe_left h g"
    using f by (intro not_sym [OF sibling_differs [OF focus_reads(1) [OF f]]]) (simp_all add: focus_def)
  ultimately have "insert_color_step e h = (p, RB_ROTATE_LEFT g (RB_SET_BLACKRED e g ?h))"
    using reads by (auto simp: insert_color_step_def insert_color_right_def Let_def)
  moreover have "focus ?h g (Node U (g, gc) (Node l (e, c) (Node r (p, d) s))) gs"
    using focus_rotate_right [OF focus_children(2) [OF f]] focus_right by blast
  ultimately show ?thesis
    using focus_rotate_left [OF focus_blackred_right] by simp
qed

text \<open>Outcome of the recolouring loops: the whole tree is balanced and has the same nodes.\<close>

definition settled :: "addr list \<Rightarrow> rbheap \<Rightarrow> bool" where
  "settled xs h \<longleftrightarrow>
     (\<exists>t n. focus h (rbh_root h) t [] \<and> bal n t \<and> root_color t = RB_BLACK \<and> nodes t = xs)"

lemma focus_to_root: "focus h p t fs \<Longrightarrow> focus h (rbh_root h) (plug t fs) []"
  using focus_up [of h p t fs "[]"] focus_at_root by fastforce

lemma plug_node: "t \<noteq> Leaf \<Longrightarrow> plug t fs \<noteq> Leaf"
proof (induction fs arbitrary: t)
  case (Cons f fs)
  then show ?case by (cases f) auto
qed simp

lemma blacken_root:
  assumes f: "focus h (rbh_root h) t []" and t: "t \<noteq> Leaf" "bal n t"
  shows "settled (nodes t) (set_color (rbh_root h) RB_BLACK h)"
proof -
  obtain l a c r where t': "t = Node l (a, c) r" using t(1) by (cases t) auto
  have r: "rbh_root h = a" using f t' by (simp add: focus_def)
  have "bal (if c = RB_BLACK then n else Suc n) (Node l (a, RB_BLACK) r)"
    using t t' by (auto split: if_splits)
  moreover have "focus (set_color a RB_BLACK h) a (Node l (a, RB_BLACK) r) []"
    using f r t' focus_color by simp
  ultimately show ?thesis
    unfolding settled_def by (intro exI [of _ "Node l (a, RB_BLACK) r"]) (auto simp: r t')
qed

lemma rb_insert_color_last:
  assumes f: "focus h e (Node l (e, RB_RED) r) fs" and b: "bal n (Node l (e, RB_RED) r)" "cxt n fs"
    and up: "up_color fs = RB_BLACK"
  shows "\<exists>h'. RB_INSERT_COLOR e h = Some h' \<and> settled (nodes (plug (Node l (e, RB_RED) r) fs)) h'"
proof -
  have "\<exists>m. bal m (plug (Node l (e, RB_RED) r) fs)"
  proof (cases "fs = []")
    case False
    then show ?thesis using plug_bal [OF b] up by (auto simp: fits_def)
  qed (use b in auto)
  then have "settled (nodes (plug (Node l (e, RB_RED) r) fs)) (set_color (rbh_root h) RB_BLACK h)"
    using blacken_root [OF focus_to_root [OF f]] plug_node by blast
  then show ?thesis using rb_insert_color_exit [OF f up] by simp
qed

lemma rb_insert_color_unfold:
  assumes "focus h e t (f # fs)" "t \<noteq> Leaf" "frame_color f = RB_RED" "insert_color_step e h = (e', h')"
  shows "RB_INSERT_COLOR e h = RB_INSERT_COLOR e' h'"
proof -
  have "rbe_parent h e = frame_node f" "frame_node f \<noteq> 0" "rbe_color h (frame_node f) = RB_RED"
    using assms by (cases t; cases f; auto simp: focus_def)+
  then show ?thesis
    using assms(4) RB_INSERT_COLOR.simps [of e h] by simp
qed

text \<open>One iteration: either the loop goes on two levels higher, or it is about to end.\<close>

definition climbed :: "addr list \<Rightarrow> nat \<Rightarrow> frame list \<Rightarrow> addr \<times> rbheap \<Rightarrow> bool" where
  "climbed xs n gs s \<longleftrightarrow>
     (\<exists>l a r. fst s = a \<and> focus (snd s) a (Node l (a, RB_RED) r) gs \<and> bal (Suc n) (Node l (a, RB_RED) r)
        \<and> nodes (Node l (a, RB_RED) r) = xs)"

definition turned :: "addr list \<Rightarrow> nat \<Rightarrow> frame list \<Rightarrow> addr \<times> rbheap \<Rightarrow> bool" where
  "turned xs n gs s \<longleftrightarrow>
     (\<exists>l a r k. fst s = a \<and> focus (snd s) a (Node l (a, RB_RED) r) (k # gs) \<and> bal n (Node l (a, RB_RED) r)
        \<and> frame_color k = RB_BLACK \<and> bal n (sibling k)
        \<and> nodes (refill (Node l (a, RB_RED) r) k) = xs)"

lemma insert_left_step:
  assumes at: "focus h a (Node (refill (Node l (e, RB_RED) r) f) (a, RB_BLACK) U) gs"
    and b: "bal n (Node l (e, RB_RED) r)" "bal n (sibling f)" "bal n U"
    and c: "frame_color f = RB_RED" "root_color (sibling f) = RB_BLACK"
  defines "xs \<equiv> nodes (Node (refill (Node l (e, RB_RED) r) f) (a, RB_BLACK) U)"
  shows "climbed xs n gs (insert_color_step e h) \<or> turned xs n gs (insert_color_step e h)"
proof (cases "root_color U = RB_RED")
  case True
  then obtain ul u ur where U: "U = Node ul (u, RB_RED) ur" by (cases U) auto
  then show ?thesis
    using insert_left_red [of h a l e RB_RED r f RB_BLACK ul u ur gs] at b c
    unfolding climbed_def xs_def by (cases f) fastforce+
next
  case False
  then have U: "root_color U = RB_BLACK" using b(3) by (cases U) (auto split: if_splits)
  show ?thesis
  proof (cases f)
    case (In_Left p d s)
    then obtain h' where "insert_color_step e h = (e, h')"
      "focus h' p (Node (Node l (e, RB_RED) r) (p, RB_BLACK) (Node s (a, RB_RED) U)) gs"
      using insert_left_outer [OF at [unfolded In_Left refill.simps] U] by blast
    then have "turned xs n gs (insert_color_step e h)"
      unfolding turned_def xs_def using b c In_Left U
      by (intro exI [of _ l] exI [of _ e] exI [of _ r] exI [of _ "In_Left p RB_BLACK (Node s (a, RB_RED) U)"])
         (simp add: focus_sub)
    then show ?thesis ..
  next
    case (In_Right p d s)
    then obtain h' where "insert_color_step e h = (p, h')"
      "focus h' e (Node (Node s (p, d) l) (e, RB_BLACK) (Node r (a, RB_RED) U)) gs"
      using insert_left_inner [OF at [unfolded In_Right refill.simps] U] by blast
    then have "turned xs n gs (insert_color_step e h)"
      unfolding turned_def xs_def using b c In_Right U
      by (intro exI [of _ s] exI [of _ p] exI [of _ l] exI [of _ "In_Left e RB_BLACK (Node r (a, RB_RED) U)"])
         (simp add: focus_sub)
    then show ?thesis ..
  qed
qed

lemma insert_right_step:
  assumes at: "focus h a (Node U (a, RB_BLACK) (refill (Node l (e, RB_RED) r) f)) gs"
    and b: "bal n (Node l (e, RB_RED) r)" "bal n (sibling f)" "bal n U"
    and c: "frame_color f = RB_RED" "root_color (sibling f) = RB_BLACK"
  defines "xs \<equiv> nodes (Node U (a, RB_BLACK) (refill (Node l (e, RB_RED) r) f))"
  shows "climbed xs n gs (insert_color_step e h) \<or> turned xs n gs (insert_color_step e h)"
proof (cases "root_color U = RB_RED")
  case True
  then obtain ul u ur where U: "U = Node ul (u, RB_RED) ur" by (cases U) auto
  then show ?thesis
    using insert_right_red [of h a ul u ur RB_BLACK l e RB_RED r f gs] at b c
    unfolding climbed_def xs_def by (cases f) fastforce+
next
  case False
  then have U: "root_color U = RB_BLACK" using b(3) by (cases U) (auto split: if_splits)
  show ?thesis
  proof (cases f)
    case (In_Right p d s)
    then obtain h' where "insert_color_step e h = (e, h')"
      "focus h' p (Node (Node U (a, RB_RED) s) (p, RB_BLACK) (Node l (e, RB_RED) r)) gs"
      using insert_right_outer [OF at [unfolded In_Right refill.simps] U] by blast
    then have "turned xs n gs (insert_color_step e h)"
      unfolding turned_def xs_def using b c In_Right U
      by (intro exI [of _ l] exI [of _ e] exI [of _ r] exI [of _ "In_Right p RB_BLACK (Node U (a, RB_RED) s)"])
         (simp add: focus_sub)
    then show ?thesis ..
  next
    case (In_Left p d s)
    then obtain h' where "insert_color_step e h = (p, h')"
      "focus h' e (Node (Node U (a, RB_RED) l) (e, RB_BLACK) (Node r (p, d) s)) gs"
      using insert_right_inner [OF at [unfolded In_Left refill.simps] U] by blast
    then have "turned xs n gs (insert_color_step e h)"
      unfolding turned_def xs_def using b c In_Left U
      by (intro exI [of _ r] exI [of _ p] exI [of _ s] exI [of _ "In_Right e RB_BLACK (Node U (a, RB_RED) l)"])
         (simp add: focus_sub)
    then show ?thesis ..
  qed
qed

lemma insert_color_step_spec:
  assumes f: "focus h e (Node l (e, RB_RED) r) (f # g # gs)" and b: "bal n (Node l (e, RB_RED) r)"
    and c: "cxt n (f # g # gs)" "frame_color f = RB_RED"
  defines "xs \<equiv> nodes (refill (refill (Node l (e, RB_RED) r) f) g)"
  shows "climbed xs n gs (insert_color_step e h) \<or> turned xs n gs (insert_color_step e h)"
proof -
  have at: "focus h (frame_node g) (refill (refill (Node l (e, RB_RED) r) f) g) gs"
    using focus_refill [OF focus_refill [OF f]] .
  show ?thesis
  proof (cases g)
    case (In_Left a d U)
    then show ?thesis
      using insert_left_step [of h a l e r f U gs n] at b c by (simp add: xs_def)
  next
    case (In_Right a d U)
    then show ?thesis
      using insert_right_step [of h a U l e r f gs n] at b c by (simp add: xs_def)
  qed
qed

lemma rb_insert_color:
  "focus h e (Node l (e, RB_RED) r) fs \<Longrightarrow> bal n (Node l (e, RB_RED) r) \<Longrightarrow> cxt n fs \<Longrightarrow>
     \<exists>h'. RB_INSERT_COLOR e h = Some h' \<and> settled (nodes (plug (Node l (e, RB_RED) r) fs)) h'"
proof (induction "List.length fs" arbitrary: h e l r fs n rule: less_induct)
  case less
  note f = less.prems(1) and b = less.prems(2) and c = less.prems(3)
  show ?case
  proof (cases "up_color fs = RB_BLACK")
    case True
    then show ?thesis by (rule rb_insert_color_last [OF f b c])
  next
    case False
    then obtain f1 g gs where fs: "fs = f1 # g # gs"
      using c by (cases fs rule: list.exhaust; cases "List.tl fs") (auto split: if_splits)
    have fc: "frame_color f1 = RB_RED" "cxt (Suc n) gs"
      using c False fs by (auto split: if_splits)
    let ?s = "insert_color_step e h"
    define xs where "xs = nodes (refill (refill (Node l (e, RB_RED) r) f1) g)"
    have go: "RB_INSERT_COLOR e h = RB_INSERT_COLOR (fst ?s) (snd ?s)"
      by (rule rb_insert_color_unfold [OF f [unfolded fs]]) (simp_all add: fc)
    have "climbed xs n gs ?s \<or> turned xs n gs ?s"
      unfolding xs_def by (rule insert_color_step_spec [OF f [unfolded fs] b c [unfolded fs] fc(1)])
    then show ?thesis
    proof
      assume "climbed xs n gs ?s"
      then obtain l' a r' where s: "fst ?s = a" "focus (snd ?s) a (Node l' (a, RB_RED) r') gs"
        "bal (Suc n) (Node l' (a, RB_RED) r')" "nodes (Node l' (a, RB_RED) r') = xs"
        unfolding climbed_def by blast
      show ?thesis
        using less.hyps [OF _ s(2,3) fc(2)] s(1) nodes_plug_cong [OF s(4) [unfolded xs_def], of gs]
        by (simp add: go fs)
    next
      assume "turned xs n gs ?s"
      then obtain l' a r' k where s: "fst ?s = a" "focus (snd ?s) a (Node l' (a, RB_RED) r') (k # gs)"
        "bal n (Node l' (a, RB_RED) r')" "frame_color k = RB_BLACK" "bal n (sibling k)"
        "nodes (refill (Node l' (a, RB_RED) r') k) = xs"
        unfolding turned_def by blast
      have "cxt n (k # gs)" using s fc(2) by simp
      then show ?thesis
        using rb_insert_color_last [OF s(2,3)] s nodes_plug_cong [OF s(6) [unfolded xs_def], of gs]
        by (simp add: go fs)
    qed
  qed
qed

end
