(* ===== verification/Tree_Order.thy ===== *)
theory Tree_Order
  imports Prelude
begin

text \<open>
  What the two kinds of tree of \<^verbatim>\<open>libuv/inc/tree.h\<close> have in common: the comparison they are
  instantiated with, and the contract of a set of nodes ordered by their keys. The locale
  \<open>node_set\<close> states the contract for the operations the macros generate; Tree_Sets interprets it
  with the red-black tree and with the splay tree.
\<close>

section \<open>Comparisons\<close>

text \<open>The comparison argument of the macros is a three-way comparison of keys.\<close>

definition cmp_ok :: "(addr \<Rightarrow> addr \<Rightarrow> int) \<Rightarrow> (addr \<Rightarrow> 'k::linorder) \<Rightarrow> bool" where
  "cmp_ok cmp key \<longleftrightarrow>
     (\<forall>a b. (cmp a b < 0 \<longleftrightarrow> key a < key b) \<and> (0 < cmp a b \<longleftrightarrow> key b < key a))"

definition key_cmp :: "(addr \<Rightarrow> 'k::linorder) \<Rightarrow> addr \<Rightarrow> addr \<Rightarrow> int" where
  "key_cmp key a b = (if key a < key b then - 1 else if key b < key a then 1 else 0)"

lemma key_cmp_ok: "cmp_ok (key_cmp key) key"
  by (auto simp: cmp_ok_def key_cmp_def)

lemma cmp_okD:
  "cmp_ok cmp key \<Longrightarrow> (cmp a b < 0) = (key a < key b) \<and> (0 < cmp a b) = (key b < key a)"
  by (simp add: cmp_ok_def)

definition found :: "addr option \<Rightarrow> addr" where
  "found r = (case r of None \<Rightarrow> 0 | Some x \<Rightarrow> x)"

text \<open>The node after a place in the order, \<^verbatim>\<open>NULL\<close> at the end.\<close>

definition next_of :: "addr list \<Rightarrow> addr" where
  "next_of ys = (case ys of [] \<Rightarrow> 0 | y # _ \<Rightarrow> y)"

lemma next_of_simps [simp]:
  "next_of [] = 0" "next_of (y # ys) = y" "xs \<noteq> [] \<Longrightarrow> next_of (xs @ ys) = next_of xs"
  by (simp_all add: next_of_def split: list.split)

lemma insort_key_between:
  "\<forall>x\<in>set xs. key x < key e \<Longrightarrow> \<forall>y\<in>set ys. key e < key y \<Longrightarrow>
     insort_key key e (xs @ ys) = xs @ e # ys"
proof (induction xs)
  case Nil
  then show ?case by (cases ys) auto
qed auto

lemma sorted_insert_between:
  "sorted_wrt (<) (map key (xs @ ys)) \<Longrightarrow> \<forall>x\<in>set xs. key x < key e \<Longrightarrow> \<forall>y\<in>set ys. key e < key y \<Longrightarrow>
     sorted_wrt (<) (map key (xs @ e # ys))" for key :: "addr \<Rightarrow> 'k::linorder"
  by (fastforce simp: sorted_wrt_append)

lemma find_append:
  "List.find P (xs @ ys) = (case List.find P xs of None \<Rightarrow> List.find P ys | Some x \<Rightarrow> Some x)"
  by (induction xs) auto

lemma find_none: "\<forall>x\<in>set xs. \<not> P x \<Longrightarrow> List.find P xs = None"
  by (simp add: find_None_iff)

lemma sorted_find:
  assumes "sorted_wrt (<) (map key xs)" "x \<in> set xs" "key x = (key e :: 'k::linorder)"
  shows "List.find (\<lambda>x. key x = key e) xs = Some x"
  using assms by (induction xs) auto

section \<open>Ordered sets of nodes\<close>

text \<open>A client that inserts a list of nodes.\<close>

primrec insert_nodes :: "(addr \<Rightarrow> 's \<Rightarrow> (addr \<times> 's) option) \<Rightarrow> addr list \<Rightarrow> 's \<Rightarrow> 's option" where
  "insert_nodes ins [] s = Some s"
| "insert_nodes ins (e # es) s = Option.bind (ins e s) (\<lambda>(r, s). insert_nodes ins es s)"

text \<open>
  \<open>repr s xs\<close> says that the state \<open>s\<close> holds the nodes \<open>xs\<close>, in order. An operation returns its
  result and the new state, or \<^term>\<open>None\<close> where it does not end.
\<close>

locale node_set =
  fixes repr :: "'s \<Rightarrow> addr list \<Rightarrow> bool"
    and key :: "addr \<Rightarrow> 'k::linorder"
    and usable :: "addr \<Rightarrow> bool"
    and insert_op :: "addr \<Rightarrow> 's \<Rightarrow> (addr \<times> 's) option"
    and remove_op :: "addr \<Rightarrow> 's \<Rightarrow> (addr \<times> 's) option"
    and find_op :: "addr \<Rightarrow> 's \<Rightarrow> (addr \<times> 's) option"
  assumes repr_sorted: "repr s xs \<Longrightarrow> sorted_wrt (<) (map key xs)"
    and repr_usable: "repr s xs \<Longrightarrow> x \<in> set xs \<Longrightarrow> usable x \<and> x \<noteq> 0"
    and insert_new: "repr s xs \<Longrightarrow> usable e \<Longrightarrow> key e \<notin> key ` set xs \<Longrightarrow>
      \<exists>s'. insert_op e s = Some (0, s') \<and> repr s' (insort_key key e xs)"
    and insert_old: "repr s xs \<Longrightarrow> x \<in> set xs \<Longrightarrow> usable e \<Longrightarrow> e \<notin> set xs \<Longrightarrow> key e = key x \<Longrightarrow>
      \<exists>s'. insert_op e s = Some (x, s') \<and> repr s' xs"
    and remove_member: "repr s xs \<Longrightarrow> e \<in> set xs \<Longrightarrow>
      \<exists>s'. remove_op e s = Some (e, s') \<and> repr s' (remove1 e xs)"
    and find_any: "repr s xs \<Longrightarrow> usable e \<Longrightarrow>
      \<exists>s'. find_op e s = Some (found (List.find (\<lambda>x. key x = key e) xs), s') \<and> repr s' xs"
begin

lemma insert_all_sorts:
  "repr s xs \<Longrightarrow> \<forall>e\<in>set es. usable e \<Longrightarrow> distinct (map key es) \<Longrightarrow> key ` set xs \<inter> key ` set es = {} \<Longrightarrow>
     \<exists>s'. insert_nodes insert_op es s = Some s' \<and> repr s' (fold (insort_key key) es xs)"
proof (induction es arbitrary: s xs)
  case (Cons e es)
  then obtain s1 where s1: "insert_op e s = Some (0, s1)" "repr s1 (insort_key key e xs)"
    using insert_new [of s xs e] by auto
  have "key ` set (insort_key key e xs) \<inter> key ` set es = {}"
    using Cons.prems by (auto simp: set_insort_key)
  then show ?case using Cons.IH [OF s1(2)] Cons.prems s1(1) by auto
qed simp

lemma insert_then_find:
  assumes "repr s xs" "usable e" "key e \<notin> key ` set xs" "insert_op e s = Some (r, s')"
  shows "\<exists>s''. find_op e s' = Some (e, s'') \<and> repr s'' (insort_key key e xs)"
proof -
  have s': "repr s' (insort_key key e xs)"
    using insert_new [OF assms(1-3)] assms(4) by auto
  have "List.find (\<lambda>x. key x = key e) (insort_key key e xs) = Some e"
    using sorted_find [OF repr_sorted [OF s']] by (simp add: set_insort_key)
  then show ?thesis using find_any [OF s' assms(2)] by (simp add: found_def)
qed

lemma insort_key_remove1:
  "sorted_wrt (<) (map key (insort_key key e xs)) \<Longrightarrow> e \<notin> set xs \<Longrightarrow> remove1 e (insort_key key e xs) = xs"
  by (induction xs) auto

lemma remove_inserted:
  assumes "repr s (insort_key key e xs)" "key e \<notin> key ` set xs"
  shows "\<exists>s'. remove_op e s = Some (e, s') \<and> repr s' xs"
proof -
  have "remove1 e (insort_key key e xs) = xs"
    using insort_key_remove1 [OF repr_sorted [OF assms(1)]] assms(2) by auto
  then show ?thesis using remove_member [OF assms(1), of e] by (simp add: set_insort_key)
qed

lemma insert_then_remove:
  assumes "repr s xs" "usable e" "key e \<notin> key ` set xs" "insert_op e s = Some (r, s')"
  shows "\<exists>s''. remove_op e s' = Some (e, s'') \<and> repr s'' xs"
  using insert_new [OF assms(1-3)] assms(4) remove_inserted [OF _ assms(3)] by auto

end

end
