(* ===== verification/Rb_Search.thy ===== *)
theory Rb_Search
  imports Rb_Insert Tree_Order
begin

text \<open>
  The order of the keys, and with it the operations that search: \<^verbatim>\<open>RB_INSERT\<close> as a whole,
  \<^verbatim>\<open>RB_FIND\<close>, \<^verbatim>\<open>RB_NFIND\<close>, \<^verbatim>\<open>RB_MINMAX\<close>, \<^verbatim>\<open>RB_NEXT\<close>, \<^verbatim>\<open>RB_PREV\<close> and the loops over a tree. The
  specification of each is over the list of the nodes in order.
\<close>

section \<open>Ordered trees\<close>

definition rb_tree :: "(addr \<Rightarrow> 'k::linorder) \<Rightarrow> rbheap \<Rightarrow> ctree \<Rightarrow> bool" where
  "rb_tree key h t \<longleftrightarrow>
     focus h (rbh_root h) t [] \<and> bal (bheight t) t \<and> root_color t = RB_BLACK
     \<and> sorted_wrt (<) (map key (nodes t))"

fun before :: "frame list \<Rightarrow> addr list" where
  "before [] = []"
| "before (In_Left a c r # fs) = before fs"
| "before (In_Right a c l # fs) = before fs @ nodes l @ [a]"

fun after :: "frame list \<Rightarrow> addr list" where
  "after [] = []"
| "after (In_Left a c r # fs) = a # nodes r @ after fs"
| "after (In_Right a c l # fs) = after fs"

lemma nodes_plug_split: "nodes (plug t fs) = before fs @ nodes t @ after fs"
proof (induction fs arbitrary: t)
  case (Cons f fs)
  then show ?case by (cases f) auto
qed simp

lemma settled_rb_tree:
  assumes "settled xs h" "sorted_wrt (<) (map key xs)"
  shows "\<exists>t. rb_tree key h t \<and> nodes t = xs"
  using assms bal_bheight unfolding settled_def rb_tree_def by metis

lemma rb_tree_init: "rb_tree key (RB_INIT h) Leaf"
  by (simp add: rb_tree_def RB_INIT_def focus_def nodes_def)

lemma rb_tree_empty: "rb_tree key h t \<Longrightarrow> RB_EMPTY h \<longleftrightarrow> nodes t = []"
  by (cases t) (auto simp: rb_tree_def RB_EMPTY_def focus_def)

subsection \<open>Height\<close>

lemma bal_height:
  "bal n t \<Longrightarrow> height t \<le> 2 * n + (if root_color t = RB_RED then 1 else 0)"
proof (induction n t rule: bal.induct)
  case (2 n l a c r)
  then show ?case by (cases "c = RB_BLACK") (auto split: if_splits)
qed simp

lemma bal_size: "bal n t \<Longrightarrow> 2 ^ n \<le> size1 t"
proof (induction n t rule: bal.induct)
  case (2 n l a c r)
  show ?case
  proof (cases "c = RB_BLACK")
    case True
    then obtain m where "n = Suc m" "2 ^ m \<le> size1 l" "2 ^ m \<le> size1 r"
      using 2 by (cases n) auto
    then show ?thesis by simp
  next
    case False
    then have "2 ^ n \<le> size1 l" using 2 by simp
    then show ?thesis by simp
  qed
qed simp

lemma length_nodes: "List.length (nodes t) = size t"
  by (simp add: nodes_def)

lemma rb_tree_height:
  assumes "rb_tree key h t"
  shows "2 ^ height t \<le> (List.length (nodes t) + 1) ^ 2"
proof -
  have "height t \<le> 2 * bheight t"
    using bal_height [of "bheight t" t] assms by (simp add: rb_tree_def)
  then have "(2::nat) ^ height t \<le> (2 ^ bheight t) ^ 2"
    by (metis power_increasing [of _ _ "2::nat"] one_le_numeral power_mult mult.commute)
  also have "2 ^ bheight t \<le> List.length (nodes t) + 1"
    using bal_size [of "bheight t" t] assms by (simp add: rb_tree_def length_nodes size1_size)
  then have "(2 ^ bheight t) ^ 2 \<le> (List.length (nodes t) + 1) ^ 2"
    by (rule power_mono) simp
  finally show ?thesis .
qed

section \<open>Insertion\<close>

definition placed :: "(addr \<Rightarrow> 'k::linorder) \<Rightarrow> addr \<Rightarrow> frame list \<Rightarrow> bool" where
  "placed key e fs \<longleftrightarrow> (\<forall>x\<in>set (before fs). key x < key e) \<and> (\<forall>x\<in>set (after fs). key e < key x)"

definition side_ok :: "int \<Rightarrow> frame list \<Rightarrow> bool" where
  "side_ok side fs \<longleftrightarrow>
     (case fs of [] \<Rightarrow> True | In_Left a c r # _ \<Rightarrow> side < 0 | In_Right a c l # _ \<Rightarrow> \<not> side < 0)"

definition search_ends ::
    "(addr \<Rightarrow> 'k::linorder) \<Rightarrow> addr \<Rightarrow> rbheap \<Rightarrow> ctree \<Rightarrow> addr + addr \<times> int \<Rightarrow> bool" where
  "search_ends key e h t res \<longleftrightarrow>
     (case res of
        Inl x \<Rightarrow> x \<in> set (nodes t) \<and> key x = key e
      | Inr (parent, side) \<Rightarrow>
          (\<exists>fs. parent = up fs \<and> focus h 0 Leaf fs \<and> plug Leaf fs = t \<and> placed key e fs \<and> side_ok side fs))"

lemma insert_search_spec:
  assumes cmp: "cmp_ok cmp key"
  shows "focus h p t fs \<Longrightarrow> sorted_wrt (<) (map key (nodes t)) \<Longrightarrow> placed key e fs \<Longrightarrow> side_ok side fs \<Longrightarrow>
    \<exists>res. insert_search cmp e h p (up fs) side = Some res \<and> search_ends key e h (plug t fs) res"
proof (induction t arbitrary: p fs side)
  case Leaf
  then have "p = 0" by (simp add: focus_def)
  then show ?case
    using Leaf by (auto simp: insert_search.simps [of cmp e h] search_ends_def)
next
  case (Node l x r)
  obtain a c where x: "x = (a, c)" by fastforce
  note f = Node.prems(1) [unfolded x]
  have p: "p = a" "a \<noteq> 0" using focus_node [OF f] by auto
  have k: "cmp e a < 0 \<longleftrightarrow> key e < key a" "0 < cmp e a \<longleftrightarrow> key a < key e"
    using cmp by (auto simp: cmp_ok_def)
  have srt: "sorted_wrt (<) (map key (nodes l))" "sorted_wrt (<) (map key (nodes r))"
    "\<forall>y\<in>set (nodes l). key y < key a" "\<forall>y\<in>set (nodes r). key a < key y"
    using Node.prems(2) x by (auto simp: sorted_wrt_append)
  show ?case
  proof (cases rule: linorder_cases [of "key e" "key a"])
    case less
    let ?fs = "In_Left a c r # fs"
    have "placed key e ?fs" using Node.prems(3) srt less by (auto simp: placed_def intro: order.strict_trans)
    moreover have "side_ok (cmp e a) ?fs" using k less by (simp add: side_ok_def)
    ultimately obtain res where
      "insert_search cmp e h (rbe_left h a) (up ?fs) (cmp e a) = Some res"
      "search_ends key e h (plug l ?fs) res"
      using Node.IH(1) [OF focus_children(1) [OF f, unfolded p(1)] srt(1)] focus_children(1) [OF f] p
      by fastforce
    then show ?thesis
      using k less p x by (simp add: insert_search.simps [of cmp e h a])
  next
    case greater
    let ?fs = "In_Right a c l # fs"
    have "placed key e ?fs" using Node.prems(3) srt greater by (auto simp: placed_def intro: order.strict_trans)
    moreover have "side_ok (cmp e a) ?fs" using k greater by (simp add: side_ok_def)
    ultimately obtain res where
      "insert_search cmp e h (rbe_right h a) (up ?fs) (cmp e a) = Some res"
      "search_ends key e h (plug r ?fs) res"
      using Node.IH(2) [OF focus_children(2) [OF f, unfolded p(1)] srt(2)] focus_children(2) [OF f] p
      by fastforce
    then show ?thesis
      using k greater p x by (simp add: insert_search.simps [of cmp e h a])
  next
    case equal
    then have "insert_search cmp e h p (up fs) side = Some (Inl a)"
      using k p by (simp add: insert_search.simps [of cmp e h a])
    then show ?thesis using equal x by (simp add: search_ends_def set_nodes_plug)
  qed
qed

lemma insert_link_focus:
  assumes f: "focus h 0 Leaf fs" and e: "e \<noteq> 0" "e \<notin> set (above_nodes fs)" and s: "side_ok side fs"
  shows "focus (insert_link e (up fs) side h) e (Node Leaf (e, RB_RED) Leaf) fs"
proof (cases fs)
  case Nil
  then show ?thesis using e by (simp add: focus_def insert_link_def RB_SET_def Let_def)
next
  case (Cons g gs)
  have "up fs \<noteq> 0" using f Cons by (cases g) (simp_all add: focus_def)
  then show ?thesis
    using f e s Cons by (cases g) (simp_all add: focus_def insert_link_def RB_SET_def Let_def side_ok_def)
qed

lemma rb_insert_result:
  assumes t: "rb_tree key h t" and cmp: "cmp_ok cmp key" and e: "e \<noteq> 0" "e \<notin> set (nodes t)"
  shows "if \<exists>x\<in>set (nodes t). key x = key e
    then \<exists>x\<in>set (nodes t). key x = key e \<and> RB_INSERT cmp e h = Some (x, h)
    else \<exists>h' t'. RB_INSERT cmp e h = Some (0, h') \<and> rb_tree key h' t' \<and> nodes t' = insort_key key e (nodes t)"
proof -
  have f: "focus h (rbh_root h) t []" and b: "bal (bheight t) t" "root_color t = RB_BLACK"
    and s: "sorted_wrt (<) (map key (nodes t))"
    using t by (auto simp: rb_tree_def)
  obtain res where res: "insert_search cmp e h (rbh_root h) 0 0 = Some res" "search_ends key e h t res"
    using insert_search_spec [OF cmp f s, of e 0] by (auto simp: placed_def side_ok_def)
  show ?thesis
  proof (cases res)
    case (Inl x)
    then show ?thesis using res by (auto simp: RB_INSERT_def search_ends_def)
  next
    case (Inr q)
    then obtain fs side where q: "q = (up fs, side)" and fs: "focus h 0 Leaf fs" "plug Leaf fs = t"
      "placed key e fs" "side_ok side fs"
      using res by (cases q) (auto simp: search_ends_def)
    have n: "nodes t = before fs @ after fs"
      using nodes_plug_split [of Leaf fs] fs(2) by simp
    then have new: "\<not> (\<exists>x\<in>set (nodes t). key x = key e)"
      using fs(3) by (auto simp: placed_def)
    have "set (above_nodes fs) = set (nodes t)"
      using set_nodes_plug [of Leaf fs] fs(2) by simp
    then have l: "focus (insert_link e (up fs) side h) e (Node Leaf (e, RB_RED) Leaf) fs"
      using insert_link_focus [OF fs(1) e(1) _ fs(4)] e by simp
    obtain m where m: "bal m (Leaf :: ctree)" "cxt m fs"
      using unplug_bal [of _ Leaf fs] b fs(2) by auto
    then obtain h' where h': "RB_INSERT_COLOR e (insert_link e (up fs) side h) = Some h'"
      "settled (nodes (plug (Node Leaf (e, RB_RED) Leaf) fs)) h'"
      using rb_insert_color [OF l _ m(2)] by auto
    have ord: "nodes (plug (Node Leaf (e, RB_RED) Leaf) fs) = before fs @ e # after fs"
      by (simp add: nodes_plug_split)
    have "sorted_wrt (<) (map key (before fs @ e # after fs))"
      using s fs(3) n by (intro sorted_insert_between) (auto simp: placed_def)
    then obtain t' where "rb_tree key h' t'" "nodes t' = before fs @ e # after fs"
      using settled_rb_tree [OF h'(2)] ord by auto
    moreover have "insort_key key e (nodes t) = before fs @ e # after fs"
      using fs(3) n insort_key_between by (auto simp: placed_def)
    ultimately show ?thesis
      using new h'(1) res(1) Inr q by (auto simp: RB_INSERT_def)
  qed
qed

end
