(* ===== verification/Rb_Walk.thy ===== *)
theory Rb_Walk
  imports Rb_Search
begin

text \<open>
  Searching and walking through a red-black tree: each operation returns, and its result is
  told by the list of the nodes in order.
\<close>

section \<open>Searching\<close>

lemma rb_find_loop_spec:
  assumes cmp: "cmp_ok cmp key"
  shows "shape h par p t \<Longrightarrow> sorted_wrt (<) (map key (nodes t)) \<Longrightarrow>
    rb_find_loop cmp e h p = Some (found (List.find (\<lambda>x. key x = key e) (nodes t)))"
proof (induction t arbitrary: par p)
  case Leaf
  then show ?case by (simp add: rb_find_loop.simps [of cmp e h] found_def)
next
  case (Node l x r)
  obtain a c where x: "x = (a, c)" by fastforce
  have k: "cmp e a < 0 \<longleftrightarrow> key e < key a" "0 < cmp e a \<longleftrightarrow> key a < key e"
    using cmp by (auto simp: cmp_ok_def)
  have srt: "sorted_wrt (<) (map key (nodes l))" "sorted_wrt (<) (map key (nodes r))"
    "\<forall>y\<in>set (nodes l). key y < key a" "\<forall>y\<in>set (nodes r). key a < key y"
    using Node.prems(2) x by (auto simp: sorted_wrt_append)
  have sub: "p = a" "a \<noteq> 0" "shape h a (rbe_left h a) l" "shape h a (rbe_right h a) r"
    using Node.prems(1) x by auto
  note ih = Node.IH(1) [OF sub(3) srt(1)] Node.IH(2) [OF sub(4) srt(2)]
  show ?case
  proof (cases rule: linorder_cases [of "key e" "key a"])
    case less
    then have "List.find (\<lambda>x. key x = key e) (nodes r) = None"
      using srt(4) by (intro find_none) (auto dest: order.strict_trans)
    moreover have "key a \<noteq> key e" using less by simp
    ultimately show ?thesis
      using less k sub x ih by (simp add: rb_find_loop.simps [of cmp e h a] find_append split: option.split)
  next
    case greater
    then have "List.find (\<lambda>x. key x = key e) (nodes l) = None"
      using srt(3) by (intro find_none) (auto dest: order.strict_trans)
    moreover have "key a \<noteq> key e" using greater by simp
    ultimately show ?thesis
      using greater k sub x ih by (simp add: rb_find_loop.simps [of cmp e h a] find_append)
  next
    case equal
    then have "List.find (\<lambda>x. key x = key e) (nodes l) = None"
      using srt(3) by (intro find_none) auto
    then show ?thesis
      using equal k sub x by (simp add: rb_find_loop.simps [of cmp e h a] find_append found_def)
  qed
qed

lemma rb_find_result:
  "rb_tree key h t \<Longrightarrow> cmp_ok cmp key \<Longrightarrow>
     RB_FIND cmp e h = Some (found (List.find (\<lambda>x. key x = key e) (nodes t)))"
  unfolding RB_FIND_def rb_tree_def focus_def by (blast intro: rb_find_loop_spec)

definition found_or :: "addr \<Rightarrow> addr option \<Rightarrow> addr" where
  "found_or d r = (case r of None \<Rightarrow> d | Some x \<Rightarrow> x)"

lemma rb_nfind_loop_spec:
  assumes cmp: "cmp_ok cmp key"
  shows "shape h par p t \<Longrightarrow> sorted_wrt (<) (map key (nodes t)) \<Longrightarrow>
    rb_nfind_loop cmp e h p res = Some (found_or res (List.find (\<lambda>x. key e \<le> key x) (nodes t)))"
proof (induction t arbitrary: par p res)
  case Leaf
  then show ?case by (simp add: rb_nfind_loop.simps [of cmp e h] found_or_def)
next
  case (Node l x r)
  obtain a c where x: "x = (a, c)" by fastforce
  have k: "cmp e a < 0 \<longleftrightarrow> key e < key a" "0 < cmp e a \<longleftrightarrow> key a < key e"
    using cmp by (auto simp: cmp_ok_def)
  have srt: "sorted_wrt (<) (map key (nodes l))" "sorted_wrt (<) (map key (nodes r))"
    "\<forall>y\<in>set (nodes l). key y < key a" "\<forall>y\<in>set (nodes r). key a < key y"
    using Node.prems(2) x by (auto simp: sorted_wrt_append)
  have sub: "p = a" "a \<noteq> 0" "shape h a (rbe_left h a) l" "shape h a (rbe_right h a) r"
    using Node.prems(1) x by auto
  note ih = Node.IH(1) [OF sub(3) srt(1)] Node.IH(2) [OF sub(4) srt(2)]
  show ?case
  proof (cases rule: linorder_cases [of "key e" "key a"])
    case less
    moreover have "key e \<le> key a" using less by simp
    ultimately show ?thesis
      using k sub x ih
      by (simp add: rb_nfind_loop.simps [of cmp e h a] find_append found_or_def split: option.split)
  next
    case greater
    then have "List.find (\<lambda>x. key e \<le> key x) (nodes l) = None"
      using srt(3) by (intro find_none) (auto dest: order.strict_trans)
    moreover have "\<not> key e \<le> key a" using greater by simp
    ultimately show ?thesis
      using greater k sub x ih by (simp add: rb_nfind_loop.simps [of cmp e h a] find_append)
  next
    case equal
    then have "List.find (\<lambda>x. key e \<le> key x) (nodes l) = None"
      using srt(3) by (intro find_none) auto
    then show ?thesis
      using equal k sub x by (simp add: rb_nfind_loop.simps [of cmp e h a] find_append found_or_def)
  qed
qed

lemma rb_nfind_result:
  "rb_tree key h t \<Longrightarrow> cmp_ok cmp key \<Longrightarrow>
     RB_NFIND cmp e h = Some (found (List.find (\<lambda>x. key e \<le> key x) (nodes t)))"
  using rb_nfind_loop_spec [of cmp key h 0 "rbh_root h" t e 0]
  by (simp add: RB_NFIND_def rb_tree_def focus_def found_def found_or_def)

section \<open>Walking\<close>

lemma nodes_empty [simp]: "nodes t = [] \<longleftrightarrow> t = Leaf"
  by (cases t) auto

lemma down_left_spec: "shape h par p t \<Longrightarrow> t \<noteq> Leaf \<Longrightarrow> down_left h p = Some (next_of (nodes t))"
proof (induction t arbitrary: par p)
  case (Node l x r)
  obtain a c where x: "x = (a, c)" by fastforce
  have sub: "p = a" "shape h a (rbe_left h a) l" using Node.prems x by auto
  show ?case
  proof (cases "l = Leaf")
    case True
    then show ?thesis using sub x by (simp add: down_left.simps [of h a])
  next
    case False
    then have "rbe_left h a \<noteq> 0" using sub by (cases l) auto
    then show ?thesis using Node.IH(1) [OF sub(2) False] sub x False by (simp add: down_left.simps [of h a])
  qed
qed simp

lemma down_right_spec: "shape h par p t \<Longrightarrow> t \<noteq> Leaf \<Longrightarrow> down_right h p = Some (next_of (rev (nodes t)))"
proof (induction t arbitrary: par p)
  case (Node l x r)
  obtain a c where x: "x = (a, c)" by fastforce
  have sub: "p = a" "shape h a (rbe_right h a) r" using Node.prems x by auto
  show ?case
  proof (cases "r = Leaf")
    case True
    then show ?thesis using sub x by (simp add: down_right.simps [of h a])
  next
    case False
    then have "rbe_right h a \<noteq> 0" using sub by (cases r) auto
    then show ?thesis using Node.IH(2) [OF sub(2) False] sub x False by (simp add: down_right.simps [of h a])
  qed
qed simp

text \<open>The side of a position, as the code tests it.\<close>

lemma focus_side:
  assumes "focus h p t (f # fs)" "t \<noteq> Leaf"
  shows "rbe_parent h p = frame_node f" "frame_node f \<noteq> 0"
    "rbe_left h (frame_node f) = p \<longleftrightarrow> (\<exists>a c r. f = In_Left a c r)"
    "rbe_right h (frame_node f) = p \<longleftrightarrow> (\<exists>a c l. f = In_Right a c l)"
proof -
  obtain l b e r where t: "t = Node l (b, e) r" using assms(2) by (cases t) auto
  note node = focus_node [OF assms(1) [unfolded t]]
  have p: "p \<noteq> 0" "p \<in> set (nodes t)" using node t by auto
  have d: "set (nodes t) \<inter> set (frame_nodes f) = {}" using assms by (auto simp: focus_def)
  show "rbe_parent h p = frame_node f" using node by simp
  show "frame_node f \<noteq> 0" using assms(1) by (cases f) (simp_all add: focus_def)
  show "rbe_left h (frame_node f) = p \<longleftrightarrow> (\<exists>a c r. f = In_Left a c r)"
  proof (cases f)
    case (In_Right a c l)
    then have "shape h a (rbe_left h a) l" "p \<notin> set (nodes l)"
      using assms p d by (auto simp: focus_def)
    then show ?thesis using In_Right sibling_differs p by auto
  qed (use assms in \<open>simp add: focus_def\<close>)
  show "rbe_right h (frame_node f) = p \<longleftrightarrow> (\<exists>a c l. f = In_Right a c l)"
  proof (cases f)
    case (In_Left a c r)
    then have "shape h a (rbe_right h a) r" "p \<notin> set (nodes r)"
      using assms p d by (auto simp: focus_def)
    then show ?thesis using In_Left sibling_differs p by auto
  qed (use assms in \<open>simp add: focus_def\<close>)
qed

lemma focus_no_parent: "focus h p t [] \<Longrightarrow> t \<noteq> Leaf \<Longrightarrow> rbe_parent h p = 0"
  by (cases t) (auto simp: focus_def)

lemma refill_not_leaf: "refill t f \<noteq> Leaf"
  by (cases f) auto

lemma up_from_right_spec:
  "focus h p t fs \<Longrightarrow> t \<noteq> Leaf \<Longrightarrow> up_from_right h p = Some (next_of (after fs))"
proof (induction fs arbitrary: p t)
  case Nil
  then show ?case using focus_no_parent by (simp add: up_from_right.simps [of h p])
next
  case (Cons f fs)
  note side = focus_side [OF Cons.prems]
  note ih = Cons.IH [OF focus_refill [OF Cons.prems(1)] refill_not_leaf]
  show ?case
    using side ih by (cases f) (auto simp: up_from_right.simps [of h p])
qed

lemma up_from_left_spec:
  "focus h p t fs \<Longrightarrow> t \<noteq> Leaf \<Longrightarrow> up_from_left h p = Some (next_of (rev (before fs)))"
proof (induction fs arbitrary: p t)
  case Nil
  then show ?case using focus_no_parent by (simp add: up_from_left.simps [of h p])
next
  case (Cons f fs)
  note side = focus_side [OF Cons.prems]
  note ih = Cons.IH [OF focus_refill [OF Cons.prems(1)] refill_not_leaf]
  show ?case
    using side ih by (cases f) (auto simp: up_from_left.simps [of h p])
qed

lemma rb_next_at:
  assumes f: "focus h a (Node l (a, c) r) fs"
  shows "RB_NEXT a h = Some (next_of (nodes r @ after fs))"
proof (cases "r = Leaf")
  case False
  then have "rbe_right h a \<noteq> 0" using focus_nonzero [OF focus_children(2) [OF f]] by simp
  then show ?thesis
    using down_left_spec [OF focus_reads(2) [OF f] False] False by (simp add: RB_NEXT_def)
next
  case True
  then have r: "rbe_right h a = 0" using f by (simp add: focus_def)
  have "next_of (after fs) = rbe_parent h a"
    if "rbe_parent h a \<noteq> 0" "a = rbe_left h (rbe_parent h a)"
  proof (cases fs)
    case Nil
    then show ?thesis using focus_no_parent f that by auto
  next
    case (Cons g gs)
    then show ?thesis using focus_side [OF f [unfolded Cons]] that by auto
  qed
  then show ?thesis
    using up_from_right_spec [OF f] True r by (simp add: RB_NEXT_def)
qed

lemma rb_prev_at:
  assumes f: "focus h a (Node l (a, c) r) fs"
  shows "RB_PREV a h = Some (next_of (rev (before fs @ nodes l)))"
proof (cases "l = Leaf")
  case False
  then have "rbe_left h a \<noteq> 0" using focus_nonzero [OF focus_children(1) [OF f]] by simp
  then show ?thesis
    using down_right_spec [OF focus_reads(1) [OF f] False] False by (simp add: RB_PREV_def)
next
  case True
  then have l: "rbe_left h a = 0" using f by (simp add: focus_def)
  have "next_of (rev (before fs)) = rbe_parent h a"
    if "rbe_parent h a \<noteq> 0" "a = rbe_right h (rbe_parent h a)"
  proof (cases fs)
    case Nil
    then show ?thesis using focus_no_parent f that by auto
  next
    case (Cons g gs)
    then show ?thesis using focus_side [OF f [unfolded Cons]] that by auto
  qed
  then show ?thesis
    using up_from_left_spec [OF f] True l by (simp add: RB_PREV_def)
qed

text \<open>Every node is at a position.\<close>

lemma node_position: "a \<in> set (nodes t) \<Longrightarrow> \<exists>l c r fs. t = plug (Node l (a, c) r) fs"
proof (induction t)
  case (Node l x r)
  obtain b d where x: "x = (b, d)" by fastforce
  consider "a = b" | "a \<in> set (nodes l)" | "a \<in> set (nodes r)" using Node.prems x by auto
  then show ?case
  proof cases
    case 1
    then show ?thesis using x by (intro exI [of _ l] exI [of _ d] exI [of _ r] exI [of _ "[]"]) simp
  next
    case 2
    then obtain l' c r' fs where "l = plug (Node l' (a, c) r') fs" using Node.IH by blast
    then have "Node l x r = plug (Node l' (a, c) r') (fs @ [In_Left b d r])" using x by simp
    then show ?thesis by blast
  next
    case 3
    then obtain l' c r' fs where "r = plug (Node l' (a, c) r') fs" using Node.IH by blast
    then have "Node l x r = plug (Node l' (a, c) r') (fs @ [In_Right b d l])" using x by simp
    then show ?thesis by blast
  qed
qed simp

lemma node_focus:
  assumes f: "focus h (rbh_root h) t []" and n: "nodes t = xs @ a # ys"
  shows "\<exists>l c r fs. focus h a (Node l (a, c) r) fs \<and> t = plug (Node l (a, c) r) fs
           \<and> xs = before fs @ nodes l \<and> ys = nodes r @ after fs"
proof -
  obtain l c r fs where t: "t = plug (Node l (a, c) r) fs" using node_position [of a t] n by auto
  then obtain p where "focus h p (Node l (a, c) r) (fs @ [])" using focus_down f by blast
  then have p: "focus h a (Node l (a, c) r) fs" using focus_node by fastforce
  have d: "distinct (nodes t)" using f by (simp add: focus_def)
  have "nodes t = (before fs @ nodes l) @ a # (nodes r @ after fs)"
    using nodes_plug_split [of "Node l (a, c) r" fs] t by simp
  then have "xs = before fs @ nodes l \<and> ys = nodes r @ after fs"
    using n d by (metis append_Cons_eq_iff distinct_append disjoint_iff list.set_intros(1) distinct.simps(2))
  then show ?thesis using t p by blast
qed

lemma rb_next_result:
  "rb_tree key h t \<Longrightarrow> nodes t = xs @ a # ys \<Longrightarrow> RB_NEXT a h = Some (next_of ys)"
  unfolding rb_tree_def using node_focus rb_next_at by blast

lemma rb_prev_result:
  "rb_tree key h t \<Longrightarrow> nodes t = xs @ a # ys \<Longrightarrow> RB_PREV a h = Some (next_of (rev xs))"
  unfolding rb_tree_def using node_focus rb_prev_at by blast

lemma rb_minmax_loop_spec:
  "shape h par p t \<Longrightarrow>
     rb_minmax_loop val h p q =
       Some (if t = Leaf then q else next_of (if val < 0 then nodes t else rev (nodes t)))"
proof (induction t arbitrary: par p q)
  case Leaf
  then show ?case by (simp add: rb_minmax_loop.simps [of val h])
next
  case (Node l x r)
  obtain a c where x: "x = (a, c)" by fastforce
  have sub: "p = a" "a \<noteq> 0" "shape h a (rbe_left h a) l" "shape h a (rbe_right h a) r"
    using Node.prems x by auto
  show ?case
    using Node.IH(1) [OF sub(3), of a] Node.IH(2) [OF sub(4), of a] sub x
    by (simp add: rb_minmax_loop.simps [of val h a])
qed

lemma rb_minmax_result:
  "rb_tree key h t \<Longrightarrow> RB_MINMAX val h = Some (next_of (if val < 0 then nodes t else rev (nodes t)))"
  using rb_minmax_loop_spec [of h 0 "rbh_root h" t val 0]
  by (auto simp: RB_MINMAX_def rb_tree_def focus_def)

lemma rb_foreach_from_spec:
  "rb_tree key h t \<Longrightarrow> nodes t = xs @ ys \<Longrightarrow> rb_foreach_from h (next_of ys) = Some ys"
proof (induction ys arbitrary: xs)
  case Nil
  then show ?case by (simp add: rb_foreach_from.simps [of h])
next
  case (Cons y ys)
  have "y \<noteq> 0" using Cons.prems focus_nonzeros by (fastforce simp: rb_tree_def)
  moreover have "RB_NEXT y h = Some (next_of ys)" using rb_next_result Cons.prems by blast
  moreover have "rb_foreach_from h (next_of ys) = Some ys" using Cons.IH [of "xs @ [y]"] Cons.prems by simp
  ultimately show ?case by (simp add: rb_foreach_from.simps [of h y])
qed

lemma rb_foreach_result: "rb_tree key h t \<Longrightarrow> RB_FOREACH h = Some (nodes t)"
  using rb_foreach_from_spec [of key h t "[]"] rb_minmax_result [of key h t RB_NEGINF]
  by (simp add: RB_FOREACH_def RB_NEGINF_def)

lemma rb_foreach_back_spec:
  "rb_tree key h t \<Longrightarrow> rev (nodes t) = xs @ ys \<Longrightarrow> rb_foreach_back h (next_of ys) = Some ys"
proof (induction ys arbitrary: xs)
  case Nil
  then show ?case by (simp add: rb_foreach_back.simps [of h])
next
  case (Cons y ys)
  have n: "nodes t = rev ys @ y # rev xs" using Cons.prems(2) by (simp add: rev_swap)
  have "y \<noteq> 0" using Cons.prems n focus_nonzeros by (fastforce simp: rb_tree_def)
  moreover have "RB_PREV y h = Some (next_of ys)" using rb_prev_result [OF Cons.prems(1) n] by simp
  moreover have "rb_foreach_back h (next_of ys) = Some ys" using Cons.IH [of "xs @ [y]"] Cons.prems by simp
  ultimately show ?case by (simp add: rb_foreach_back.simps [of h y])
qed

lemma rb_foreach_reverse_result: "rb_tree key h t \<Longrightarrow> RB_FOREACH_REVERSE h = Some (rev (nodes t))"
  using rb_foreach_back_spec [of key h t "[]"] rb_minmax_result [of key h t RB_INF]
  by (simp add: RB_FOREACH_REVERSE_def RB_INF_def)

end
