(* ===== verification/Rb_Remove.thy ===== *)
theory Rb_Remove
  imports Rb_Walk
begin

text \<open>
  \<^verbatim>\<open>RB_REMOVE\<close>: unlinking a node, or its successor that then takes its place, and the climbing
  loop of \<^verbatim>\<open>RB_REMOVE_COLOR\<close>, which repairs a subtree whose black height is one too small.
\<close>

section \<open>Repairing the black height\<close>

text \<open>
  What one iteration of the loop does to a tree with nodes \<open>xs\<close>: it leaves the loop with a
  balanced tree, or it moves the deficit to a position that is higher up, or that is red.
\<close>

definition repaired :: "addr list \<Rightarrow> bool \<times> addr \<times> addr \<times> rbheap \<Rightarrow> bool" where
  "repaired xs s \<longleftrightarrow>
     (case s of (stop, u, p, h) \<Rightarrow>
        stop \<and> p = rbh_root h \<and> (\<exists>t n. focus h p t [] \<and> t \<noteq> Leaf \<and> bal n t \<and> nodes t = xs))"

definition deficit :: "nat \<Rightarrow> ctree \<Rightarrow> bool" where
  "deficit n t \<longleftrightarrow> (if root_color t = RB_RED then bal n (left t) \<and> bal n (right t) else bal n t)"

definition moved_up :: "addr list \<Rightarrow> nat \<Rightarrow> bool \<times> addr \<times> addr \<times> rbheap \<Rightarrow> bool" where
  "moved_up xs k s \<longleftrightarrow>
     (case s of (stop, u, p, h) \<Rightarrow>
        \<not> stop \<and> (\<exists>t fs n. u = up fs \<and> focus h p t fs \<and> deficit n t \<and> cxt (Suc n) fs \<and> nodes (plug t fs) = xs
                      \<and> (List.length fs < k \<or> root_color t = RB_RED)))"

lemma repairedI:
  assumes f: "focus h q t fs" and b: "bal n t" "cxt n fs" "fits t fs" "t \<noteq> Leaf"
    and xs: "nodes (plug t fs) = xs"
  shows "repaired xs (True, u, rbh_root h, h)"
  using focus_to_root [OF f] plug_bal [OF b(1,2,3)] plug_node [OF b(4)] xs
  unfolding repaired_def by auto

lemma moved_upI:
  assumes "focus h p t fs" "deficit n t" "cxt (Suc n) fs"
    and "List.length fs < k \<or> root_color t = RB_RED" "nodes (plug t fs) = xs"
  shows "moved_up xs k (False, up fs, p, h)"
  using assms unfolding moved_up_def by auto

text \<open>The context of the parent \<open>a\<close>, whose colour is \<open>c\<close> and whose children have black height \<open>n\<close>.\<close>

definition parent_cxt :: "int \<Rightarrow> nat \<Rightarrow> frame list \<Rightarrow> bool" where
  "parent_cxt c n gs \<longleftrightarrow>
     c = RB_BLACK \<and> cxt (Suc n) gs \<or> c = RB_RED \<and> cxt n gs \<and> gs \<noteq> [] \<and> up_color gs = RB_BLACK"

lemma repaired_top:
  assumes "focus h s (Node l (s, c) r) gs" "parent_cxt c n gs" "bal n l" "bal n r"
    and "root_color l = RB_BLACK" "root_color r = RB_BLACK"
    and "nodes (Node l (s, c) r) = nodes t"
  shows "repaired (nodes (plug t gs)) (True, u, rbh_root h, h)"
  using assms(2)
  unfolding parent_cxt_def
proof (elim disjE conjE)
  assume "c = RB_BLACK" "cxt (Suc n) gs"
  then show ?thesis
    using assms nodes_plug_cong [OF assms(7), of gs]
    by (intro repairedI [OF assms(1), of "Suc n"]) (auto simp: fits_def)
next
  assume "c = RB_RED" "cxt n gs" "gs \<noteq> []" "up_color gs = RB_BLACK"
  then show ?thesis
    using assms nodes_plug_cong [OF assms(7), of gs]
    by (intro repairedI [OF assms(1), of n]) (auto simp: fits_def)
qed

lemma cxt_parent: "cxt m (f # gs) \<Longrightarrow> parent_cxt (frame_color f) m gs \<and> bal m (sibling f)"
  by (auto simp: parent_cxt_def split: if_splits)

subsection \<open>The deficit is on the left\<close>

lemma nephews_left_black:
  assumes f: "focus h a (Node t (a, c) (Node A (s, RB_BLACK) B)) gs"
    and b: "bal n t" "bal n A" "bal n B" "root_color A = RB_BLACK" "root_color B = RB_BLACK" "root_color t = RB_BLACK"
    and c: "parent_cxt c (Suc n) gs" and k: "List.length gs < k \<or> c = RB_RED"
  shows "moved_up (nodes (plug (Node t (a, c) (Node A (s, RB_BLACK) B)) gs)) k
           (remove_nephews_left a s h)"
proof -
  note g = focus_sub(2) [OF f]
  let ?t = "Node t (a, c) (Node A (s, RB_RED) B)" and ?h = "set_color s RB_RED h"
  have "is_black (rbe_left h s) h" "is_black (rbe_right h s) h"
    using black_test [OF focus_reads(1) [OF g]] black_test [OF focus_reads(2) [OF g]] b by auto
  then have r: "remove_nephews_left a s h = (False, up gs, a, ?h)"
    using focus_node [OF f] by (simp add: remove_nephews_left_def Let_def)
  have f': "focus ?h a ?t gs" using focus_color_right [OF f] .
  have n: "nodes (plug ?t gs) = nodes (plug (Node t (a, c) (Node A (s, RB_BLACK) B)) gs)"
    by (rule nodes_plug_cong) simp
  have d: "deficit (if c = RB_BLACK then Suc n else n) ?t" "cxt (Suc (if c = RB_BLACK then Suc n else n)) gs"
    using b c by (auto simp: parent_cxt_def deficit_def)
  show ?thesis
    unfolding r by (rule moved_upI [OF f' d _ n]) (use k in auto)
qed

lemma nephews_left_outer:
  assumes f: "focus h a (Node t (a, c) (Node A (s, RB_BLACK) (Node B (b, RB_RED) C))) gs"
    and b: "bal n t" "bal n A" "bal n (Node B (b, RB_RED) C)"
    and c: "parent_cxt c (Suc n) gs"
  shows "repaired (nodes (plug (Node t (a, c) (Node A (s, RB_BLACK) (Node B (b, RB_RED) C))) gs))
           (remove_nephews_left a s h)"
proof -
  have reads: "rbe_right h s = b" "b \<noteq> 0" "rbe_color h b = RB_RED" "rbe_color h a = c" "s \<noteq> a" "a \<noteq> s"
    using f by (auto simp: focus_def)
  define h1 where "h1 = set_color b RB_BLACK (set_color a RB_BLACK (set_color s c h))"
  have "remove_nephews_left a s h = (True, a, rbh_root (RB_ROTATE_LEFT a h1), RB_ROTATE_LEFT a h1)"
    using reads by (simp add: remove_nephews_left_def Let_def is_black_def h1_def)
  moreover have "focus (set_color a RB_BLACK (set_color s c h)) a
      (Node t (a, RB_BLACK) (Node A (s, c) (Node B (b, RB_RED) C))) gs"
    using focus_color [OF focus_color_right [OF f]] .
  then have "focus h1 s (Node A (s, c) (Node B (b, RB_BLACK) C)) (In_Right a RB_BLACK t # gs)"
    unfolding h1_def by (intro focus_color_right focus_sub)
  then have "focus h1 a (Node t (a, RB_BLACK) (Node A (s, c) (Node B (b, RB_BLACK) C))) gs"
    using focus_right by blast
  then have "focus (RB_ROTATE_LEFT a h1) s (Node (Node t (a, RB_BLACK) A) (s, c) (Node B (b, RB_BLACK) C)) gs"
    by (rule focus_rotate_left)
  ultimately show ?thesis
    using repaired_top [OF _ c] b by simp
qed

lemma nephews_left_inner:
  assumes f: "focus h a (Node t (a, c) (Node (Node A (i, RB_RED) A') (s, RB_BLACK) B)) gs"
    and b: "bal n t" "bal n (Node A (i, RB_RED) A')" "bal n B" "root_color B = RB_BLACK"
    and c: "parent_cxt c (Suc n) gs"
  shows "repaired (nodes (plug (Node t (a, c) (Node (Node A (i, RB_RED) A') (s, RB_BLACK) B)) gs))
           (remove_nephews_left a s h)"
proof -
  note g = focus_sub(2) [OF f]
  have reads: "rbe_left h s = i" "i \<noteq> 0" "rbe_color h i = RB_RED" "rbe_color h a = c" "s \<noteq> a" "i \<noteq> a"
      "a \<noteq> s" "a \<noteq> i" "s \<noteq> 0"
    using f by (auto simp: focus_def)
  have B: "is_black (rbe_right h s) h" using black_test [OF focus_reads(2) [OF g]] b by simp
  define h1 where "h1 = RB_ROTATE_RIGHT s (set_color s RB_RED (set_color i RB_BLACK h))"
  have "focus (set_color s RB_RED (set_color i RB_BLACK h)) s
      (Node (Node A (i, RB_BLACK) A') (s, RB_RED) B) (In_Right a c t # gs)"
    using focus_color [OF focus_color_left [OF g]] .
  then have "focus h1 i (Node A (i, RB_BLACK) (Node A' (s, RB_RED) B)) (In_Right a c t # gs)"
    unfolding h1_def by (rule focus_rotate_right)
  then have f1: "focus h1 a (Node t (a, c) (Node A (i, RB_BLACK) (Node A' (s, RB_RED) B))) gs"
    and i: "i = rbe_right h1 a"
    using focus_right by blast+
  have B1: "\<not> is_black (rbe_right h1 i) h1"
    using black_test [OF focus_reads(2) [OF focus_sub(2) [OF f1]]] by simp
  have "remove_nephews_left a s h = remove_nephews_left a i h1"
    using reads B B1 i [symmetric] by (simp add: remove_nephews_left_def Let_def is_black_def h1_def)
  then show ?thesis
    using nephews_left_outer [OF f1 b(1) _ _ c] b nodes_plug_cong
      [of "Node t (a, c) (Node A (i, RB_BLACK) (Node A' (s, RB_RED) B))"
          "Node t (a, c) (Node (Node A (i, RB_RED) A') (s, RB_BLACK) B)" gs]
    by simp
qed

lemma nephews_left:
  assumes f: "focus h a (Node t (a, c) (Node A (s, RB_BLACK) B)) gs"
    and b: "bal n t" "bal n A" "bal n B" "root_color t = RB_BLACK"
    and c: "parent_cxt c (Suc n) gs" and k: "List.length gs < k \<or> c = RB_RED"
  defines "xs \<equiv> nodes (plug (Node t (a, c) (Node A (s, RB_BLACK) B)) gs)"
    and "res \<equiv> remove_nephews_left a s h"
  shows "repaired xs res \<or> moved_up xs k res"
proof (cases "root_color B = RB_RED")
  case True
  then obtain B1 x B2 where B: "B = Node B1 (x, RB_RED) B2" by (cases B) auto
  have "repaired xs res"
    unfolding xs_def res_def B
    by (rule nephews_left_outer [OF f [unfolded B] b(1,2) b(3) [unfolded B] c])
  then show ?thesis ..
next
  case False
  then have B: "root_color B = RB_BLACK" using b(3) by (cases B) (auto split: if_splits)
  show ?thesis
  proof (cases "root_color A = RB_RED")
    case True
    then obtain A1 x A2 where A: "A = Node A1 (x, RB_RED) A2" by (cases A) auto
    have "repaired xs res"
      unfolding xs_def res_def A
      by (rule nephews_left_inner [OF f [unfolded A] b(1) b(2) [unfolded A] b(3) B c])
    then show ?thesis ..
  next
    case False
    then have A: "root_color A = RB_BLACK" using b(2) by (cases A) (auto split: if_splits)
    have "moved_up xs k res"
      unfolding xs_def res_def by (rule nephews_left_black [OF f b(1,2,3) A B b(4) c k])
    then show ?thesis ..
  qed
qed

lemma remove_left_step:
  assumes f: "focus h p t (In_Left a c S # gs)" and b: "bal n t" "root_color t = RB_BLACK"
    and c: "cxt (Suc n) (In_Left a c S # gs)"
  defines "xs \<equiv> nodes (plug t (In_Left a c S # gs))" and "res \<equiv> remove_color_left a h"
  shows "repaired xs res \<or> moved_up xs (Suc (List.length gs)) res"
proof -
  have at: "focus h a (Node t (a, c) S) gs" using f focus_left by blast
  have S: "bal (Suc n) S" and pc: "parent_cxt c (Suc n) gs" using cxt_parent [OF c] by auto
  then obtain A s d B where S': "S = Node A (s, d) B" by (cases S) auto
  have reads: "rbe_right h a = s" "rbe_color h s = d" using at S' by (auto simp: focus_def)
  show ?thesis
  proof (cases "d = RB_BLACK")
    case True
    then have "res = remove_nephews_left a s h"
      using reads by (simp add: res_def remove_color_left_def Let_def)
    then show ?thesis
      using nephews_left [of h a t c A s B gs n] at S S' True b pc by (simp add: xs_def)
  next
    case False
    then have d: "d = RB_RED" and AB: "bal (Suc n) A" "bal (Suc n) B" "root_color A = RB_BLACK"
      using S S' by (auto split: if_splits)
    have c': "c = RB_BLACK" using c S' d by (auto split: if_splits)
    then have cg: "cxt (Suc (Suc n)) gs" using c by simp
    obtain A1 x A2 where A: "A = Node A1 (x, RB_BLACK) A2" using AB by (cases A) auto
    define h1 where "h1 = RB_ROTATE_LEFT a (RB_SET_BLACKRED s a h)"
    have "focus h1 s (Node (Node t (a, RB_RED) A) (s, RB_BLACK) B) gs"
      unfolding h1_def using focus_rotate_left [OF focus_blackred_right] at S' by blast
    then have f1: "focus h1 a (Node t (a, RB_RED) (Node A1 (x, RB_BLACK) A2)) (In_Left s RB_BLACK B # gs)"
      using focus_sub A by blast
    have "rbe_right h1 a = x" using f1 by (auto simp: focus_def)
    then have "res = remove_nephews_left a x h1"
      using reads d by (simp add: res_def remove_color_left_def Let_def h1_def)
    moreover have "parent_cxt RB_RED (Suc n) (In_Left s RB_BLACK B # gs)"
      using AB cg by (simp add: parent_cxt_def)
    moreover have "nodes (plug (Node t (a, RB_RED) (Node A1 (x, RB_BLACK) A2)) (In_Left s RB_BLACK B # gs)) = xs"
      unfolding xs_def S' A plug_simps by (rule nodes_plug_cong) simp
    ultimately show ?thesis
      using nephews_left [OF f1, of n "Suc (List.length gs)"] b AB A by simp
  qed
qed

subsection \<open>The deficit is on the right\<close>

lemma nephews_right_black:
  assumes f: "focus h a (Node (Node B (s, RB_BLACK) A) (a, c) t) gs"
    and b: "bal n t" "bal n A" "bal n B" "root_color A = RB_BLACK" "root_color B = RB_BLACK" "root_color t = RB_BLACK"
    and c: "parent_cxt c (Suc n) gs" and k: "List.length gs < k \<or> c = RB_RED"
  shows "moved_up (nodes (plug (Node (Node B (s, RB_BLACK) A) (a, c) t) gs)) k
           (remove_nephews_right a s h)"
proof -
  note g = focus_sub(1) [OF f]
  let ?t = "Node (Node B (s, RB_RED) A) (a, c) t" and ?h = "set_color s RB_RED h"
  have "is_black (rbe_right h s) h" "is_black (rbe_left h s) h"
    using black_test [OF focus_reads(2) [OF g]] black_test [OF focus_reads(1) [OF g]] b by auto
  then have r: "remove_nephews_right a s h = (False, up gs, a, ?h)"
    using focus_node [OF f] by (simp add: remove_nephews_right_def Let_def)
  have f': "focus ?h a ?t gs" using focus_color_left [OF f] .
  have n: "nodes (plug ?t gs) = nodes (plug (Node (Node B (s, RB_BLACK) A) (a, c) t) gs)"
    by (rule nodes_plug_cong) simp
  have d: "deficit (if c = RB_BLACK then Suc n else n) ?t" "cxt (Suc (if c = RB_BLACK then Suc n else n)) gs"
    using b c by (auto simp: parent_cxt_def deficit_def)
  show ?thesis
    unfolding r by (rule moved_upI [OF f' d _ n]) (use k in auto)
qed

lemma nephews_right_outer:
  assumes f: "focus h a (Node (Node (Node C (b, RB_RED) B) (s, RB_BLACK) A) (a, c) t) gs"
    and b: "bal n t" "bal n A" "bal n (Node C (b, RB_RED) B)"
    and c: "parent_cxt c (Suc n) gs"
  shows "repaired (nodes (plug (Node (Node (Node C (b, RB_RED) B) (s, RB_BLACK) A) (a, c) t) gs))
           (remove_nephews_right a s h)"
proof -
  have reads: "rbe_left h s = b" "b \<noteq> 0" "rbe_color h b = RB_RED" "rbe_color h a = c" "s \<noteq> a" "a \<noteq> s"
    using f by (auto simp: focus_def)
  define h1 where "h1 = set_color b RB_BLACK (set_color a RB_BLACK (set_color s c h))"
  have "remove_nephews_right a s h = (True, a, rbh_root (RB_ROTATE_RIGHT a h1), RB_ROTATE_RIGHT a h1)"
    using reads by (simp add: remove_nephews_right_def Let_def is_black_def h1_def)
  moreover have "focus (set_color a RB_BLACK (set_color s c h)) a
      (Node (Node (Node C (b, RB_RED) B) (s, c) A) (a, RB_BLACK) t) gs"
    using focus_color [OF focus_color_left [OF f]] .
  then have "focus h1 s (Node (Node C (b, RB_BLACK) B) (s, c) A) (In_Left a RB_BLACK t # gs)"
    unfolding h1_def by (intro focus_color_left focus_sub)
  then have "focus h1 a (Node (Node (Node C (b, RB_BLACK) B) (s, c) A) (a, RB_BLACK) t) gs"
    using focus_left by blast
  then have "focus (RB_ROTATE_RIGHT a h1) s (Node (Node C (b, RB_BLACK) B) (s, c) (Node A (a, RB_BLACK) t)) gs"
    by (rule focus_rotate_right)
  ultimately show ?thesis
    using repaired_top [OF _ c] b by simp
qed

lemma nephews_right_inner:
  assumes f: "focus h a (Node (Node B (s, RB_BLACK) (Node A' (i, RB_RED) A)) (a, c) t) gs"
    and b: "bal n t" "bal n (Node A' (i, RB_RED) A)" "bal n B" "root_color B = RB_BLACK"
    and c: "parent_cxt c (Suc n) gs"
  shows "repaired (nodes (plug (Node (Node B (s, RB_BLACK) (Node A' (i, RB_RED) A)) (a, c) t) gs))
           (remove_nephews_right a s h)"
proof -
  note g = focus_sub(1) [OF f]
  have reads: "rbe_right h s = i" "i \<noteq> 0" "rbe_color h i = RB_RED" "rbe_color h a = c" "s \<noteq> a" "i \<noteq> a"
      "a \<noteq> s" "a \<noteq> i" "s \<noteq> 0"
    using f by (auto simp: focus_def)
  have B: "is_black (rbe_left h s) h" using black_test [OF focus_reads(1) [OF g]] b by simp
  define h1 where "h1 = RB_ROTATE_LEFT s (set_color s RB_RED (set_color i RB_BLACK h))"
  have "focus (set_color s RB_RED (set_color i RB_BLACK h)) s
      (Node B (s, RB_RED) (Node A' (i, RB_BLACK) A)) (In_Left a c t # gs)"
    using focus_color [OF focus_color_right [OF g]] .
  then have "focus h1 i (Node (Node B (s, RB_RED) A') (i, RB_BLACK) A) (In_Left a c t # gs)"
    unfolding h1_def by (rule focus_rotate_left)
  then have f1: "focus h1 a (Node (Node (Node B (s, RB_RED) A') (i, RB_BLACK) A) (a, c) t) gs"
    and i: "i = rbe_left h1 a"
    using focus_left by blast+
  have B1: "\<not> is_black (rbe_left h1 i) h1"
    using black_test [OF focus_reads(1) [OF focus_sub(1) [OF f1]]] by simp
  have "remove_nephews_right a s h = remove_nephews_right a i h1"
    using reads B B1 i [symmetric] by (simp add: remove_nephews_right_def Let_def is_black_def h1_def)
  then show ?thesis
    using nephews_right_outer [OF f1 b(1) _ _ c] b nodes_plug_cong
      [of "Node (Node (Node B (s, RB_RED) A') (i, RB_BLACK) A) (a, c) t"
          "Node (Node B (s, RB_BLACK) (Node A' (i, RB_RED) A)) (a, c) t" gs]
    by simp
qed

lemma nephews_right:
  assumes f: "focus h a (Node (Node B (s, RB_BLACK) A) (a, c) t) gs"
    and b: "bal n t" "bal n A" "bal n B" "root_color t = RB_BLACK"
    and c: "parent_cxt c (Suc n) gs" and k: "List.length gs < k \<or> c = RB_RED"
  defines "xs \<equiv> nodes (plug (Node (Node B (s, RB_BLACK) A) (a, c) t) gs)"
    and "res \<equiv> remove_nephews_right a s h"
  shows "repaired xs res \<or> moved_up xs k res"
proof (cases "root_color B = RB_RED")
  case True
  then obtain B1 x B2 where B: "B = Node B2 (x, RB_RED) B1" by (cases B) auto
  have "repaired xs res"
    unfolding xs_def res_def B
    by (rule nephews_right_outer [OF f [unfolded B] b(1,2) b(3) [unfolded B] c])
  then show ?thesis ..
next
  case False
  then have B: "root_color B = RB_BLACK" using b(3) by (cases B) (auto split: if_splits)
  show ?thesis
  proof (cases "root_color A = RB_RED")
    case True
    then obtain A1 x A2 where A: "A = Node A2 (x, RB_RED) A1" by (cases A) auto
    have "repaired xs res"
      unfolding xs_def res_def A
      by (rule nephews_right_inner [OF f [unfolded A] b(1) b(2) [unfolded A] b(3) B c])
    then show ?thesis ..
  next
    case False
    then have A: "root_color A = RB_BLACK" using b(2) by (cases A) (auto split: if_splits)
    have "moved_up xs k res"
      unfolding xs_def res_def by (rule nephews_right_black [OF f b(1,2,3) A B b(4) c k])
    then show ?thesis ..
  qed
qed

lemma remove_right_step:
  assumes f: "focus h p t (In_Right a c S # gs)" and b: "bal n t" "root_color t = RB_BLACK"
    and c: "cxt (Suc n) (In_Right a c S # gs)"
  defines "xs \<equiv> nodes (plug t (In_Right a c S # gs))" and "res \<equiv> remove_color_right a h"
  shows "repaired xs res \<or> moved_up xs (Suc (List.length gs)) res"
proof -
  have at: "focus h a (Node S (a, c) t) gs" using f focus_right by blast
  have S: "bal (Suc n) S" and pc: "parent_cxt c (Suc n) gs" using cxt_parent [OF c] by auto
  then obtain A s d B where S': "S = Node B (s, d) A" by (cases S) auto
  have reads: "rbe_left h a = s" "rbe_color h s = d" using at S' by (auto simp: focus_def)
  show ?thesis
  proof (cases "d = RB_BLACK")
    case True
    then have "res = remove_nephews_right a s h"
      using reads by (simp add: res_def remove_color_right_def Let_def)
    then show ?thesis
      using nephews_right [of h a B s A c t gs n] at S S' True b pc by (simp add: xs_def)
  next
    case False
    then have d: "d = RB_RED" and AB: "bal (Suc n) A" "bal (Suc n) B" "root_color A = RB_BLACK"
      using S S' by (auto split: if_splits)
    have c': "c = RB_BLACK" using c S' d by (auto split: if_splits)
    then have cg: "cxt (Suc (Suc n)) gs" using c by simp
    obtain A1 x A2 where A: "A = Node A2 (x, RB_BLACK) A1" using AB by (cases A) auto
    define h1 where "h1 = RB_ROTATE_RIGHT a (RB_SET_BLACKRED s a h)"
    have "focus h1 s (Node B (s, RB_BLACK) (Node A (a, RB_RED) t)) gs"
      unfolding h1_def using focus_rotate_right [OF focus_blackred_left] at S' by blast
    then have f1: "focus h1 a (Node (Node A2 (x, RB_BLACK) A1) (a, RB_RED) t) (In_Right s RB_BLACK B # gs)"
      using focus_sub A by blast
    have "rbe_left h1 a = x" using f1 by (auto simp: focus_def)
    then have "res = remove_nephews_right a x h1"
      using reads d by (simp add: res_def remove_color_right_def Let_def h1_def)
    moreover have "parent_cxt RB_RED (Suc n) (In_Right s RB_BLACK B # gs)"
      using AB cg by (simp add: parent_cxt_def)
    moreover have "nodes (plug (Node (Node A2 (x, RB_BLACK) A1) (a, RB_RED) t) (In_Right s RB_BLACK B # gs)) = xs"
      unfolding xs_def S' A plug_simps by (rule nodes_plug_cong) simp
    ultimately show ?thesis
      using nephews_right [OF f1, of n "Suc (List.length gs)"] b AB A by simp
  qed
qed

subsection \<open>The loop\<close>

lemma remove_color_step_spec:
  assumes f: "focus h p t (f # gs)" and b: "bal n t" "root_color t = RB_BLACK" and c: "cxt (Suc n) (f # gs)"
  defines "xs \<equiv> nodes (plug t (f # gs))" and "res \<equiv> remove_color_step (up (f # gs)) p h"
  shows "repaired xs res \<or> moved_up xs (Suc (List.length gs)) res"
proof (cases f)
  case (In_Left a d S)
  then have "res = remove_color_left a h"
    using f by (simp add: res_def remove_color_step_def focus_def)
  then show ?thesis
    using remove_left_step [OF f [unfolded In_Left] b c [unfolded In_Left]] In_Left by (simp add: xs_def)
next
  case (In_Right a d S)
  have "S \<noteq> Leaf" using c In_Right by (auto split: if_splits)
  then obtain A x B where S: "S = Node A x B" by (cases S) auto
  have "rbe_left h a \<noteq> p"
    using f In_Right S focus_nonzeros [OF f] shape_member [of h "up (f # gs)" p t]
    by (cases x) (auto simp: focus_def)
  then have "res = remove_color_right a h"
    using In_Right by (simp add: res_def remove_color_step_def)
  then show ?thesis
    using remove_right_step [OF f [unfolded In_Right] b c [unfolded In_Right]] In_Right by (simp add: xs_def)
qed

lemma settled_black:
  assumes "focus h (rbh_root h) t []" "t \<noteq> Leaf" "bal n t" "nodes t = xs"
  shows "settled xs (remove_color_end (rbh_root h) h)"
proof -
  have "rbh_root h \<noteq> 0" using assms focus_nonzero by blast
  then show ?thesis using blacken_root [OF assms(1-3)] assms(4) by (simp add: remove_color_end_def)
qed

text \<open>The loop is left at a red position or at the root.\<close>

lemma remove_color_exit:
  assumes f: "focus h p t fs" and d: "deficit n t" "cxt (Suc n) fs" and e: "root_color t = RB_RED \<or> fs = []"
  shows "RB_REMOVE_COLOR (up fs) p h = Some (remove_color_end p h)
    \<and> settled (nodes (plug t fs)) (remove_color_end p h)"
proof
  have "\<not> is_black p h \<or> p = rbh_root h"
    using e black_test [of h "up fs" p t] f focus_at_root [OF f] by (auto simp: focus_def)
  then show "RB_REMOVE_COLOR (up fs) p h = Some (remove_color_end p h)"
    by (auto simp: RB_REMOVE_COLOR.simps [of "up fs" p h])
  show "settled (nodes (plug t fs)) (remove_color_end p h)"
  proof (cases t)
    case Leaf
    then have "fs = []" "p = 0" "rbh_root h = 0" using e f by (auto simp: focus_def)
    then show ?thesis
      using f Leaf by (auto simp: settled_def remove_color_end_def intro!: exI [of _ "Leaf :: ctree"])
  next
    case (Node l x r)
    obtain a c where x: "x = (a, c)" by fastforce
    have p: "p = a" "a \<noteq> 0" using focus_node [OF f [unfolded Node x]] by auto
    let ?t = "Node l (a, RB_BLACK) r"
    have f': "focus (set_color a RB_BLACK h) p ?t fs" using focus_color f Node x by simp
    have "\<exists>m. bal m ?t \<and> cxt m fs"
    proof (cases "c = RB_RED")
      case True
      then have "bal (Suc n) ?t" using d(1) Node x by (simp add: deficit_def)
      then show ?thesis using d(2) by blast
    next
      case False
      then have "fs = []" "bal n t" using e d(1) Node x by (auto simp: deficit_def)
      then show ?thesis using Node x False by (auto split: if_splits)
    qed
    then obtain m where "bal m ?t" "cxt m fs" by blast
    then have "\<exists>m. bal m (plug ?t fs) \<and> root_color (plug ?t fs) = RB_BLACK"
      by (intro plug_bal) (simp_all add: fits_def)
    moreover have "nodes (plug ?t fs) = nodes (plug t fs)"
      by (rule nodes_plug_cong) (simp add: Node x)
    ultimately show ?thesis
      using focus_to_root [OF f'] p unfolding settled_def remove_color_end_def by auto
  qed
qed

lemma rb_remove_color:
  "focus h p t fs \<Longrightarrow> deficit n t \<Longrightarrow> cxt (Suc n) fs \<Longrightarrow>
     \<exists>h'. RB_REMOVE_COLOR (up fs) p h = Some h' \<and> settled (nodes (plug t fs)) h'"
proof (induction "List.length fs" arbitrary: h p t fs n rule: less_induct)
  case less
  note f = less.prems(1) and d = less.prems(2) and c = less.prems(3)
  show ?case
  proof (cases "root_color t = RB_RED \<or> fs = []")
    case True
    then show ?thesis using remove_color_exit [OF f d c] by blast
  next
    case False
    then obtain f1 gs where fs: "fs = f1 # gs" by (cases fs) auto
    have b: "bal n t" "root_color t = RB_BLACK"
      using d False by (cases t; auto simp: deficit_def split: if_splits)+
    let ?s = "remove_color_step (up fs) p h" and ?xs = "nodes (plug t fs)"
    have "is_black p h" "p \<noteq> rbh_root h"
      using black_test [of h "up fs" p t] f b focus_at_root [OF f] fs by (auto simp: focus_def)
    then have go: "RB_REMOVE_COLOR (up fs) p h =
      (if fst ?s then Some (remove_color_end (fst (snd (snd ?s))) (snd (snd (snd ?s))))
       else RB_REMOVE_COLOR (fst (snd ?s)) (fst (snd (snd ?s))) (snd (snd (snd ?s))))"
      by (subst RB_REMOVE_COLOR.simps) simp
    obtain stop u q h' where s: "?s = (stop, u, q, h')" by (metis prod_cases4)
    have "repaired ?xs ?s \<or> moved_up ?xs (Suc (List.length gs)) ?s"
      using remove_color_step_spec [OF f [unfolded fs] b c [unfolded fs]] fs by simp
    then show ?thesis
    proof
      assume "repaired ?xs ?s"
      then show ?thesis using settled_black go s by (auto simp: repaired_def)
    next
      assume "moved_up ?xs (Suc (List.length gs)) ?s"
      then obtain t' fs' m where m: "\<not> stop" "u = up fs'" "focus h' q t' fs'" "deficit m t'"
        "cxt (Suc m) fs'" "nodes (plug t' fs') = ?xs" "List.length fs' < List.length fs \<or> root_color t' = RB_RED"
        using s fs by (auto simp: moved_up_def)
      then show ?thesis
        using less.hyps [OF _ m(3,4,5)] remove_color_exit [OF m(3,4,5)] go s by auto
    qed
  qed
qed

section \<open>Unlinking a node\<close>

lemma unlink_redirect: "unlink p q h = redirect (rbe_parent h p) p q (adopt q (rbe_parent h p) h)"
  by (simp add: unlink_def adopt_def Let_def)

lemma up_member: "focus h p t fs \<Longrightarrow> up fs = 0 \<or> up fs \<in> set (above_nodes fs)"
  using up_in [of fs] by (cases "fs = []") auto

lemma focus_unlink:
  assumes f: "focus h p (Node l (p, c) r) fs"
    and t: "l = Leaf \<and> t = r \<and> q = rbe_right h p \<or> r = Leaf \<and> t = l \<and> q = rbe_left h p"
  shows "focus (unlink p q h) q t fs"
proof -
  have s: "shape h p q t" "p \<noteq> 0" "rbe_parent h p = up fs" "above h p fs"
    and d: "distinct (nodes t @ above_nodes fs)" "p \<notin> set (above_nodes fs)" "p \<notin> set (nodes t)"
    using f t by (auto simp: focus_def)
  have q: "q \<notin> set (above_nodes fs)"
    using shape_member [OF s(1)] d focus_nonzeros [OF f] by auto
  have u: "up fs \<notin> set (nodes t)"
    using up_member [OF f] d focus_nonzeros [OF f] t by auto
  have "above (redirect (up fs) p q (adopt q (up fs) h)) q fs"
    using s d q by (intro above_redirect) auto
  moreover have "shape (adopt q (up fs) h) (up fs) q t"
    using s d by (intro shape_adopted) auto
  ultimately show ?thesis
    using s d u by (simp add: focus_def unlink_redirect)
qed

lemma focus_take_place:
  assumes f: "focus h b (Node l (b, c) r) fs" and l: "l \<noteq> Leaf"
    and m: "m \<noteq> 0" "m \<notin> set (nodes (Node l (b, c) r))" "m \<notin> set (above_nodes fs)"
  shows "focus (take_place m b h) m (Node l (m, c) r) fs"
proof -
  have s: "shape h b (rbe_left h b) l" "shape h b (rbe_right h b) r" "b \<noteq> 0"
      "rbe_parent h b = up fs" "rbe_color h b = c" "above h b fs"
    and d: "distinct (nodes l)" "distinct (nodes r)" "distinct (above_nodes fs)" "b \<notin> set (nodes l)"
      "b \<notin> set (nodes r)" "b \<notin> set (above_nodes fs)" "set (nodes l) \<inter> set (nodes r) = {}"
      "set (nodes l) \<inter> set (above_nodes fs) = {}" "set (nodes r) \<inter> set (above_nodes fs) = {}"
    using f by (auto simp: focus_def)
  have nz: "0 \<notin> set (nodes l)" "0 \<notin> set (nodes r)" "0 \<notin> set (above_nodes fs)"
    using focus_nonzeros [OF f] by auto
  have u: "up fs \<notin> set (nodes l)" "up fs \<notin> set (nodes r)" "up fs \<noteq> m" "up fs \<noteq> b"
    using up_member [OF f] d m nz s by auto
  define x y where "x = rbe_left h b" and "y = rbe_right h b"
  have x0: "x \<noteq> 0" using focus_nonzero [OF focus_children(1) [OF f]] l by (simp add: x_def)
  have x: "x \<noteq> 0" "x \<in> set (nodes l)" and y: "y = 0 \<or> y \<in> set (nodes r)"
    using shape_member [OF s(1)] shape_member [OF s(2)] x0 by (auto simp: x_def y_def)
  have xs: "x \<notin> set (nodes r)" "x \<notin> set (above_nodes fs)" "x \<noteq> m" "x \<noteq> b" "x \<noteq> up fs"
    and ys: "y \<notin> set (nodes l)" "y \<notin> set (above_nodes fs)" "y \<noteq> m" "y \<noteq> b"
    using x y d m nz u s by auto
  define h1 where "h1 = copy_entry m b h"
  have h1: "above h1 b fs" "shape h1 b x l" "shape h1 b y r" "rbe_left h1 m = x" "rbe_right h1 m = y"
      "rbe_parent h1 m = up fs" "rbe_color h1 m = c" "rbe_parent h1 b = up fs" "rbe_left h1 b = x"
      "rbe_right h1 b = y"
    using s m d by (simp_all add: h1_def copy_entry_def x_def y_def)
  define h2 where "h2 = redirect (up fs) b m h1"
  have h2: "above h2 m fs" "shape h2 b x l" "shape h2 b y r" "rbe_left h2 m = x" "rbe_right h2 m = y"
      "rbe_parent h2 m = up fs" "rbe_color h2 m = c" "rbe_left h2 b = x" "rbe_right h2 b = y"
    using h1 s d u by (simp_all add: h2_def above_redirect)
  have "take_place m b h = adopt y m (adopt x m h2)"
    using h1 h2 x by (simp add: take_place_def Let_def h1_def [symmetric] h2_def [symmetric] adopt_def)
  moreover have "shape (adopt x m h2) m x l" "shape (adopt y m (adopt x m h2)) m y r"
    using h2 d xs by (intro shape_adopted [where par = b]; simp)+
  ultimately show ?thesis
    using h2 d m xs ys by (simp add: focus_def Int_Un_distrib)
qed

lemma focus_pointer: "focus h p t fs \<Longrightarrow> focus h' q t gs \<Longrightarrow> p = q"
  by (cases t) (auto simp: focus_def)

lemma cxt_rename: "cxt n (ms @ In_Right a c l # fs) \<longleftrightarrow> cxt n (ms @ In_Right b c l # fs)"
proof (induction ms arbitrary: n)
  case (Cons m ms)
  have "up_color (ms @ In_Right a c l # fs) = up_color (ms @ In_Right b c l # fs)"
    by (cases ms) auto
  then show ?case using Cons by simp
qed simp

lemma leftmost:
  "t \<noteq> Leaf \<Longrightarrow> \<exists>m c r ms. t = plug (Node Leaf (m, c) r) ms \<and> before ms = []"
proof (induction t)
  case (Node l x r)
  obtain a c where x: "x = (a, c)" by fastforce
  show ?case
  proof (cases "l = Leaf")
    case True
    then show ?thesis
      using x by (intro exI [of _ a] exI [of _ c] exI [of _ r] exI [of _ "[]"]) simp
  next
    case False
    then obtain m d s ms where "l = plug (Node Leaf (m, d) s) ms" "before ms = []"
      using Node.IH by blast
    moreover from this have "before (ms @ [In_Left a c r]) = []"
    proof (induction ms arbitrary: l d s)
      case (Cons f fs) then show ?case by (cases f) auto
    qed simp
    ultimately show ?thesis
      using x by (intro exI [of _ m] exI [of _ d] exI [of _ s] exI [of _ "ms @ [In_Left a c r]"]) simp
  qed
qed simp

section \<open>Removal\<close>

lemma bal_deficit: "bal n t \<Longrightarrow> deficit n t"
  by (cases t) (auto simp: deficit_def split: if_splits)

lemma recolor_spec:
  assumes f: "focus h q t fs" and b: "bal n (Node l (a, c) r)" "cxt n fs"
    and t: "l = Leaf \<and> t = r \<or> r = Leaf \<and> t = l"
  shows "\<exists>h'. recolor c (up fs) q h = Some h' \<and> settled (nodes (plug t fs)) h'"
proof (cases "c = RB_BLACK")
  case True
  then obtain m where "n = Suc m" "bal m t" using b t by (cases n) auto
  then show ?thesis
    using rb_remove_color [OF f bal_deficit] b True by (simp add: recolor_def)
next
  case False
  then have "bal n t" "root_color t = RB_BLACK" using b t by auto
  then have "settled (nodes (plug t fs)) h"
    using plug_bal [of n t fs] b focus_to_root [OF f] by (auto simp: settled_def fits_def)
  then show ?thesis using False by (simp add: recolor_def)
qed

lemma augment_up_spec: "focus h p t (f # fs) \<Longrightarrow> augment_up h (frame_node f) = Some ()"
proof (induction fs arbitrary: p t f)
  case Nil
  then have "rbe_parent h (frame_node f) = 0" by (cases f) (simp_all add: focus_def)
  then show ?case by (simp add: augment_up.simps [of h])
next
  case (Cons g gs)
  have "rbe_parent h (frame_node f) = frame_node g"
    using Cons.prems by (cases f) (simp_all add: focus_def)
  then show ?case
    using Cons.IH [OF focus_refill [OF Cons.prems]] by (subst augment_up.simps) simp
qed

lemma augment_up_ends: "focus h p t fs \<Longrightarrow> fs \<noteq> [] \<Longrightarrow> augment_up h (up fs) = Some ()"
  using augment_up_spec by (cases fs) auto

lemma focus_entry:
  assumes "focus h a (Node l (a, c) r) fs"
  shows "rbe_left h a = 0 \<longleftrightarrow> l = Leaf" "rbe_right h a = 0 \<longleftrightarrow> r = Leaf"
    "rbe_parent h a = up fs" "rbe_color h a = c"
  using focus_nonzero [OF focus_children(1) [OF assms]] focus_nonzero [OF focus_children(2) [OF assms]]
    focus_node [OF assms] by auto

text \<open>A node with at most one child is replaced by it.\<close>

lemma remove_edge:
  assumes a: "focus h a (Node l (a, c) r) fs" and k: "bal k (Node l (a, c) r)" "cxt k fs" and one: "l = Leaf \<or> r = Leaf"
  shows "\<exists>h'. RB_REMOVE a h = Some (a, h') \<and> settled (before fs @ nodes l @ nodes r @ after fs) h'"
proof -
  note reads = focus_entry [OF a]
  define q where "q = (if rbe_left h a = 0 then rbe_right h a else rbe_left h a)"
  define s where "s = (if l = Leaf then r else l)"
  have "focus (unlink a q h) q s fs"
    using one reads by (intro focus_unlink [OF a]) (auto simp: q_def s_def)
  then obtain h' where "recolor c (up fs) q (unlink a q h) = Some h'" "settled (nodes (plug s fs)) h'"
    using recolor_spec k one by (metis s_def)
  moreover have "nodes (plug s fs) = before fs @ nodes l @ nodes r @ after fs"
    using one by (auto simp: nodes_plug_split s_def)
  ultimately show ?thesis
    using one reads by (auto simp: RB_REMOVE_def Let_def q_def)
qed

text \<open>
  A node with two children: its successor \<open>m\<close> is unlinked from its place, below the frames \<open>ms\<close> of the right subtree, and takes
  the place of the node.
\<close>

lemma successor_moved:
  assumes a: "focus h a (Node l (a, c) (plug (Node Leaf (m, d) s) ms)) fs" and ms: "before ms = []" and l: "l \<noteq> Leaf"
  defines "h1 \<equiv> unlink m (rbe_right h m) h"
  shows "down_left h (rbe_right h a) = Some m" "rbe_color h m = d"
    "focus (take_place m a h1) (rbe_right h m) s (ms @ In_Right m c l # fs)"
    "(if rbe_parent h1 m = a then m else rbe_parent h m) = up (ms @ In_Right m c l # fs)"
proof -
  let ?up = "ms @ In_Right a c l # fs" and ?up' = "ms @ In_Right m c l # fs"
  show "down_left h (rbe_right h a) = Some m"
    using down_left_spec [OF focus_reads(2) [OF a]] ms by (simp add: plug_node nodes_plug_split)
  obtain p where "focus h p (Node Leaf (m, d) s) ?up"
    using focus_down focus_children(2) [OF a] by blast
  then have fm: "focus h m (Node Leaf (m, d) s) ?up" using focus_node by fastforce
  then have m: "m \<noteq> a" "m \<notin> set (nodes l)" "m \<notin> set (nodes s)" "m \<notin> set (above_nodes ms)"
      "m \<notin> set (above_nodes fs)" "a \<notin> set (above_nodes ms)" "m \<noteq> 0" "rbe_color h m = d"
      "rbe_parent h m = up ?up"
    by (auto simp: focus_def)
  show "rbe_color h m = d" by (rule m)
  have fq: "focus h1 (rbe_right h m) s ?up"
    unfolding h1_def by (rule focus_unlink [OF fm]) simp
  then obtain p where "focus h1 p (plug s ms) (In_Right a c l # fs)"
    using focus_up by blast
  then have fa: "focus h1 a (Node l (a, c) (plug s ms)) fs"
    using focus_right by blast
  have "focus (take_place m a h1) m (Node l (m, c) (plug s ms)) fs"
    using l m by (intro focus_take_place [OF fa]) (auto simp: set_nodes_plug)
  then obtain p where "focus (take_place m a h1) p s ?up'"
    using focus_down focus_children(2) by blast
  then show "focus (take_place m a h1) (rbe_right h m) s ?up'" using focus_pointer fq by blast
  have "rbe_right h m \<noteq> m"
    using fm focus_nonzeros [OF fm] shape_member [of h m "rbe_right h m" s] m(3,7) by (auto simp: focus_def)
  then have par: "rbe_parent h1 m = up ?up"
    using m by (simp add: h1_def unlink_redirect adopt_def)
  show "(if rbe_parent h1 m = a then m else rbe_parent h m) = up ?up'"
  proof (cases ms)
    case (Cons g gs)
    then have "frame_node g \<noteq> a" using m(6) frame_node_in [of g] by auto
    then show ?thesis using Cons par m by simp
  qed (use par in simp)
qed

lemma remove_inner:
  assumes a: "focus h a (Node l (a, c) r) fs" and b: "bal n (plug (Node l (a, c) r) fs)"
    "root_color (plug (Node l (a, c) r) fs) = RB_BLACK" and two: "l \<noteq> Leaf" "r \<noteq> Leaf"
  shows "\<exists>h'. RB_REMOVE a h = Some (a, h') \<and> settled (before fs @ nodes l @ nodes r @ after fs) h'"
proof -
  obtain m d s ms where r: "r = plug (Node Leaf (m, d) s) ms" "before ms = []"
    using leftmost two(2) by blast
  let ?up = "ms @ In_Right a c l # fs" and ?up' = "ms @ In_Right m c l # fs"
  note S = successor_moved [OF a [unfolded r(1)] r(2) two(1)]
  let ?q = "rbe_right h m"
  let ?h1 = "unlink m ?q h"
  let ?h2 = "take_place m a ?h1"
  obtain j where j: "bal j (Node Leaf (m, d) s)" "cxt j ?up"
    using unplug_bal [of n "Node Leaf (m, d) s" ?up] b r(1) by auto
  obtain h' where h': "recolor d (up ?up') ?q ?h2 = Some h'" "settled (nodes (plug s ?up')) h'"
    using recolor_spec [OF S(3) j(1)] j(2) cxt_rename by blast
  have "augment_up ?h2 (up ?up') = Some ()"
    using augment_up_ends [OF S(3)] by simp
  moreover have "RB_REMOVE a h =
      (let parent = if rbe_parent ?h1 m = a then m else rbe_parent h m
       in Option.bind (if parent \<noteq> 0 then augment_up ?h2 parent else Some ())
            (\<lambda>_. map_option (\<lambda>h. (a, h)) (recolor (rbe_color h m) parent ?q ?h2)))"
    using two focus_entry [OF a] S(1) by (simp add: RB_REMOVE_def Let_def split del: if_split)
  ultimately have "RB_REMOVE a h = Some (a, h')"
    using h'(1) S(2,4) by (simp add: Let_def)
  moreover have "nodes (plug s ?up') = before fs @ nodes l @ nodes r @ after fs"
    using r by (simp add: nodes_plug_split)
  ultimately show ?thesis using h'(2) by auto
qed

lemma rb_remove_settled:
  assumes f: "focus h (rbh_root h) t []" and b: "bal n t" "root_color t = RB_BLACK"
    and n: "nodes t = xs @ a # ys"
  shows "\<exists>h'. RB_REMOVE a h = Some (a, h') \<and> settled (xs @ ys) h'"
proof -
  obtain l c r fs where a: "focus h a (Node l (a, c) r) fs" and t: "t = plug (Node l (a, c) r) fs"
    and xy: "xs = before fs @ nodes l" "ys = nodes r @ after fs"
    using node_focus [OF f n] by blast
  obtain k where k: "bal k (Node l (a, c) r)" "cxt k fs"
    using unplug_bal b t by blast
  show ?thesis
    using remove_edge [OF a k] remove_inner [OF a b [unfolded t]] xy by (cases "l = Leaf \<or> r = Leaf") simp_all
qed

lemma rb_remove_result:
  assumes t: "rb_tree key h t" and a: "a \<in> set (nodes t)"
  shows "\<exists>h' t'. RB_REMOVE a h = Some (a, h') \<and> rb_tree key h' t' \<and> nodes t' = remove1 a (nodes t)"
proof -
  have f: "focus h (rbh_root h) t []" and b: "bal (bheight t) t" "root_color t = RB_BLACK"
    and s: "sorted_wrt (<) (map key (nodes t))"
    using t by (auto simp: rb_tree_def)
  obtain xs ys where n: "nodes t = xs @ a # ys" "a \<notin> set xs"
    using split_list_first [OF a] by blast
  then have r: "remove1 a (nodes t) = xs @ ys" by (simp add: remove1_append)
  obtain h' where "RB_REMOVE a h = Some (a, h')" "settled (xs @ ys) h'"
    using rb_remove_settled [OF f b n(1)] by blast
  moreover have "sorted_wrt (<) (map key (xs @ ys))"
    using s n by (auto simp: sorted_wrt_append)
  ultimately show ?thesis using settled_rb_tree [of "xs @ ys" h' key] r by auto
qed

text \<open>A client that empties the tree from within \<^verbatim>\<open>RB_FOREACH_SAFE\<close>.\<close>

lemma remove_all_from:
  "rb_tree key h t \<Longrightarrow> nodes t = xs @ ys \<Longrightarrow>
     \<exists>h' t'. rb_safe_loop RB_NEXT remove_body (next_of ys) h = Some h' \<and> rb_tree key h' t' \<and> nodes t' = xs"
proof (induction ys arbitrary: h t)
  case Nil
  then show ?case by (auto simp: rb_safe_loop.simps [of RB_NEXT remove_body 0])
next
  case (Cons y ys)
  have y: "y \<noteq> 0" using Cons.prems focus_nonzeros by (fastforce simp: rb_tree_def)
  have "distinct (nodes t)" using Cons.prems(1) by (simp add: rb_tree_def focus_def)
  then have r: "remove1 y (nodes t) = xs @ ys" using Cons.prems(2) by (simp add: remove1_append)
  obtain h1 t1 where 1: "RB_REMOVE y h = Some (y, h1)" "rb_tree key h1 t1" "nodes t1 = xs @ ys"
    using rb_remove_result [OF Cons.prems(1), of y] Cons.prems(2) r by auto
  have "RB_NEXT y h = Some (next_of ys)" using rb_next_result Cons.prems by blast
  moreover have "remove_body y h = Some h1" using 1(1) by (simp add: remove_body_def)
  ultimately show ?case
    using Cons.IH [OF 1(2,3)] y by (simp add: rb_safe_loop.simps [of RB_NEXT remove_body y])
qed

lemma rb_remove_all:
  assumes "rb_tree key h t"
  shows "\<exists>h'. RB_FOREACH_SAFE remove_body h = Some h' \<and> RB_EMPTY h'"
  using remove_all_from [OF assms, of "[]" "nodes t"] rb_minmax_result [OF assms, of RB_NEGINF] rb_tree_empty
  by (fastforce simp: RB_FOREACH_SAFE_def RB_NEGINF_def)

end
