(* ===== verification/Splay_Macros.thy ===== *)
theory Splay_Macros
  imports Prelude
begin

text \<open>
  The splay tree macros of \<^verbatim>\<open>libuv/inc/tree.h\<close> (lines 64 to 294), at pointer level, in the style of
  Rb_Macros: a heap of the two fields of \<^verbatim>\<open>SPLAY_ENTRY\<close> and the field of the head. The functions
  that have a local variable \<^verbatim>\<open>__node\<close> take its address as the argument \<open>node\<close>; \<open>cmp\<close> is the
  comparison argument of the macro.
\<close>

section \<open>Heads, entries and the steps of a splay\<close>

record spheap =
  spe_left :: "addr \<Rightarrow> addr"
  spe_right :: "addr \<Rightarrow> addr"
  sph_root :: addr

definition set_spl :: "addr \<Rightarrow> addr \<Rightarrow> spheap \<Rightarrow> spheap" where
  "set_spl a v h = h\<lparr>spe_left := (spe_left h)(a := v)\<rparr>"

definition set_spr :: "addr \<Rightarrow> addr \<Rightarrow> spheap \<Rightarrow> spheap" where
  "set_spr a v h = h\<lparr>spe_right := (spe_right h)(a := v)\<rparr>"

definition set_head :: "addr \<Rightarrow> spheap \<Rightarrow> spheap" where
  "set_head v h = h\<lparr>sph_root := v\<rparr>"

definition SPLAY_INIT :: "spheap \<Rightarrow> spheap" where
  "SPLAY_INIT h = set_head 0 h"

definition SPLAY_EMPTY :: "spheap \<Rightarrow> bool" where
  "SPLAY_EMPTY h \<longleftrightarrow> sph_root h = 0"

definition SPLAY_ROTATE_RIGHT :: "addr \<Rightarrow> spheap \<Rightarrow> spheap" where
  "SPLAY_ROTATE_RIGHT tmp h =
     (let h = set_spl (sph_root h) (spe_right h tmp) h;
          h = set_spr tmp (sph_root h) h
      in set_head tmp h)"

definition SPLAY_ROTATE_LEFT :: "addr \<Rightarrow> spheap \<Rightarrow> spheap" where
  "SPLAY_ROTATE_LEFT tmp h =
     (let h = set_spr (sph_root h) (spe_left h tmp) h;
          h = set_spl tmp (sph_root h) h
      in set_head tmp h)"

text \<open>The argument \<open>tmp\<close> of the links is a variable that they also set.\<close>

definition SPLAY_LINKLEFT :: "addr \<Rightarrow> spheap \<Rightarrow> addr \<times> spheap" where
  "SPLAY_LINKLEFT tmp h =
     (let h = set_spl tmp (sph_root h) h;
          tmp = sph_root h
      in (tmp, set_head (spe_left h (sph_root h)) h))"

definition SPLAY_LINKRIGHT :: "addr \<Rightarrow> spheap \<Rightarrow> addr \<times> spheap" where
  "SPLAY_LINKRIGHT tmp h =
     (let h = set_spr tmp (sph_root h) h;
          tmp = sph_root h
      in (tmp, set_head (spe_right h (sph_root h)) h))"

definition SPLAY_ASSEMBLE :: "addr \<Rightarrow> addr \<Rightarrow> addr \<Rightarrow> spheap \<Rightarrow> spheap" where
  "SPLAY_ASSEMBLE node left right h =
     (let h = set_spr left (spe_left h (sph_root h)) h;
          h = set_spl right (spe_right h (sph_root h)) h;
          h = set_spl (sph_root h) (spe_right h node) h
      in set_spr (sph_root h) (spe_left h node) h)"

section \<open>Splaying\<close>

text \<open>
  The two branches of the loop body, with the test that decides on the rotation as an argument
  (it compares the key in \<^verbatim>\<open>SPLAY\<close> and the constant in \<^verbatim>\<open>SPLAY_MINMAX\<close>): whether the loop is left
  by \<^verbatim>\<open>break\<close>, the variables \<open>left\<close> and \<open>right\<close>, and the heap.
\<close>

definition splay_left :: "(addr \<Rightarrow> bool) \<Rightarrow> addr \<Rightarrow> addr \<Rightarrow> spheap \<Rightarrow> bool \<times> addr \<times> addr \<times> spheap" where
  "splay_left turn lft rgt h =
     (let tmp = spe_left h (sph_root h)
      in if tmp = 0 then (True, lft, rgt, h)
         else let h = (if turn tmp then SPLAY_ROTATE_RIGHT tmp h else h)
              in if turn tmp \<and> spe_left h (sph_root h) = 0 then (True, lft, rgt, h)
                 else let (rgt, h) = SPLAY_LINKLEFT rgt h in (False, lft, rgt, h))"

definition splay_right :: "(addr \<Rightarrow> bool) \<Rightarrow> addr \<Rightarrow> addr \<Rightarrow> spheap \<Rightarrow> bool \<times> addr \<times> addr \<times> spheap" where
  "splay_right turn lft rgt h =
     (let tmp = spe_right h (sph_root h)
      in if tmp = 0 then (True, lft, rgt, h)
         else let h = (if turn tmp then SPLAY_ROTATE_LEFT tmp h else h)
              in if turn tmp \<and> spe_right h (sph_root h) = 0 then (True, lft, rgt, h)
                 else let (lft, h) = SPLAY_LINKRIGHT lft h in (False, lft, rgt, h))"

definition splay_step ::
    "(addr \<Rightarrow> addr \<Rightarrow> int) \<Rightarrow> addr \<Rightarrow> addr \<Rightarrow> addr \<Rightarrow> spheap \<Rightarrow> bool \<times> addr \<times> addr \<times> spheap" where
  "splay_step cmp elm lft rgt h =
     (let side = cmp elm (sph_root h)
      in if side < 0 then splay_left (\<lambda>tmp. cmp elm tmp < 0) lft rgt h
         else if side > 0 then splay_right (\<lambda>tmp. cmp elm tmp > 0) lft rgt h
         else (False, lft, rgt, h))"

partial_function (option) splay_loop ::
    "(addr \<Rightarrow> addr \<Rightarrow> int) \<Rightarrow> addr \<Rightarrow> addr \<Rightarrow> addr \<Rightarrow> spheap \<Rightarrow> (addr \<times> addr \<times> spheap) option" where
  "splay_loop cmp elm lft rgt h =
     (if cmp elm (sph_root h) \<noteq> 0
      then if fst (splay_step cmp elm lft rgt h) then Some (snd (splay_step cmp elm lft rgt h))
           else splay_loop cmp elm (fst (snd (splay_step cmp elm lft rgt h)))
                  (fst (snd (snd (splay_step cmp elm lft rgt h))))
                  (snd (snd (snd (splay_step cmp elm lft rgt h))))
      else Some (lft, rgt, h))"

definition clear_node :: "addr \<Rightarrow> spheap \<Rightarrow> spheap" where
  "clear_node node h = set_spl node 0 (set_spr node 0 h)"

definition SPLAY :: "(addr \<Rightarrow> addr \<Rightarrow> int) \<Rightarrow> addr \<Rightarrow> addr \<Rightarrow> spheap \<Rightarrow> spheap option" where
  "SPLAY cmp node elm h =
     map_option (\<lambda>(lft, rgt, h). SPLAY_ASSEMBLE node lft rgt h)
       (splay_loop cmp elm node node (clear_node node h))"

definition SPLAY_NEGINF :: int where "SPLAY_NEGINF = - 1"
definition SPLAY_INF :: int where "SPLAY_INF = 1"

definition minmax_step :: "int \<Rightarrow> addr \<Rightarrow> addr \<Rightarrow> spheap \<Rightarrow> bool \<times> addr \<times> addr \<times> spheap" where
  "minmax_step side lft rgt h =
     (if side < 0 then splay_left (\<lambda>tmp. side < 0) lft rgt h
      else if side > 0 then splay_right (\<lambda>tmp. side > 0) lft rgt h
      else (False, lft, rgt, h))"

partial_function (option) minmax_loop ::
    "int \<Rightarrow> addr \<Rightarrow> addr \<Rightarrow> spheap \<Rightarrow> (addr \<times> addr \<times> spheap) option" where
  "minmax_loop side lft rgt h =
     (if fst (minmax_step side lft rgt h) then Some (snd (minmax_step side lft rgt h))
      else minmax_loop side (fst (snd (minmax_step side lft rgt h)))
             (fst (snd (snd (minmax_step side lft rgt h))))
             (snd (snd (snd (minmax_step side lft rgt h)))))"

definition SPLAY_MINMAX :: "int \<Rightarrow> addr \<Rightarrow> spheap \<Rightarrow> spheap option" where
  "SPLAY_MINMAX side node h =
     map_option (\<lambda>(lft, rgt, h). SPLAY_ASSEMBLE node lft rgt h)
       (minmax_loop side node node (clear_node node h))"

section \<open>The operations\<close>

definition SPLAY_FIND :: "(addr \<Rightarrow> addr \<Rightarrow> int) \<Rightarrow> addr \<Rightarrow> addr \<Rightarrow> spheap \<Rightarrow> (addr \<times> spheap) option" where
  "SPLAY_FIND cmp node elm h =
     (if SPLAY_EMPTY h then Some (0, h)
      else case SPLAY cmp node elm h of
             None \<Rightarrow> None
           | Some h \<Rightarrow> if cmp elm (sph_root h) = 0 then Some (sph_root h, h) else Some (0, h))"

partial_function (option) splay_down_left :: "spheap \<Rightarrow> addr \<Rightarrow> addr option" where
  "splay_down_left h elm =
     (if spe_left h elm \<noteq> 0 then splay_down_left h (spe_left h elm) else Some elm)"

definition SPLAY_NEXT :: "(addr \<Rightarrow> addr \<Rightarrow> int) \<Rightarrow> addr \<Rightarrow> addr \<Rightarrow> spheap \<Rightarrow> (addr \<times> spheap) option" where
  "SPLAY_NEXT cmp node elm h =
     (case SPLAY cmp node elm h of
        None \<Rightarrow> None
      | Some h \<Rightarrow>
          if spe_right h elm \<noteq> 0
          then map_option (\<lambda>elm. (elm, h)) (splay_down_left h (spe_right h elm))
          else Some (0, h))"

definition SPLAY_MIN_MAX :: "int \<Rightarrow> addr \<Rightarrow> spheap \<Rightarrow> (addr \<times> spheap) option" where
  "SPLAY_MIN_MAX val node h = map_option (\<lambda>h. (sph_root h, h)) (SPLAY_MINMAX val node h)"

definition SPLAY_MIN :: "addr \<Rightarrow> spheap \<Rightarrow> (addr \<times> spheap) option" where
  "SPLAY_MIN node h = (if SPLAY_EMPTY h then Some (0, h) else SPLAY_MIN_MAX SPLAY_NEGINF node h)"

definition SPLAY_MAX :: "addr \<Rightarrow> spheap \<Rightarrow> (addr \<times> spheap) option" where
  "SPLAY_MAX node h = (if SPLAY_EMPTY h then Some (0, h) else SPLAY_MIN_MAX SPLAY_INF node h)"

definition SPLAY_INSERT :: "(addr \<Rightarrow> addr \<Rightarrow> int) \<Rightarrow> addr \<Rightarrow> addr \<Rightarrow> spheap \<Rightarrow> (addr \<times> spheap) option" where
  "SPLAY_INSERT cmp node elm h =
     (if SPLAY_EMPTY h
      then let h = set_spr elm 0 h; h = set_spl elm 0 h in Some (0, set_head elm h)
      else case SPLAY cmp node elm h of
             None \<Rightarrow> None
           | Some h \<Rightarrow>
               let side = cmp elm (sph_root h)
               in if side < 0 then
                    let h = set_spl elm (spe_left h (sph_root h)) h;
                        h = set_spr elm (sph_root h) h;
                        h = set_spl (sph_root h) 0 h
                    in Some (0, set_head elm h)
                  else if side > 0 then
                    let h = set_spr elm (spe_right h (sph_root h)) h;
                        h = set_spl elm (sph_root h) h;
                        h = set_spr (sph_root h) 0 h
                    in Some (0, set_head elm h)
                  else Some (sph_root h, h))"

definition SPLAY_REMOVE :: "(addr \<Rightarrow> addr \<Rightarrow> int) \<Rightarrow> addr \<Rightarrow> addr \<Rightarrow> spheap \<Rightarrow> (addr \<times> spheap) option" where
  "SPLAY_REMOVE cmp node elm h =
     (if SPLAY_EMPTY h then Some (0, h)
      else case SPLAY cmp node elm h of
             None \<Rightarrow> None
           | Some h \<Rightarrow>
               if cmp elm (sph_root h) = 0 then
                 if spe_left h (sph_root h) = 0
                 then Some (elm, set_head (spe_right h (sph_root h)) h)
                 else let tmp = spe_right h (sph_root h);
                          h = set_head (spe_left h (sph_root h)) h
                      in map_option (\<lambda>h. (elm, set_spr (sph_root h) tmp h)) (SPLAY cmp node elm h)
               else Some (0, h))"

text \<open>\<^verbatim>\<open>SPLAY_FOREACH\<close> with a body that leaves the tree alone: the elements that the body sees.\<close>

partial_function (option) splay_foreach_from ::
    "(addr \<Rightarrow> addr \<Rightarrow> int) \<Rightarrow> addr \<Rightarrow> addr \<Rightarrow> spheap \<Rightarrow> (addr list \<times> spheap) option" where
  "splay_foreach_from cmp node x h =
     (if x \<noteq> 0
      then Option.bind (SPLAY_NEXT cmp node x h) (\<lambda>q.
           Option.bind (splay_foreach_from cmp node (fst q) (snd q)) (\<lambda>r. Some (x # fst r, snd r)))
      else Some ([], h))"

definition SPLAY_FOREACH :: "(addr \<Rightarrow> addr \<Rightarrow> int) \<Rightarrow> addr \<Rightarrow> spheap \<Rightarrow> (addr list \<times> spheap) option" where
  "SPLAY_FOREACH cmp node h =
     Option.bind (SPLAY_MIN node h) (\<lambda>q. splay_foreach_from cmp node (fst q) (snd q))"

end
