(* ===== verification/Splay_Tree.thy ===== *)
theory Splay_Tree
  imports Splay_Macros Tree_Order "HOL-Library.Tree"
begin

text \<open>
  The splay tree operations on a tree in the heap. During a splay the tree is in three parts: the
  tree at the root and two chains that grow from the local variable \<^verbatim>\<open>__node\<close>, of the nodes
  known to be smaller and of those known to be greater (\<open>splay_state\<close>). Every step keeps the sequence of all
  nodes, and the loop ends because the tree at the root gets smaller.
\<close>

section \<open>Trees and parts\<close>

fun stree :: "spheap \<Rightarrow> addr \<Rightarrow> addr tree \<Rightarrow> bool" where
  "stree h p Leaf = (p = 0)"
| "stree h p (Node l a r) = (p = a \<and> a \<noteq> 0 \<and> stree h (spe_left h a) l \<and> stree h (spe_right h a) r)"

type_synonym part = "(addr \<times> addr tree) list"

definition part_end :: "addr \<Rightarrow> part \<Rightarrow> addr" where
  "part_end node ps = (case ps of [] \<Rightarrow> node | (a, t) # _ \<Rightarrow> a)"

lemma part_end_simps [simp]: "part_end node [] = node" "part_end node ((a, t) # ps) = a"
  by (simp_all add: part_end_def)

fun lpart :: "spheap \<Rightarrow> addr \<Rightarrow> part \<Rightarrow> bool" where
  "lpart h node [] = True"
| "lpart h node ((a, l) # ps) =
     (a \<noteq> 0 \<and> spe_right h (part_end node ps) = a \<and> stree h (spe_left h a) l \<and> lpart h node ps)"

fun rpart :: "spheap \<Rightarrow> addr \<Rightarrow> part \<Rightarrow> bool" where
  "rpart h node [] = True"
| "rpart h node ((a, r) # ps) =
     (a \<noteq> 0 \<and> spe_left h (part_end node ps) = a \<and> stree h (spe_right h a) r \<and> rpart h node ps)"

fun lnodes :: "part \<Rightarrow> addr list" where
  "lnodes [] = []"
| "lnodes ((a, l) # ps) = lnodes ps @ inorder l @ [a]"

fun rnodes :: "part \<Rightarrow> addr list" where
  "rnodes [] = []"
| "rnodes ((a, r) # ps) = a # inorder r @ rnodes ps"

fun lfill :: "addr tree \<Rightarrow> part \<Rightarrow> addr tree" where
  "lfill t [] = t"
| "lfill t ((a, l) # ps) = lfill (Node l a t) ps"

fun rfill :: "addr tree \<Rightarrow> part \<Rightarrow> addr tree" where
  "rfill t [] = t"
| "rfill t ((a, r) # ps) = rfill (Node t a r) ps"

lemma inorder_lfill [simp]: "inorder (lfill t ps) = lnodes ps @ inorder t"
  by (induction t ps rule: lfill.induct) auto

lemma inorder_rfill [simp]: "inorder (rfill t ps) = inorder t @ rnodes ps"
  by (induction t ps rule: rfill.induct) auto

definition splay_state :: "spheap \<Rightarrow> addr \<Rightarrow> part \<Rightarrow> addr tree \<Rightarrow> part \<Rightarrow> bool" where
  "splay_state h node ls t rs \<longleftrightarrow>
     stree h (sph_root h) t \<and> lpart h node ls \<and> rpart h node rs
     \<and> distinct (node # lnodes ls @ inorder t @ rnodes rs) \<and> node \<noteq> 0"

lemma stree_member: "stree h p t \<Longrightarrow> p = 0 \<and> t = Leaf \<or> p \<noteq> 0 \<and> p \<in> set_tree t \<and> t \<noteq> Leaf"
  by (cases t) auto

lemma stree_nonzero: "stree h p t \<Longrightarrow> 0 \<notin> set_tree t"
  by (induction h p t rule: stree.induct) auto

lemma part_end_in:
  "part_end node ls = node \<or> part_end node ls \<in> set (lnodes ls)"
  "part_end node rs = node \<or> part_end node rs \<in> set (rnodes rs)"
  by (cases ls; auto) (cases rs; auto)

section \<open>Frame rules\<close>

lemma sp_sel [simp]:
  "spe_left (set_spl a v h) = (spe_left h)(a := v)" "spe_right (set_spl a v h) = spe_right h"
  "sph_root (set_spl a v h) = sph_root h"
  "spe_left (set_spr a v h) = spe_left h" "spe_right (set_spr a v h) = (spe_right h)(a := v)"
  "sph_root (set_spr a v h) = sph_root h"
  "spe_left (set_head v h) = spe_left h" "spe_right (set_head v h) = spe_right h"
  "sph_root (set_head v h) = v"
  by (simp_all add: set_spl_def set_spr_def set_head_def)

definition outside :: "addr set \<Rightarrow> spheap \<Rightarrow> spheap \<Rightarrow> bool" where
  "outside A h h' \<longleftrightarrow> (\<forall>a. a \<notin> A \<longrightarrow> spe_left h' a = spe_left h a \<and> spe_right h' a = spe_right h a)"

lemma outside_refl [simp]: "outside A h h"
  by (simp add: outside_def)

lemma outside_trans: "outside A h h' \<Longrightarrow> outside A h' h'' \<Longrightarrow> outside A h h''"
  by (simp add: outside_def)

lemma stree_cong:
  "outside A h h' \<Longrightarrow> A \<inter> set_tree t = {} \<Longrightarrow> stree h' p t = stree h p t"
proof (induction t arbitrary: p)
  case (Node l a r)
  then have "a \<notin> A" "A \<inter> set_tree l = {}" "A \<inter> set_tree r = {}" by auto
  then show ?case using Node by (simp add: outside_def)
qed simp

lemma stree_upd [simp]:
  "a \<notin> set_tree t \<Longrightarrow> stree (set_spl a v h) p t = stree h p t"
  "a \<notin> set_tree t \<Longrightarrow> stree (set_spr a v h) p t = stree h p t"
  "stree (set_head v h) p t = stree h p t"
  by (induction t arbitrary: p) auto

lemma lpart_upd [simp]:
  "a \<notin> set (lnodes ls) \<Longrightarrow> lpart (set_spl a v h) node ls = lpart h node ls"
  "a \<notin> set (lnodes ls) \<Longrightarrow> a \<noteq> node \<Longrightarrow> lpart (set_spr a v h) node ls = lpart h node ls"
  "lpart (set_head v h) node ls = lpart h node ls"
proof -
  show "a \<notin> set (lnodes ls) \<Longrightarrow> lpart (set_spl a v h) node ls = lpart h node ls"
    by (induction h node ls rule: lpart.induct) auto
  show "a \<notin> set (lnodes ls) \<Longrightarrow> a \<noteq> node \<Longrightarrow> lpart (set_spr a v h) node ls = lpart h node ls"
  proof (induction h node ls rule: lpart.induct)
    case (2 h node b l ps)
    then show ?case using part_end_in(1) [of node ps] by auto
  qed simp
  show "lpart (set_head v h) node ls = lpart h node ls"
    by (induction h node ls rule: lpart.induct) auto
qed

lemma rpart_upd [simp]:
  "a \<notin> set (rnodes ls) \<Longrightarrow> rpart (set_spr a v h) node ls = rpart h node ls"
  "a \<notin> set (rnodes ls) \<Longrightarrow> a \<noteq> node \<Longrightarrow> rpart (set_spl a v h) node ls = rpart h node ls"
  "rpart (set_head v h) node ls = rpart h node ls"
proof -
  show "a \<notin> set (rnodes ls) \<Longrightarrow> rpart (set_spr a v h) node ls = rpart h node ls"
    by (induction h node ls rule: rpart.induct) auto
  show "a \<notin> set (rnodes ls) \<Longrightarrow> a \<noteq> node \<Longrightarrow> rpart (set_spl a v h) node ls = rpart h node ls"
  proof (induction h node ls rule: rpart.induct)
    case (2 h node b l ps)
    then show ?case using part_end_in(2) [of node ps] by auto
  qed simp
  show "rpart (set_head v h) node ls = rpart h node ls"
    by (induction h node ls rule: rpart.induct) auto
qed

text \<open>The open end of a chain may hold anything.\<close>

lemma lpart_end_upd:
  assumes "distinct (node # lnodes ls)"
  shows "lpart (set_spr (part_end node ls) v h) node ls = lpart h node ls"
proof (cases ls)
  case (Cons q ps)
  obtain a l where "q = (a, l)" by fastforce
  then show ?thesis using assms Cons part_end_in(1) [of node ps] by auto
qed simp

lemma rpart_end_upd:
  assumes "distinct (node # rnodes rs)"
  shows "rpart (set_spl (part_end node rs) v h) node rs = rpart h node rs"
proof (cases rs)
  case (Cons q ps)
  obtain a r where "q = (a, r)" by fastforce
  then show ?thesis using assms Cons part_end_in(2) [of node ps] by auto
qed simp

lemma lpart_fill:
  "lpart h node ls \<Longrightarrow> stree h (spe_right h (part_end node ls)) t \<Longrightarrow> stree h (spe_right h node) (lfill t ls)"
  by (induction t ls rule: lfill.induct) auto

lemma rpart_fill:
  "rpart h node rs \<Longrightarrow> stree h (spe_left h (part_end node rs)) t \<Longrightarrow> stree h (spe_left h node) (rfill t rs)"
  by (induction t rs rule: rfill.induct) auto

section \<open>The steps of a splay\<close>

lemma splay_state_root: "splay_state h node ls (Node l x r) rs \<Longrightarrow> sph_root h = x \<and> x \<noteq> 0"
  by (simp add: splay_state_def)

lemma splay_rotate_right:
  assumes "splay_state h node ls (Node (Node A y B) x C) rs"
  shows "splay_state (SPLAY_ROTATE_RIGHT y h) node ls (Node A y (Node B x C)) rs"
  using assms by (auto simp: splay_state_def SPLAY_ROTATE_RIGHT_def Let_def)

lemma splay_rotate_left:
  assumes "splay_state h node ls (Node C x (Node B y A)) rs"
  shows "splay_state (SPLAY_ROTATE_LEFT y h) node ls (Node (Node C x B) y A) rs"
  using assms by (auto simp: splay_state_def SPLAY_ROTATE_LEFT_def Let_def)

lemma splay_linkleft:
  assumes s: "splay_state h node ls (Node l x r) rs"
  shows "\<exists>h'. SPLAY_LINKLEFT (part_end node rs) h = (x, h') \<and> splay_state h' node ls l ((x, r) # rs)
    \<and> outside (insert node (set (lnodes ls @ inorder (Node l x r) @ rnodes rs))) h h'"
proof -
  let ?e = "part_end node rs"
  have e: "?e = node \<or> ?e \<in> set (rnodes rs)" by (rule part_end_in)
  have d: "distinct (node # rnodes rs)" using s by (simp add: splay_state_def)
  have "?e \<notin> set_tree l" "?e \<notin> set_tree r" "?e \<notin> set (lnodes ls)" "?e \<noteq> x"
    using e s by (auto simp: splay_state_def)
  then show ?thesis
    using s e rpart_end_upd [OF d]
    by (auto simp: SPLAY_LINKLEFT_def Let_def splay_state_def outside_def)
qed

lemma splay_linkright:
  assumes s: "splay_state h node ls (Node l x r) rs"
  shows "\<exists>h'. SPLAY_LINKRIGHT (part_end node ls) h = (x, h') \<and> splay_state h' node ((x, l) # ls) r rs
    \<and> outside (insert node (set (lnodes ls @ inorder (Node l x r) @ rnodes rs))) h h'"
proof -
  let ?e = "part_end node ls"
  have e: "?e = node \<or> ?e \<in> set (lnodes ls)" by (rule part_end_in)
  have d: "distinct (node # lnodes ls)" using s by (simp add: splay_state_def)
  have "?e \<notin> set_tree l" "?e \<notin> set_tree r" "?e \<notin> set (rnodes rs)" "?e \<noteq> x"
    using e s by (auto simp: splay_state_def)
  then show ?thesis
    using s e lpart_end_upd [OF d]
    by (auto simp: SPLAY_LINKRIGHT_def Let_def splay_state_def outside_def)
qed

text \<open>
  The branches of the loop body: the loop is left with no left child at the root, or the root
  moves to the right part.
\<close>

definition total :: "part \<Rightarrow> addr tree \<Rightarrow> part \<Rightarrow> addr list" where
  "total ls t rs = lnodes ls @ inorder t @ rnodes rs"

definition stopped_left ::
    "(addr \<Rightarrow> bool) \<Rightarrow> addr \<Rightarrow> part \<Rightarrow> addr tree \<Rightarrow> part \<Rightarrow> spheap \<Rightarrow> bool \<times> addr \<times> addr \<times> spheap \<Rightarrow> bool" where
  "stopped_left P node ls t rs h s \<longleftrightarrow>
     (\<exists>h' x r. s = (True, part_end node ls, part_end node rs, h') \<and> splay_state h' node ls (Node Leaf x r) rs
        \<and> inorder (Node Leaf x r) = inorder t \<and> P x \<and> outside (insert node (set (total ls t rs))) h h')"

definition linked_left ::
    "(addr \<Rightarrow> bool) \<Rightarrow> addr \<Rightarrow> part \<Rightarrow> addr tree \<Rightarrow> part \<Rightarrow> spheap \<Rightarrow> bool \<times> addr \<times> addr \<times> spheap \<Rightarrow> bool" where
  "linked_left P node ls t rs h s \<longleftrightarrow>
     (\<exists>h' l x r. s = (False, part_end node ls, x, h') \<and> splay_state h' node ls l ((x, r) # rs)
        \<and> l \<noteq> Leaf \<and> inorder l @ x # inorder r = inorder t \<and> size l < size t \<and> P x
        \<and> outside (insert node (set (total ls t rs))) h h')"

definition stopped_right ::
    "(addr \<Rightarrow> bool) \<Rightarrow> addr \<Rightarrow> part \<Rightarrow> addr tree \<Rightarrow> part \<Rightarrow> spheap \<Rightarrow> bool \<times> addr \<times> addr \<times> spheap \<Rightarrow> bool" where
  "stopped_right P node ls t rs h s \<longleftrightarrow>
     (\<exists>h' x l. s = (True, part_end node ls, part_end node rs, h') \<and> splay_state h' node ls (Node l x Leaf) rs
        \<and> inorder (Node l x Leaf) = inorder t \<and> P x \<and> outside (insert node (set (total ls t rs))) h h')"

definition linked_right ::
    "(addr \<Rightarrow> bool) \<Rightarrow> addr \<Rightarrow> part \<Rightarrow> addr tree \<Rightarrow> part \<Rightarrow> spheap \<Rightarrow> bool \<times> addr \<times> addr \<times> spheap \<Rightarrow> bool" where
  "linked_right P node ls t rs h s \<longleftrightarrow>
     (\<exists>h' l x r. s = (False, x, part_end node rs, h') \<and> splay_state h' node ((x, l) # ls) r rs
        \<and> r \<noteq> Leaf \<and> inorder l @ x # inorder r = inorder t \<and> size r < size t \<and> P x
        \<and> outside (insert node (set (total ls t rs))) h h')"

lemma splay_left_outcome:
  assumes s: "splay_state h node ls (Node l x r) rs" and P: "P x" "\<And>y. turn y \<Longrightarrow> P y"
  defines "res \<equiv> splay_left turn (part_end node ls) (part_end node rs) h"
  shows "stopped_left P node ls (Node l x r) rs h res \<or> linked_left P node ls (Node l x r) rs h res"
proof (cases l)
  case Leaf
  then have "res = (True, part_end node ls, part_end node rs, h)"
    using s by (simp add: res_def splay_left_def splay_state_def Let_def)
  then have "stopped_left P node ls (Node l x r) rs h res"
    using s P(1) Leaf unfolding stopped_left_def by auto
  then show ?thesis ..
next
  case (Node A y B)
  have root: "sph_root h = x" "spe_left h x = y" "y \<noteq> 0"
    using s Node by (simp_all add: splay_state_def)
  show ?thesis
  proof (cases "turn y")
    case False
    obtain h' where h': "SPLAY_LINKLEFT (part_end node rs) h = (x, h')" "splay_state h' node ls l ((x, r) # rs)"
      "outside (insert node (set (total ls (Node l x r) rs))) h h'"
      using splay_linkleft [OF s] unfolding total_def by blast
    then have "res = (False, part_end node ls, x, h')"
      using root False by (simp add: res_def splay_left_def Let_def)
    then have "linked_left P node ls (Node l x r) rs h res"
      unfolding linked_left_def using h' P(1) Node by (intro exI conjI) auto
    then show ?thesis ..
  next
    case True
    let ?h = "SPLAY_ROTATE_RIGHT y h" and ?r = "Node B x r"
    have s1: "splay_state ?h node ls (Node A y ?r) rs"
      using splay_rotate_right s Node by blast
    have root1: "sph_root ?h = y" using splay_state_root [OF s1] by simp
    have out: "outside (insert node (set (total ls (Node l x r) rs))) h ?h"
      using root Node by (auto simp: SPLAY_ROTATE_RIGHT_def Let_def outside_def total_def)
    show ?thesis
    proof (cases "A = Leaf")
      case True
      then have "res = (True, part_end node ls, part_end node rs, ?h)"
        using root root1 \<open>turn y\<close> s1 by (simp add: res_def splay_left_def Let_def splay_state_def)
      then have "stopped_left P node ls (Node l x r) rs h res"
        unfolding stopped_left_def using s1 True Node P(2) [OF \<open>turn y\<close>] out
        by (intro exI [of _ ?h] exI [of _ y] exI [of _ ?r]) simp
      then show ?thesis ..
    next
      case False
      then have "spe_left ?h y \<noteq> 0"
        using s1 stree_member [of ?h "spe_left ?h y" A] by (auto simp: splay_state_def)
      moreover obtain h' where h': "SPLAY_LINKLEFT (part_end node rs) ?h = (y, h')"
        "splay_state h' node ls A ((y, ?r) # rs)"
        "outside (insert node (set (total ls (Node A y ?r) rs))) ?h h'"
        using splay_linkleft [OF s1] unfolding total_def by blast
      ultimately have "res = (False, part_end node ls, y, h')"
        using root root1 \<open>turn y\<close> by (simp add: res_def splay_left_def Let_def)
      moreover have "total ls (Node A y ?r) rs = total ls (Node l x r) rs"
        using Node by (simp add: total_def)
      then have "outside (insert node (set (total ls (Node l x r) rs))) h h'"
        using outside_trans [OF out] h'(3) by simp
      ultimately have "linked_left P node ls (Node l x r) rs h res"
        unfolding linked_left_def using h' False P(2) [OF \<open>turn y\<close>] Node
        by (intro exI [of _ h'] exI [of _ A] exI [of _ y] exI [of _ ?r]) simp
      then show ?thesis ..
    qed
  qed
qed

lemma splay_right_outcome:
  assumes s: "splay_state h node ls (Node l x r) rs" and P: "P x" "\<And>y. turn y \<Longrightarrow> P y"
  defines "res \<equiv> splay_right turn (part_end node ls) (part_end node rs) h"
  shows "stopped_right P node ls (Node l x r) rs h res \<or> linked_right P node ls (Node l x r) rs h res"
proof (cases r)
  case Leaf
  then have "res = (True, part_end node ls, part_end node rs, h)"
    using s by (simp add: res_def splay_right_def splay_state_def Let_def)
  then have "stopped_right P node ls (Node l x r) rs h res"
    using s P(1) Leaf unfolding stopped_right_def by auto
  then show ?thesis ..
next
  case (Node B y A)
  have root: "sph_root h = x" "spe_right h x = y" "y \<noteq> 0"
    using s Node by (simp_all add: splay_state_def)
  show ?thesis
  proof (cases "turn y")
    case False
    obtain h' where h': "SPLAY_LINKRIGHT (part_end node ls) h = (x, h')" "splay_state h' node ((x, l) # ls) r rs"
      "outside (insert node (set (total ls (Node l x r) rs))) h h'"
      using splay_linkright [OF s] unfolding total_def by blast
    then have "res = (False, x, part_end node rs, h')"
      using root False by (simp add: res_def splay_right_def Let_def)
    then have "linked_right P node ls (Node l x r) rs h res"
      unfolding linked_right_def using h' P(1) Node by (intro exI conjI) auto
    then show ?thesis ..
  next
    case True
    let ?h = "SPLAY_ROTATE_LEFT y h" and ?l = "Node l x B"
    have s1: "splay_state ?h node ls (Node ?l y A) rs"
      using splay_rotate_left s Node by blast
    have root1: "sph_root ?h = y" using splay_state_root [OF s1] by simp
    have out: "outside (insert node (set (total ls (Node l x r) rs))) h ?h"
      using root Node by (auto simp: SPLAY_ROTATE_LEFT_def Let_def outside_def total_def)
    show ?thesis
    proof (cases "A = Leaf")
      case True
      then have "res = (True, part_end node ls, part_end node rs, ?h)"
        using root root1 \<open>turn y\<close> s1 by (simp add: res_def splay_right_def Let_def splay_state_def)
      then have "stopped_right P node ls (Node l x r) rs h res"
        unfolding stopped_right_def using s1 True Node P(2) [OF \<open>turn y\<close>] out
        by (intro exI [of _ ?h] exI [of _ y] exI [of _ ?l]) simp
      then show ?thesis ..
    next
      case False
      then have "spe_right ?h y \<noteq> 0"
        using s1 stree_member [of ?h "spe_right ?h y" A] by (auto simp: splay_state_def)
      moreover obtain h' where h': "SPLAY_LINKRIGHT (part_end node ls) ?h = (y, h')"
        "splay_state h' node ((y, ?l) # ls) A rs"
        "outside (insert node (set (total ls (Node ?l y A) rs))) ?h h'"
        using splay_linkright [OF s1] unfolding total_def by blast
      ultimately have "res = (False, y, part_end node rs, h')"
        using root root1 \<open>turn y\<close> by (simp add: res_def splay_right_def Let_def)
      moreover have "total ls (Node ?l y A) rs = total ls (Node l x r) rs"
        using Node by (simp add: total_def)
      then have "outside (insert node (set (total ls (Node l x r) rs))) h h'"
        using outside_trans [OF out] h'(3) by simp
      ultimately have "linked_right P node ls (Node l x r) rs h res"
        unfolding linked_right_def using h' False P(2) [OF \<open>turn y\<close>] Node
        by (intro exI [of _ h'] exI [of _ ?l] exI [of _ y] exI [of _ A]) simp
      then show ?thesis ..
    qed
  qed
qed

end
