(* ===== verification/Splay_Ops.thy ===== *)
theory Splay_Ops
  imports Splay_Tree
begin

text \<open>
  The splay loops as a whole, and the operations over them: \<^verbatim>\<open>SPLAY_FIND\<close>, \<^verbatim>\<open>SPLAY_INSERT\<close>,
  \<^verbatim>\<open>SPLAY_REMOVE\<close>, \<^verbatim>\<open>SPLAY_NEXT\<close>, \<^verbatim>\<open>SPLAY_MIN\<close>, \<^verbatim>\<open>SPLAY_MAX\<close> and \<^verbatim>\<open>SPLAY_FOREACH\<close>. Each returns on a
  tree with ordered keys, and its effect is told by the list of the nodes in order.
\<close>

section \<open>The end of a splay\<close>

lemma splay_assemble:
  assumes s: "splay_state h node ls (Node l x r) rs"
  defines "h' \<equiv> SPLAY_ASSEMBLE node (part_end node ls) (part_end node rs) h"
  shows "sph_root h' = x" "stree h' x (Node (lfill l ls) x (rfill r rs))"
    "outside (insert node (set (total ls (Node l x r) rs))) h h'"
proof -
  let ?le = "part_end node ls" and ?re = "part_end node rs"
  have root: "sph_root h = x" "x \<noteq> 0" using splay_state_root [OF s] by simp_all
  have e: "?le = node \<or> ?le \<in> set (lnodes ls)" "?re = node \<or> ?re \<in> set (rnodes rs)"
    by (rule part_end_in)+
  have d: "distinct (node # lnodes ls)" "distinct (node # rnodes rs)" "x \<noteq> node"
    "?le \<notin> set_tree l" "?le \<notin> set_tree r" "?re \<notin> set_tree l" "?re \<notin> set_tree r" "?le \<noteq> x" "?re \<noteq> x"
    "?re \<notin> set (lnodes ls)" "?le \<notin> set (rnodes rs)"
    using s e by (auto simp: splay_state_def)
  define h2 where "h2 = set_spl ?re (spe_right h x) (set_spr ?le (spe_left h x) h)"
  have "lpart h2 node ls" "rpart h2 node rs"
    using s d lpart_end_upd rpart_end_upd by (simp_all add: h2_def splay_state_def)
  moreover have "stree h2 (spe_right h2 ?le) l" "stree h2 (spe_left h2 ?re) r"
    using s d by (auto simp: h2_def splay_state_def)
  ultimately have fill: "stree h2 (spe_right h2 node) (lfill l ls)" "stree h2 (spe_left h2 node) (rfill r rs)"
    by (simp_all add: lpart_fill rpart_fill)
  have h': "h' = set_spr x (spe_left h2 node) (set_spl x (spe_right h2 node) h2)"
    using root d by (simp add: h'_def SPLAY_ASSEMBLE_def Let_def h2_def)
  have "set_tree (lfill l ls) = set (lnodes ls) \<union> set_tree l"
    "set_tree (rfill r rs) = set_tree r \<union> set (rnodes rs)"
    using inorder_lfill [of l ls] inorder_rfill [of r rs] by (metis set_append set_inorder)+
  then have "x \<notin> set_tree (lfill l ls)" "x \<notin> set_tree (rfill r rs)"
    using s by (auto simp: splay_state_def)
  then show "stree h' x (Node (lfill l ls) x (rfill r rs))"
    using fill root d by (simp add: h')
  show "sph_root h' = x" using root by (simp add: h' h2_def)
  show "outside (insert node (set (total ls (Node l x r) rs))) h h'"
    using e by (auto simp: h' h2_def outside_def total_def)
qed

definition ended :: "(addr \<Rightarrow> 'k::linorder) \<Rightarrow> addr \<Rightarrow> addr tree \<Rightarrow> addr \<Rightarrow> addr tree \<Rightarrow> bool" where
  "ended key e l x r \<longleftrightarrow>
     key x = key e \<or> key e < key x \<and> l = Leaf \<or> key x < key e \<and> r = Leaf"

definition parted :: "(addr \<Rightarrow> 'k::linorder) \<Rightarrow> addr \<Rightarrow> part \<Rightarrow> part \<Rightarrow> bool" where
  "parted key e ls rs \<longleftrightarrow>
     (\<forall>y\<in>set (lnodes ls). key y < key e) \<and> (\<forall>y\<in>set (rnodes rs). key e < key y)"

definition splay_done ::
    "(addr \<Rightarrow> 'k::linorder) \<Rightarrow> addr \<Rightarrow> addr \<Rightarrow> addr list \<Rightarrow> spheap \<Rightarrow> (addr \<times> addr \<times> spheap) option \<Rightarrow> bool"
  where
  "splay_done key e node xs h res \<longleftrightarrow>
     (\<exists>h' ls l x r rs. res = Some (part_end node ls, part_end node rs, h')
        \<and> splay_state h' node ls (Node l x r) rs \<and> total ls (Node l x r) rs = xs
        \<and> parted key e ls rs \<and> ended key e l x r \<and> outside (insert node (set xs)) h h')"

lemma splay_doneI:
  assumes "splay_state h' node ls (Node l x r) rs" "total ls (Node l x r) rs = xs"
    "parted key e ls rs" "ended key e l x r" "outside (insert node (set xs)) h h'"
  shows "splay_done key e node xs h (Some (part_end node ls, part_end node rs, h'))"
  using assms unfolding splay_done_def by blast

lemma splay_done_outside:
  "splay_done key e node xs h' res \<Longrightarrow> outside (insert node (set xs)) h h' \<Longrightarrow> splay_done key e node xs h res"
  unfolding splay_done_def using outside_trans by blast

lemma sorted_around:
  "sorted_wrt (<) (map key (xs @ x # ys)) \<Longrightarrow>
     (\<forall>y\<in>set xs. key y < key x) \<and> (\<forall>y\<in>set ys. key x < (key y :: 'k::linorder))"
  by (auto simp: sorted_wrt_append)

lemma splay_loop_root:
  assumes "splay_state h node ls (Node l x r) rs"
  shows "splay_loop cmp e a b h =
    (let s = splay_step cmp e a b h
     in if cmp e x \<noteq> 0
        then if fst s then Some (snd s) else splay_loop cmp e (fst (snd s)) (fst (snd (snd s))) (snd (snd (snd s)))
        else Some (a, b, h))"
  by (subst splay_loop.simps) (simp add: splay_state_root [OF assms] Let_def)

lemma parted_left:
  assumes "parted key e ls rs" "key e < key x" "sorted_wrt (<) (map key (total ls l ((x, r) # rs)))"
  shows "parted key e ls ((x, r) # rs)"
proof -
  have "sorted_wrt (<) (map key ((lnodes ls @ inorder l) @ x # (inorder r @ rnodes rs)))"
    using assms(3) by (simp add: total_def)
  then have "\<forall>y\<in>set_tree r. key x < key y" using sorted_around by fastforce
  then show ?thesis using assms(1,2) by (auto simp: parted_def)
qed

lemma parted_right:
  assumes "parted key e ls rs" "key x < key e" "sorted_wrt (<) (map key (total ((x, l) # ls) r rs))"
  shows "parted key e ((x, l) # ls) rs"
proof -
  have "sorted_wrt (<) (map key ((lnodes ls @ inorder l) @ x # (inorder r @ rnodes rs)))"
    using assms(3) by (simp add: total_def)
  then have "\<forall>y\<in>set_tree l. key y < key x" using sorted_around by fastforce
  then show ?thesis using assms(1,2) by (auto simp: parted_def)
qed

text \<open>One turn of the loop to each side: it stops with the result, or goes on with a smaller tree.\<close>

abbreviation splay_ends :: "(addr \<Rightarrow> addr \<Rightarrow> int) \<Rightarrow> (addr \<Rightarrow> 'k::linorder) \<Rightarrow> addr \<Rightarrow> addr \<Rightarrow>
    spheap \<Rightarrow> (addr \<times> addr tree) list \<Rightarrow> addr tree \<Rightarrow> (addr \<times> addr tree) list \<Rightarrow> bool" where
  "splay_ends cmp key e node h ls t rs \<equiv>
     splay_done key e node (total ls t rs) h (splay_loop cmp e (part_end node ls) (part_end node rs) h)"

lemma splay_turn_left:
  assumes cmp: "cmp_ok cmp key" and s: "splay_state h node ls (Node l x r) rs" and lt: "key e < key x"
    and sorted: "sorted_wrt (<) (map key (total ls (Node l x r) rs))" and p: "parted key e ls rs"
    and IH: "\<And>h ls t rs. size t < size (Node l x r) \<Longrightarrow> splay_state h node ls t rs \<Longrightarrow> t \<noteq> Leaf \<Longrightarrow>
      sorted_wrt (<) (map key (total ls t rs)) \<Longrightarrow> parted key e ls rs \<Longrightarrow> splay_ends cmp key e node h ls t rs"
  shows "splay_ends cmp key e node h ls (Node l x r) rs"
proof -
  let ?t = "Node l x r" and ?P = "\<lambda>y. key e < key y"
  let ?xs = "total ls ?t rs" and ?s = "splay_step cmp e (part_end node ls) (part_end node rs) h"
  have c: "(cmp e y < 0) = (key e < key y)" for y using cmp_okD [OF cmp] by auto
  have st: "?s = splay_left (\<lambda>y. cmp e y < 0) (part_end node ls) (part_end node rs) h"
    using lt c by (simp add: splay_step_def splay_state_root [OF s])
  have ne: "cmp e x \<noteq> 0" using lt c [of x] by auto
  note unf = splay_loop_root [OF s, of cmp e "part_end node ls" "part_end node rs"]
  consider "stopped_left ?P node ls ?t rs h ?s" | "linked_left ?P node ls ?t rs h ?s"
    using splay_left_outcome [OF s, of ?P "\<lambda>y. cmp e y < 0"] lt c st by auto
  then show ?thesis
  proof cases
    case 1
    then obtain h' x' r' where o: "?s = (True, part_end node ls, part_end node rs, h')"
      "splay_state h' node ls (Node Leaf x' r') rs" "inorder (Node Leaf x' r') = inorder ?t"
      "key e < key x'" "outside (insert node (set ?xs)) h h'"
      unfolding stopped_left_def by blast
    then show ?thesis
      using unf ne p splay_doneI [OF o(2), of ?xs key e h] by (simp add: ended_def total_def)
  next
    case 2
    then obtain h' l' x' r' where o: "?s = (False, part_end node ls, x', h')"
      "splay_state h' node ls l' ((x', r') # rs)" "l' \<noteq> Leaf" "inorder l' @ x' # inorder r' = inorder ?t"
      "size l' < size ?t" "key e < key x'" "outside (insert node (set ?xs)) h h'"
      unfolding linked_left_def by blast
    have tot: "total ls l' ((x', r') # rs) = ?xs" using o(4) by (simp add: total_def)
    have sorted': "sorted_wrt (<) (map key (total ls l' ((x', r') # rs)))" using sorted unfolding tot .
    have "splay_ends cmp key e node h' ls l' ((x', r') # rs)"
      by (rule IH [OF o(5,2,3) sorted' parted_left [OF p o(6) sorted']])
    then show ?thesis using unf ne o(1,7) splay_done_outside tot by simp
  qed
qed

lemma splay_turn_right:
  assumes cmp: "cmp_ok cmp key" and s: "splay_state h node ls (Node l x r) rs" and gr: "key x < key e"
    and sorted: "sorted_wrt (<) (map key (total ls (Node l x r) rs))" and p: "parted key e ls rs"
    and IH: "\<And>h ls t rs. size t < size (Node l x r) \<Longrightarrow> splay_state h node ls t rs \<Longrightarrow> t \<noteq> Leaf \<Longrightarrow>
      sorted_wrt (<) (map key (total ls t rs)) \<Longrightarrow> parted key e ls rs \<Longrightarrow> splay_ends cmp key e node h ls t rs"
  shows "splay_ends cmp key e node h ls (Node l x r) rs"
proof -
  let ?t = "Node l x r" and ?P = "\<lambda>y. key y < key e"
  let ?xs = "total ls ?t rs" and ?s = "splay_step cmp e (part_end node ls) (part_end node rs) h"
  have c: "(cmp e y < 0) = (key e < key y)" "(0 < cmp e y) = (key y < key e)" for y
    using cmp_okD [OF cmp] by auto
  have st: "?s = splay_right (\<lambda>y. cmp e y > 0) (part_end node ls) (part_end node rs) h"
    using gr c [of x] by (simp add: splay_step_def splay_state_root [OF s])
  have ne: "cmp e x \<noteq> 0" using gr c [of x] by auto
  note unf = splay_loop_root [OF s, of cmp e "part_end node ls" "part_end node rs"]
  consider "stopped_right ?P node ls ?t rs h ?s" | "linked_right ?P node ls ?t rs h ?s"
    using splay_right_outcome [OF s, of ?P "\<lambda>y. cmp e y > 0"] gr c st by auto
  then show ?thesis
  proof cases
    case 1
    then obtain h' x' l' where o: "?s = (True, part_end node ls, part_end node rs, h')"
      "splay_state h' node ls (Node l' x' Leaf) rs" "inorder (Node l' x' Leaf) = inorder ?t"
      "key x' < key e" "outside (insert node (set ?xs)) h h'"
      unfolding stopped_right_def by blast
    then show ?thesis
      using unf ne p splay_doneI [OF o(2), of ?xs key e h] by (simp add: ended_def total_def)
  next
    case 2
    then obtain h' l' x' r' where o: "?s = (False, x', part_end node rs, h')"
      "splay_state h' node ((x', l') # ls) r' rs" "r' \<noteq> Leaf" "inorder l' @ x' # inorder r' = inorder ?t"
      "size r' < size ?t" "key x' < key e" "outside (insert node (set ?xs)) h h'"
      unfolding linked_right_def by blast
    have tot: "total ((x', l') # ls) r' rs = ?xs"
      using arg_cong [OF o(4), of "\<lambda>q. lnodes ls @ q @ rnodes rs"] by (simp add: total_def)
    have sorted': "sorted_wrt (<) (map key (total ((x', l') # ls) r' rs))" using sorted unfolding tot .
    have "splay_ends cmp key e node h' ((x', l') # ls) r' rs"
      by (rule IH [OF o(5,2,3) sorted' parted_right [OF p o(6) sorted']])
    then show ?thesis using unf ne o(1,7) splay_done_outside tot by simp
  qed
qed

lemma splay_loop_spec:
  assumes cmp: "cmp_ok cmp key"
  shows "splay_state h node ls t rs \<Longrightarrow> t \<noteq> Leaf \<Longrightarrow> sorted_wrt (<) (map key (total ls t rs)) \<Longrightarrow>
    parted key e ls rs \<Longrightarrow> splay_ends cmp key e node h ls t rs"
proof (induction "size t" arbitrary: h ls t rs rule: less_induct)
  case less
  obtain l x r where t: "t = Node l x r" using less.prems(2) by (cases t) auto
  note IH = less.hyps [unfolded t] and s = less.prems(1,3,4) [unfolded t]
  show ?case
  proof (cases rule: linorder_cases [of "key e" "key x"])
    case equal
    then have "cmp e x = 0" using cmp_okD [OF cmp, of e x] by auto
    then show ?thesis
      using splay_loop_root [OF s(1)] s(1,3) equal t by (auto simp: ended_def intro: splay_doneI)
  next
    case ls: less
    show ?thesis unfolding t by (rule splay_turn_left [OF cmp s(1) ls s(2,3)]) (rule IH)
  next
    case gr: greater
    show ?thesis unfolding t by (rule splay_turn_right [OF cmp s(1) gr s(2,3)]) (rule IH)
  qed
qed

section \<open>Splaying a tree\<close>

definition sp_tree :: "(addr \<Rightarrow> 'k::linorder) \<Rightarrow> addr \<Rightarrow> spheap \<Rightarrow> addr tree \<Rightarrow> bool" where
  "sp_tree key node h t \<longleftrightarrow>
     stree h (sph_root h) t \<and> node \<noteq> 0 \<and> node \<notin> set_tree t \<and> sorted_wrt (<) (map key (inorder t))"

definition at_top :: "(addr \<Rightarrow> 'k::linorder) \<Rightarrow> addr \<Rightarrow> addr tree \<Rightarrow> addr \<Rightarrow> addr tree \<Rightarrow> bool" where
  "at_top key e l x r \<longleftrightarrow>
     key x = key e \<or> key e < key x \<and> (\<forall>y\<in>set_tree l. key y < key e)
     \<or> key x < key e \<and> (\<forall>y\<in>set_tree r. key e < key y)"

lemma sorted_keys_distinct: "sorted_wrt (<) (map key xs) \<Longrightarrow> distinct xs"
  for key :: "addr \<Rightarrow> 'k::linorder"
  by (induction xs) auto

lemma clear_node_sel:
  "sph_root (clear_node node h) = sph_root h" "outside {node} h (clear_node node h)"
  by (simp_all add: clear_node_def outside_def)

lemma splay_start:
  assumes "sp_tree key node h t"
  shows "splay_state (clear_node node h) node [] t []"
proof -
  have "stree (clear_node node h) (sph_root h) t"
    using assms stree_cong [OF clear_node_sel(2), of node t h] by (simp add: sp_tree_def)
  then show ?thesis
    using assms sorted_keys_distinct [of key "inorder t"]
    by (simp add: splay_state_def clear_node_sel sp_tree_def)
qed

lemma parts_set:
  "set_tree (lfill l ls) = set (lnodes ls) \<union> set_tree l" "set_tree (rfill r rs) = set_tree r \<union> set (rnodes rs)"
  using inorder_lfill [of l ls] inorder_rfill [of r rs] by (metis set_append set_inorder)+

lemma assembled:
  assumes s: "splay_state h node ls (Node l x r) rs" and xs: "total ls (Node l x r) rs = inorder t"
    and t: "sp_tree key node h0 t"
  defines "h' \<equiv> SPLAY_ASSEMBLE node (part_end node ls) (part_end node rs) h"
  shows "sp_tree key node h' (Node (lfill l ls) x (rfill r rs))"
    "inorder (Node (lfill l ls) x (rfill r rs)) = inorder t"
    "outside (insert node (set_tree t)) h h'"
proof -
  show i: "inorder (Node (lfill l ls) x (rfill r rs)) = inorder t"
    using xs by (simp add: total_def)
  then have "set_tree (Node (lfill l ls) x (rfill r rs)) = set_tree t"
    by (metis set_inorder)
  then show "sp_tree key node h' (Node (lfill l ls) x (rfill r rs))"
    using splay_assemble(1,2) [OF s] t i unfolding sp_tree_def h'_def by simp
  show "outside (insert node (set_tree t)) h h'"
    using splay_assemble(3) [OF s] xs unfolding h'_def by simp
qed

lemma splay_spec:
  assumes cmp: "cmp_ok cmp key" and t: "sp_tree key node h t" "t \<noteq> Leaf"
  shows "\<exists>h' l x r. SPLAY cmp node e h = Some h' \<and> sp_tree key node h' (Node l x r)
    \<and> inorder (Node l x r) = inorder t \<and> at_top key e l x r \<and> outside (insert node (set_tree t)) h h'"
proof -
  let ?h = "clear_node node h"
  have tot: "total [] t [] = inorder t" by (simp add: total_def)
  have "splay_done key e node (inorder t) ?h (splay_loop cmp e node node ?h)"
    using splay_loop_spec [OF cmp splay_start [OF t(1)] t(2), of e] t(1) tot
    by (simp add: sp_tree_def parted_def)
  then obtain h1 ls l x r rs where o: "splay_loop cmp e node node ?h = Some (part_end node ls, part_end node rs, h1)"
    "splay_state h1 node ls (Node l x r) rs" "total ls (Node l x r) rs = inorder t"
    "parted key e ls rs" "ended key e l x r" "outside (insert node (set_tree t)) ?h h1"
    unfolding splay_done_def by auto
  note a = assembled [OF o(2,3) t(1)]
  have "at_top key e (lfill l ls) x (rfill r rs)"
    using o(4,5) by (auto simp: at_top_def ended_def parted_def parts_set)
  moreover have "outside (insert node (set_tree t)) h ?h"
    by (auto simp: outside_def clear_node_def)
  then have "outside (insert node (set_tree t)) h (SPLAY_ASSEMBLE node (part_end node ls) (part_end node rs) h1)"
    using outside_trans o(6) a(3) by blast
  moreover have "SPLAY cmp node e h = Some (SPLAY_ASSEMBLE node (part_end node ls) (part_end node rs) h1)"
    using o(1) by (simp add: SPLAY_def)
  ultimately show ?thesis using a(1,2) by blast
qed

section \<open>The operations\<close>

lemma sp_tree_empty: "sp_tree key node h t \<Longrightarrow> SPLAY_EMPTY h \<longleftrightarrow> t = Leaf"
  using stree_member [of h "sph_root h" t] by (auto simp: sp_tree_def SPLAY_EMPTY_def)

lemma sp_tree_root: "sp_tree key node h (Node l x r) \<Longrightarrow> sph_root h = x"
  by (simp add: sp_tree_def)

lemma cmp_zero: "cmp_ok cmp key \<Longrightarrow> cmp a b = 0 \<longleftrightarrow> key a = key b"
  unfolding cmp_ok_def by (metis less_irrefl linorder_neqE)

lemma at_top_found:
  assumes "sorted_wrt (<) (map key (inorder (Node l x r)))" "at_top key e l x r"
  shows "List.find (\<lambda>y. key y = key e) (inorder (Node l x r)) = (if key x = key e then Some x else None)"
proof (cases "key x = key e")
  case True
  then show ?thesis using sorted_find [OF assms(1)] by simp
next
  case False
  have "\<forall>y\<in>set_tree l. key y < key x" "\<forall>y\<in>set_tree r. key x < key y"
    using sorted_around [of key "inorder l" x "inorder r"] assms(1) by auto
  then have "\<forall>y\<in>set (inorder (Node l x r)). key y \<noteq> key e"
    using False assms(2) by (auto simp: at_top_def)
  then have "List.find (\<lambda>y. key y = key e) (inorder (Node l x r)) = None"
    by (rule find_none)
  then show ?thesis using False by simp
qed

lemma splay_find_result:
  assumes cmp: "cmp_ok cmp key" and t: "sp_tree key node h t"
  shows "\<exists>h' t'. SPLAY_FIND cmp node e h = Some (found (List.find (\<lambda>x. key x = key e) (inorder t)), h')
    \<and> sp_tree key node h' t' \<and> inorder t' = inorder t"
proof (cases "t = Leaf")
  case True
  then show ?thesis using t sp_tree_empty [OF t] by (auto simp: SPLAY_FIND_def found_def)
next
  case False
  obtain h' l x r where o: "SPLAY cmp node e h = Some h'" "sp_tree key node h' (Node l x r)"
    "inorder (Node l x r) = inorder t" "at_top key e l x r"
    using splay_spec [OF cmp t False] by blast
  have f: "List.find (\<lambda>y. key y = key e) (inorder t) = (if key x = key e then Some x else None)"
    using at_top_found [of key l x r e] o by (simp add: sp_tree_def)
  have "cmp e x = 0 \<longleftrightarrow> key x = key e" using cmp_zero [OF cmp, of e x] by auto
  then have "SPLAY_FIND cmp node e h = Some (found (List.find (\<lambda>y. key y = key e) (inorder t)), h')"
    using o(1) sp_tree_root [OF o(2)] sp_tree_empty [OF t] False by (simp add: SPLAY_FIND_def f found_def)
  then show ?thesis using o(2,3) by blast
qed

lemma splay_insert_result:
  assumes cmp: "cmp_ok cmp key" and t: "sp_tree key node h t" and e: "e \<noteq> 0" "e \<noteq> node" "e \<notin> set_tree t"
  shows "if \<exists>x\<in>set_tree t. key x = key e
    then \<exists>x\<in>set_tree t. \<exists>h' t'. key x = key e \<and> SPLAY_INSERT cmp node e h = Some (x, h')
           \<and> sp_tree key node h' t' \<and> inorder t' = inorder t
    else \<exists>h' t'. SPLAY_INSERT cmp node e h = Some (0, h') \<and> sp_tree key node h' t'
           \<and> inorder t' = insort_key key e (inorder t)"
proof (cases "t = Leaf")
  case True
  let ?h = "set_head e (set_spl e 0 (set_spr e 0 h))"
  have "SPLAY_INSERT cmp node e h = Some (0, ?h)"
    using t sp_tree_empty [OF t] True by (simp add: SPLAY_INSERT_def Let_def)
  moreover have "sp_tree key node ?h (Node Leaf e Leaf)"
    using t e by (simp add: sp_tree_def)
  ultimately show ?thesis using True by auto
next
  case False
  obtain h' l x r where o: "SPLAY cmp node e h = Some h'" "sp_tree key node h' (Node l x r)"
    "inorder (Node l x r) = inorder t" "at_top key e l x r"
    using splay_spec [OF cmp t False] by blast
  have m: "set_tree t = insert x (set_tree l \<union> set_tree r)"
    using arg_cong [OF o(3), of set] by auto
  have x: "sph_root h' = x" "x \<noteq> 0" "x \<notin> set_tree l" "x \<notin> set_tree r" "stree h' (spe_left h' x) l"
    "stree h' (spe_right h' x) r" "node \<notin> set_tree l" "node \<notin> set_tree r" "node \<noteq> x" "node \<noteq> 0"
    using o(2) sorted_keys_distinct [of key "inorder (Node l x r)"] by (auto simp: sp_tree_def)
  have s: "sorted_wrt (<) (map key (inorder l @ x # inorder r))" using o(2) by (simp add: sp_tree_def)
  then have lr: "\<forall>y\<in>set_tree l. key y < key x" "\<forall>y\<in>set_tree r. key x < key y"
    using sorted_around by fastforce+
  have c: "(cmp e x < 0) = (key e < key x)" "(0 < cmp e x) = (key x < key e)"
    using cmp_okD [OF cmp] by auto
  have en: "e \<noteq> x" "e \<notin> set_tree l" "e \<notin> set_tree r" using e m by auto
  have unf: "SPLAY_INSERT cmp node e h = (case Some h' of Some h \<Rightarrow>
      if cmp e x < 0 then Some (0, set_head e (set_spl x 0 (set_spr e x (set_spl e (spe_left h x) h))))
      else if 0 < cmp e x then Some (0, set_head e (set_spr x 0 (set_spl e x (set_spr e (spe_right h x) h))))
      else Some (x, h))"
    using o(1) x(1) en(1) False sp_tree_empty [OF t] by (simp add: SPLAY_INSERT_def Let_def)
  show ?thesis
  proof (cases rule: linorder_cases [of "key e" "key x"])
    case equal
    then show ?thesis using unf c o(2,3) m by auto
  next
    case less
    let ?h = "set_head e (set_spl x 0 (set_spr e x (set_spl e (spe_left h' x) h')))"
    let ?t = "Node l e (Node Leaf x r)"
    have lt: "\<forall>y\<in>set_tree l. key y < key e" using o(4) less by (auto simp: at_top_def)
    have gt: "\<forall>y\<in>set (x # inorder r). key e < key y" using less lr by auto
    have "inorder ?t = insort_key key e (inorder t)"
      using insort_key_between [of "inorder l" key e "x # inorder r"] lt gt o(3) by simp
    moreover have "sp_tree key node ?h ?t"
      using sorted_insert_between [of key "inorder l" "x # inorder r" e] s lt gt x en e
      by (simp add: sp_tree_def)
    ultimately show ?thesis
      using unf c less lt gt m by auto
  next
    case greater
    let ?h = "set_head e (set_spr x 0 (set_spl e x (set_spr e (spe_right h' x) h')))"
    let ?t = "Node (Node l x Leaf) e r"
    have gt: "\<forall>y\<in>set_tree r. key e < key y" using o(4) greater by (auto simp: at_top_def)
    have lt: "\<forall>y\<in>set (inorder l @ [x]). key y < key e" using greater lr by auto
    have "inorder ?t = insort_key key e (inorder t)"
      using insort_key_between [of "inorder l @ [x]" key e "inorder r"] lt gt o(3) by simp
    moreover have "sp_tree key node ?h ?t"
      using sorted_insert_between [of key "inorder l @ [x]" "inorder r" e] s lt gt x en e
      by (simp add: sp_tree_def)
    ultimately show ?thesis
      using unf c greater lt gt m by auto
  qed
qed

lemma at_top_member:
  assumes "sorted_wrt (<) (map key (inorder (Node l x r)))" "at_top key e l x r" "e \<in> set_tree (Node l x r)"
  shows "x = e"
proof -
  have "\<forall>y\<in>set_tree l. key y < key x" "\<forall>y\<in>set_tree r. key x < key y"
    using sorted_around [of key "inorder l" x "inorder r"] assms(1) by auto
  then show ?thesis using assms(2,3) by (auto simp: at_top_def)
qed

lemma splay_remove_result:
  assumes cmp: "cmp_ok cmp key" and t: "sp_tree key node h t" and e: "e \<in> set_tree t"
  shows "\<exists>h' t'. SPLAY_REMOVE cmp node e h = Some (e, h') \<and> sp_tree key node h' t'
    \<and> inorder t' = remove1 e (inorder t)"
proof -
  have nl: "t \<noteq> Leaf" using e by auto
  obtain h1 l x r where o: "SPLAY cmp node e h = Some h1" "sp_tree key node h1 (Node l x r)"
    "inorder (Node l x r) = inorder t" "at_top key e l x r"
    using splay_spec [OF cmp t nl] by blast
  have "e \<in> set_tree (Node l x r)" using e o(3) by (metis set_inorder)
  then have xe: "x = e" using at_top_member [of key l x r e] o(2,4) by (simp add: sp_tree_def)
  have s: "sorted_wrt (<) (map key (inorder l @ e # inorder r))" using o(2) xe by (simp add: sp_tree_def)
  have x: "sph_root h1 = e" "stree h1 (spe_left h1 e) l" "stree h1 (spe_right h1 e) r"
    "node \<notin> set_tree l" "node \<notin> set_tree r" "node \<noteq> 0" "e \<notin> set_tree l"
    using o(2) xe sorted_keys_distinct [OF s] by (auto simp: sp_tree_def)
  have c0: "cmp e e = 0" using cmp_zero [OF cmp] by simp
  have rem: "remove1 e (inorder t) = inorder l @ inorder r"
    using xe x(7) unfolding o(3) [symmetric] by (simp add: remove1_append)
  have slr: "sorted_wrt (<) (map key (inorder l @ inorder r))"
    using s by (auto simp: sorted_wrt_append)
  show ?thesis
  proof (cases "l = Leaf")
    case True
    then have "SPLAY_REMOVE cmp node e h = Some (e, set_head (spe_right h1 e) h1)"
      using o(1) x c0 nl sp_tree_empty [OF t] by (simp add: SPLAY_REMOVE_def)
    moreover have "sp_tree key node (set_head (spe_right h1 e) h1) r"
      using x slr by (simp add: sp_tree_def sorted_wrt_append)
    ultimately show ?thesis using rem True by auto
  next
    case False
    let ?h1 = "set_head (spe_left h1 e) h1"
    have "sp_tree key node ?h1 l" using x slr by (simp add: sp_tree_def sorted_wrt_append)
    then obtain h2 l' y r' where p: "SPLAY cmp node e ?h1 = Some h2" "sp_tree key node h2 (Node l' y r')"
      "inorder (Node l' y r') = inorder l" "at_top key e l' y r'" "outside (insert node (set_tree l)) ?h1 h2"
      using splay_spec [OF cmp _ False] by blast
    have ly: "set_tree l = insert y (set_tree l' \<union> set_tree r')"
      using arg_cong [OF p(3), of set] by auto
    have "\<forall>z\<in>set_tree l. key z < key e" using sorted_around [OF s] by simp
    then have r': "r' = Leaf"
      using p(4) ly by (cases r') (auto simp: at_top_def)
    have dj: "set_tree l \<inter> set_tree r = {}" using sorted_keys_distinct [OF s] by auto
    have "stree ?h1 (spe_right h1 e) r" using x by simp
    then have "stree h2 (spe_right h1 e) r"
      using stree_cong [OF p(5), of r] dj x(5) by blast
    then have "stree (set_spr y (spe_right h1 e) h2) y (Node l' y r)"
      using p(2) ly dj sorted_keys_distinct [of key "inorder (Node l' y r')"] by (auto simp: sp_tree_def)
    then have "sp_tree key node (set_spr y (spe_right h1 e) h2) (Node l' y r)"
      using p(2,3) x slr r' sp_tree_root [OF p(2)] ly by (auto simp: sp_tree_def sorted_wrt_append)
    moreover have "spe_left h1 e \<noteq> 0" using stree_member [OF x(2)] False by auto
    then have "SPLAY_REMOVE cmp node e h = Some (e, set_spr y (spe_right h1 e) h2)"
      using o(1) x c0 nl sp_tree_empty [OF t] p(1) sp_tree_root [OF p(2)] by (simp add: SPLAY_REMOVE_def Let_def)
    moreover have "inorder (Node l' y r) = remove1 e (inorder t)"
      using rem p(3) r' by simp
    ultimately show ?thesis by blast
  qed
qed

section \<open>Walking\<close>

lemma splay_down_left_spec:
  "stree h p t \<Longrightarrow> t \<noteq> Leaf \<Longrightarrow> splay_down_left h p = Some (next_of (inorder t))"
proof (induction t arbitrary: p)
  case (Node l a r)
  then have sub: "p = a" "stree h (spe_left h a) l" by auto
  show ?case
  proof (cases "l = Leaf")
    case True
    then show ?thesis using sub by (simp add: splay_down_left.simps [of h a])
  next
    case False
    then have "spe_left h a \<noteq> 0" using stree_member [OF sub(2)] by auto
    moreover have "inorder l \<noteq> []" using False by (cases l) auto
    ultimately show ?thesis
      using Node.IH(1) [OF sub(2) False] sub by (simp add: splay_down_left.simps [of h a])
  qed
qed simp

lemma splay_next_result:
  assumes cmp: "cmp_ok cmp key" and t: "sp_tree key node h t" and n: "inorder t = xs @ e # ys"
  shows "\<exists>h' t'. SPLAY_NEXT cmp node e h = Some (next_of ys, h') \<and> sp_tree key node h' t'
    \<and> inorder t' = inorder t"
proof -
  have nl: "t \<noteq> Leaf" using n by auto
  obtain h1 l x r where o: "SPLAY cmp node e h = Some h1" "sp_tree key node h1 (Node l x r)"
    "inorder (Node l x r) = inorder t" "at_top key e l x r"
    using splay_spec [OF cmp t nl] by blast
  have "e \<in> set (inorder (Node l x r))" using n o(3) by simp
  then have xe: "x = e" using at_top_member [of key l x r e] o(2,4) by (simp add: sp_tree_def)
  have d: "distinct (inorder t)" using t sorted_keys_distinct by (auto simp: sp_tree_def)
  have eq: "inorder l @ e # inorder r = xs @ e # ys" using o(3) n xe by simp
  have "distinct (inorder l @ e # inorder r)" unfolding eq using d n by simp
  then have "e \<notin> set (inorder l)" "e \<notin> set (inorder r)" by simp_all
  then have r: "inorder r = ys"
    using append_Cons_eq_iff [of e "inorder l" "inorder r" xs ys] eq by simp
  have st: "stree h1 (spe_right h1 e) r" using o(2) xe by (simp add: sp_tree_def)
  have "SPLAY_NEXT cmp node e h = Some (next_of ys, h1)"
  proof (cases "r = Leaf")
    case True
    then show ?thesis using st o(1) r by (auto simp: SPLAY_NEXT_def)
  next
    case False
    then show ?thesis
      using splay_down_left_spec [OF st False] stree_member [OF st] o(1) r by (simp add: SPLAY_NEXT_def)
  qed
  then show ?thesis using o(2,3) by blast
qed

lemma minmax_unfold:
  "minmax_loop side lft rgt h =
     (case minmax_step side lft rgt h of (stop, l, r, h') \<Rightarrow>
        if stop then Some (l, r, h') else minmax_loop side l r h')"
  by (subst minmax_loop.simps) (simp add: case_prod_beta)

lemma minmax_loop_left:
  assumes side: "side < 0"
  shows "splay_state h node ls t rs \<Longrightarrow> t \<noteq> Leaf \<Longrightarrow>
    \<exists>h' x r rs'. minmax_loop side (part_end node ls) (part_end node rs) h = Some (part_end node ls, part_end node rs', h')
      \<and> splay_state h' node ls (Node Leaf x r) rs' \<and> total ls (Node Leaf x r) rs' = total ls t rs"
proof (induction "size t" arbitrary: h t rs rule: less_induct)
  case less
  obtain l x r where t: "t = Node l x r" using less.prems(2) by (cases t) auto
  let ?s = "minmax_step side (part_end node ls) (part_end node rs) h"
  have st: "?s = splay_left (\<lambda>y. side < 0) (part_end node ls) (part_end node rs) h"
    using side by (simp add: minmax_step_def)
  consider "stopped_left (\<lambda>_. True) node ls t rs h ?s" | "linked_left (\<lambda>_. True) node ls t rs h ?s"
    using splay_left_outcome [OF less.prems(1) [unfolded t], of "\<lambda>_. True" "\<lambda>y. side < 0"] t st by auto
  then show ?case
  proof cases
    case 1
    then show ?thesis unfolding stopped_left_def by (subst minmax_unfold) (fastforce simp: total_def)
  next
    case 2
    then obtain h' l' x' r' where o: "?s = (False, part_end node ls, x', h')"
      "splay_state h' node ls l' ((x', r') # rs)" "l' \<noteq> Leaf" "inorder l' @ x' # inorder r' = inorder t"
      "size l' < size t"
      unfolding linked_left_def by blast
    have "total ls l' ((x', r') # rs) = total ls t rs" using o(4) by (simp add: total_def)
    then show ?thesis
      using less.hyps [OF o(5,2,3)] o(1) by (subst minmax_unfold) auto
  qed
qed

lemma minmax_loop_right:
  assumes side: "0 < side"
  shows "splay_state h node ls t rs \<Longrightarrow> t \<noteq> Leaf \<Longrightarrow>
    \<exists>h' l x ls'. minmax_loop side (part_end node ls) (part_end node rs) h = Some (part_end node ls', part_end node rs, h')
      \<and> splay_state h' node ls' (Node l x Leaf) rs \<and> total ls' (Node l x Leaf) rs = total ls t rs"
proof (induction "size t" arbitrary: h t ls rule: less_induct)
  case less
  obtain l x r where t: "t = Node l x r" using less.prems(2) by (cases t) auto
  let ?s = "minmax_step side (part_end node ls) (part_end node rs) h"
  have st: "?s = splay_right (\<lambda>y. 0 < side) (part_end node ls) (part_end node rs) h"
    using side by (simp add: minmax_step_def)
  consider "stopped_right (\<lambda>_. True) node ls t rs h ?s" | "linked_right (\<lambda>_. True) node ls t rs h ?s"
    using splay_right_outcome [OF less.prems(1) [unfolded t], of "\<lambda>_. True" "\<lambda>y. 0 < side"] t st by auto
  then show ?case
  proof cases
    case 1
    then show ?thesis unfolding stopped_right_def by (subst minmax_unfold) (fastforce simp: total_def)
  next
    case 2
    then obtain h' l' x' r' where o: "?s = (False, x', part_end node rs, h')"
      "splay_state h' node ((x', l') # ls) r' rs" "r' \<noteq> Leaf" "inorder l' @ x' # inorder r' = inorder t"
      "size r' < size t"
      unfolding linked_right_def by blast
    have "total ((x', l') # ls) r' rs = total ls t rs"
      using arg_cong [OF o(4), of "\<lambda>q. lnodes ls @ q @ rnodes rs"] by (simp add: total_def)
    then show ?thesis
      using less.hyps [OF o(5,2,3)] o(1) by (subst minmax_unfold) auto
  qed
qed

lemma splay_min_result:
  assumes t: "sp_tree key node h t"
  shows "\<exists>h' t'. SPLAY_MIN node h = Some (next_of (inorder t), h') \<and> sp_tree key node h' t' \<and> inorder t' = inorder t"
proof (cases "t = Leaf")
  case True
  then show ?thesis using t sp_tree_empty [OF t] by (auto simp: SPLAY_MIN_def)
next
  case False
  obtain h1 x r rs where o: "minmax_loop SPLAY_NEGINF node node (clear_node node h) = Some (node, part_end node rs, h1)"
    "splay_state h1 node [] (Node Leaf x r) rs" "total [] (Node Leaf x r) rs = inorder t"
    using minmax_loop_left [OF _ splay_start [OF t] False, of SPLAY_NEGINF]
    by (auto simp: SPLAY_NEGINF_def total_def)
  note a = assembled [OF o(2,3) t]
  have "SPLAY_MIN node h = Some (x, SPLAY_ASSEMBLE node node (part_end node rs) h1)"
    using o(1) sp_tree_empty [OF t] False splay_assemble(1) [OF o(2)]
    by (simp add: SPLAY_MIN_def SPLAY_MIN_MAX_def SPLAY_MINMAX_def)
  moreover have "next_of (inorder t) = x" unfolding o(3) [symmetric] by (simp add: total_def)
  ultimately show ?thesis using a(1,2) by auto
qed

lemma splay_max_result:
  assumes t: "sp_tree key node h t"
  shows "\<exists>h' t'. SPLAY_MAX node h = Some (next_of (rev (inorder t)), h') \<and> sp_tree key node h' t'
    \<and> inorder t' = inorder t"
proof (cases "t = Leaf")
  case True
  then show ?thesis using t sp_tree_empty [OF t] by (auto simp: SPLAY_MAX_def)
next
  case False
  obtain h1 x l ls where o: "minmax_loop SPLAY_INF node node (clear_node node h) = Some (part_end node ls, node, h1)"
    "splay_state h1 node ls (Node l x Leaf) []" "total ls (Node l x Leaf) [] = inorder t"
    using minmax_loop_right [OF _ splay_start [OF t] False, of SPLAY_INF]
    by (auto simp: SPLAY_INF_def total_def)
  note a = assembled [OF o(2,3) t]
  have "SPLAY_MAX node h = Some (x, SPLAY_ASSEMBLE node (part_end node ls) node h1)"
    using o(1) sp_tree_empty [OF t] False splay_assemble(1) [OF o(2)]
    by (simp add: SPLAY_MAX_def SPLAY_MIN_MAX_def SPLAY_MINMAX_def)
  moreover have "next_of (rev (inorder t)) = x" unfolding o(3) [symmetric] by (simp add: total_def)
  ultimately show ?thesis using a(1,2) by auto
qed

text \<open>With zero for the direction the loop of \<^verbatim>\<open>SPLAY_MINMAX\<close> has nothing to do and never ends.\<close>

lemma minmax_zero: "minmax_loop side lft rgt h = Some r \<Longrightarrow> side \<noteq> 0"
proof (rule minmax_loop.raw_induct [where P = "\<lambda>side lft rgt h r. side \<noteq> 0"])
  fix f :: "int \<Rightarrow> addr \<Rightarrow> addr \<Rightarrow> spheap \<Rightarrow> (addr \<times> addr \<times> spheap) option" and side lft rgt h r
  assume "\<And>side lft rgt h r. f side lft rgt h = Some r \<Longrightarrow> side \<noteq> 0"
    and "(if fst (minmax_step side lft rgt h) then Some (snd (minmax_step side lft rgt h))
          else f side (fst (snd (minmax_step side lft rgt h))) (fst (snd (snd (minmax_step side lft rgt h))))
                 (snd (snd (snd (minmax_step side lft rgt h))))) = Some r"
  then show "side \<noteq> 0" by (auto simp: minmax_step_def split: if_splits)
qed

lemma splay_foreach_from_spec:
  assumes cmp: "cmp_ok cmp key"
  shows "sp_tree key node h t \<Longrightarrow> inorder t = xs @ ys \<Longrightarrow>
    \<exists>h' t'. splay_foreach_from cmp node (next_of ys) h = Some (ys, h') \<and> sp_tree key node h' t'
      \<and> inorder t' = inorder t"
proof (induction ys arbitrary: xs h t)
  case Nil
  then show ?case by (auto simp: splay_foreach_from.simps [of cmp node 0])
next
  case (Cons y ys)
  have "y \<in> set_tree t" using Cons.prems(2) by (metis in_set_conv_decomp set_inorder)
  then have y: "y \<noteq> 0" using Cons.prems(1) stree_nonzero by (metis sp_tree_def)
  obtain h1 t1 where n: "SPLAY_NEXT cmp node y h = Some (next_of ys, h1)" "sp_tree key node h1 t1"
    "inorder t1 = inorder t"
    using splay_next_result [OF cmp Cons.prems] by blast
  have "inorder t1 = (xs @ [y]) @ ys" using n(3) Cons.prems(2) by simp
  then obtain h2 t2 where "splay_foreach_from cmp node (next_of ys) h1 = Some (ys, h2)"
    "sp_tree key node h2 t2" "inorder t2 = inorder t"
    using Cons.IH [OF n(2)] n(3) by metis
  then show ?case using n(1) y by (auto simp: splay_foreach_from.simps [of cmp node y])
qed

lemma splay_foreach_result:
  assumes cmp: "cmp_ok cmp key" and t: "sp_tree key node h t"
  shows "\<exists>h' t'. SPLAY_FOREACH cmp node h = Some (inorder t, h') \<and> sp_tree key node h' t'
    \<and> inorder t' = inorder t"
proof -
  obtain h1 t1 where m: "SPLAY_MIN node h = Some (next_of (inorder t), h1)" "sp_tree key node h1 t1"
    "inorder t1 = inorder t"
    using splay_min_result [OF t] by blast
  then show ?thesis
    using splay_foreach_from_spec [OF cmp m(2), of "[]" "inorder t"] by (simp add: SPLAY_FOREACH_def)
qed

end
