(* ===== verification/Tree_Sets.thy ===== *)
theory Tree_Sets
  imports Rb_Remove Splay_Ops
begin

text \<open>
  Both kinds of tree are ordered sets of nodes: the interpretations of the contract \<open>node_set\<close> on
  the operations that \<^verbatim>\<open>RB_GENERATE\<close> and \<^verbatim>\<open>SPLAY_GENERATE\<close> define. What follows from the contract
  alone (a list of nodes that is inserted comes out sorted; inserting and removing a node
  leaves the set as it was) then holds of both. The last section has two small trees.
\<close>

section \<open>The interpretations\<close>

definition rb_holds :: "(addr \<Rightarrow> 'k::linorder) \<Rightarrow> rbheap \<Rightarrow> addr list \<Rightarrow> bool" where
  "rb_holds key h xs \<longleftrightarrow> (\<exists>t. rb_tree key h t \<and> nodes t = xs)"

definition sp_holds :: "(addr \<Rightarrow> 'k::linorder) \<Rightarrow> addr \<Rightarrow> spheap \<Rightarrow> addr list \<Rightarrow> bool" where
  "sp_holds key node h xs \<longleftrightarrow> (\<exists>t. sp_tree key node h t \<and> inorder t = xs)"

definition rb_find_op :: "(addr \<Rightarrow> 'k::linorder) \<Rightarrow> addr \<Rightarrow> rbheap \<Rightarrow> (addr \<times> rbheap) option" where
  "rb_find_op key e h = map_option (\<lambda>x. (x, h)) (RB_FIND (key_cmp key) e h)"

lemma rb_holds_insert:
  assumes "rb_holds key h xs" "e \<noteq> 0" "e \<notin> set xs"
  shows "if \<exists>x\<in>set xs. key x = key e
    then \<exists>x\<in>set xs. key x = key e \<and> RB_INSERT (key_cmp key) e h = Some (x, h)
    else \<exists>h'. RB_INSERT (key_cmp key) e h = Some (0, h') \<and> rb_holds key h' (insort_key key e xs)"
proof -
  obtain t where t: "rb_tree key h t" "nodes t = xs" using assms(1) by (auto simp: rb_holds_def)
  show ?thesis
    using rb_insert_result [OF t(1) key_cmp_ok assms(2)] assms(3) t(2)
    unfolding rb_holds_def by (simp split: if_splits) metis
qed

lemma sp_holds_insert:
  assumes "sp_holds key node h xs" "e \<noteq> 0" "e \<noteq> node" "e \<notin> set xs"
  shows "if \<exists>x\<in>set xs. key x = key e
    then \<exists>x\<in>set xs. \<exists>h'. key x = key e \<and> SPLAY_INSERT (key_cmp key) node e h = Some (x, h')
           \<and> sp_holds key node h' xs
    else \<exists>h'. SPLAY_INSERT (key_cmp key) node e h = Some (0, h') \<and> sp_holds key node h' (insort_key key e xs)"
proof -
  obtain t where t: "sp_tree key node h t" "inorder t = xs" using assms(1) by (auto simp: sp_holds_def)
  have "set_tree t = set xs" using t(2) by (metis set_inorder)
  then show ?thesis
    using splay_insert_result [OF key_cmp_ok t(1) assms(2,3)] assms(4) t(2)
    unfolding sp_holds_def by (simp split: if_splits) metis
qed

lemma holds_key_unique:
  "sorted_wrt (<) (map key xs) \<Longrightarrow> x \<in> set xs \<Longrightarrow> y \<in> set xs \<Longrightarrow> key x = key y \<Longrightarrow> x = y"
  for key :: "addr \<Rightarrow> 'k::linorder"
  by (meson distinct_map inj_onD strict_sorted_iff)

lemma key_fresh: "key e \<notin> key ` set xs \<Longrightarrow> e \<notin> set xs \<and> \<not> (\<exists>x\<in>set xs. key x = key e)"
  by (metis imageI)

lemma rb_holds_sorted: "rb_holds key h xs \<Longrightarrow> sorted_wrt (<) (map key xs)"
  by (auto simp: rb_holds_def rb_tree_def)

lemma sp_holds_sorted: "sp_holds key node h xs \<Longrightarrow> sorted_wrt (<) (map key xs)"
  by (auto simp: sp_holds_def sp_tree_def)

interpretation rb_set: node_set "rb_holds key" key "\<lambda>e. e \<noteq> 0" "RB_INSERT (key_cmp key)" RB_REMOVE
    "rb_find_op key"
  for key :: "addr \<Rightarrow> 'k::linorder"
proof unfold_locales
  fix h xs e
  assume h: "rb_holds key h xs"
  then obtain t where t: "rb_tree key h t" "nodes t = xs" by (auto simp: rb_holds_def)
  show "sorted_wrt (<) (map key xs)" by (rule rb_holds_sorted [OF h])
  show "\<exists>s'. RB_INSERT (key_cmp key) e h = Some (0, s') \<and> rb_holds key s' (insort_key key e xs)"
    if "e \<noteq> 0" "key e \<notin> key ` set xs"
    using rb_holds_insert [OF h, of e] key_fresh [OF that(2)] that(1) by simp
  show "\<exists>s'. RB_INSERT (key_cmp key) e h = Some (x, s') \<and> rb_holds key s' xs"
    if x: "x \<in> set xs" and e: "e \<noteq> 0" "e \<notin> set xs" "key e = key x" for x
  proof -
    obtain y where "y \<in> set xs" "key y = key e" "RB_INSERT (key_cmp key) e h = Some (y, h)"
      using rb_holds_insert [OF h e(1,2)] x e(3) by (auto split: if_splits)
    moreover from this have "y = x" using holds_key_unique [OF rb_holds_sorted [OF h] _ x] e(3) by simp
    ultimately show ?thesis using h by blast
  qed
  show "\<exists>s'. RB_REMOVE e h = Some (e, s') \<and> rb_holds key s' (remove1 e xs)" if "e \<in> set xs"
    using rb_remove_result [OF t(1)] t(2) that unfolding rb_holds_def by blast
  show "\<exists>s'. rb_find_op key e h = Some (found (List.find (\<lambda>x. key x = key e) xs), s') \<and> rb_holds key s' xs"
    using rb_find_result [OF t(1) key_cmp_ok] t(2) h by (simp add: rb_find_op_def)
  show "e \<noteq> 0 \<and> e \<noteq> 0" if "e \<in> set xs"
    using that t focus_nonzeros unfolding rb_tree_def by metis
qed

interpretation sp_set: node_set "sp_holds key node" key "\<lambda>e. e \<noteq> 0 \<and> e \<noteq> node"
    "SPLAY_INSERT (key_cmp key) node" "SPLAY_REMOVE (key_cmp key) node" "SPLAY_FIND (key_cmp key) node"
  for key :: "addr \<Rightarrow> 'k::linorder" and node :: addr
proof unfold_locales
  fix h xs e
  assume h: "sp_holds key node h xs"
  then obtain t where t: "sp_tree key node h t" "inorder t = xs" by (auto simp: sp_holds_def)
  then have m: "set_tree t = set xs" by (metis set_inorder)
  show "sorted_wrt (<) (map key xs)" by (rule sp_holds_sorted [OF h])
  show "\<exists>s'. SPLAY_INSERT (key_cmp key) node e h = Some (0, s') \<and> sp_holds key node s' (insort_key key e xs)"
    if "e \<noteq> 0 \<and> e \<noteq> node" "key e \<notin> key ` set xs"
    using sp_holds_insert [OF h, of e] key_fresh [OF that(2)] that(1) by simp
  show "\<exists>s'. SPLAY_INSERT (key_cmp key) node e h = Some (x, s') \<and> sp_holds key node s' xs"
    if x: "x \<in> set xs" and e: "e \<noteq> 0 \<and> e \<noteq> node" "e \<notin> set xs" "key e = key x" for x
  proof -
    obtain y h' where "y \<in> set xs" "key y = key e" "SPLAY_INSERT (key_cmp key) node e h = Some (y, h')"
      "sp_holds key node h' xs"
      using sp_holds_insert [OF h _ _ e(2)] x e(1,3) by (auto split: if_splits)
    moreover from this have "y = x" using holds_key_unique [OF sp_holds_sorted [OF h] _ x] e(3) by simp
    ultimately show ?thesis by blast
  qed
  show "\<exists>s'. SPLAY_REMOVE (key_cmp key) node e h = Some (e, s') \<and> sp_holds key node s' (remove1 e xs)"
    if "e \<in> set xs"
    using splay_remove_result [OF key_cmp_ok t(1)] t(2) m that unfolding sp_holds_def by blast
  show "\<exists>s'. SPLAY_FIND (key_cmp key) node e h = Some (found (List.find (\<lambda>x. key x = key e) xs), s')
      \<and> sp_holds key node s' xs"
    using splay_find_result [OF key_cmp_ok t(1)] t(2) unfolding sp_holds_def by blast
  show "(e \<noteq> 0 \<and> e \<noteq> node) \<and> e \<noteq> 0" if "e \<in> set xs"
    using that t m stree_nonzero unfolding sp_tree_def by metis
qed

section \<open>Inserting a list\<close>

lemma fold_insort_sort:
  "distinct (map key es) \<Longrightarrow> fold (insort_key key) es [] = sort_key key es"
  for key :: "addr \<Rightarrow> 'k::linorder"
  by (metis distinct_map foldr_conv_fold mset_rev rev_rev_ident mset_sort sort_key_def sort_key_inj_key_eq
      sorted_sort_key set_rev)

lemma rb_holds_init: "rb_holds key (RB_INIT h) []"
  using rb_tree_init [of key h] by (auto simp: rb_holds_def)

lemma sp_holds_init: "node \<noteq> 0 \<Longrightarrow> sp_holds key node (SPLAY_INIT h) []"
  by (auto simp: sp_holds_def sp_tree_def SPLAY_INIT_def intro!: exI [of _ Leaf])

lemma rb_holds_foreach: "rb_holds key h xs \<Longrightarrow> RB_FOREACH h = Some xs"
  using rb_foreach_result by (auto simp: rb_holds_def)

lemma sp_holds_foreach:
  "sp_holds key node h xs \<Longrightarrow> \<exists>h'. SPLAY_FOREACH (key_cmp key) node h = Some (xs, h') \<and> sp_holds key node h' xs"
  using splay_foreach_result [OF key_cmp_ok] unfolding sp_holds_def by blast

section \<open>Two small trees\<close>

definition demo_rb :: rbheap where
  "demo_rb = \<lparr>rbe_left = (\<lambda>_. 0)(2 := 1), rbe_right = (\<lambda>_. 0)(2 := 3), rbe_parent = (\<lambda>_. 0)(1 := 2, 3 := 2),
     rbe_color = (\<lambda>_. 1)(2 := 0), rbh_root = 2\<rparr>"

definition demo_rb_tree :: ctree where
  "demo_rb_tree = Node (Node Leaf (1, RB_RED) Leaf) (2, RB_BLACK) (Node Leaf (3, RB_RED) Leaf)"

lemma demo_rb_ok: "rb_tree (\<lambda>a. a) demo_rb demo_rb_tree"
  by (simp add: rb_tree_def focus_def demo_rb_def demo_rb_tree_def RB_RED_def RB_BLACK_def)

lemma demo_rb_nodes: "nodes demo_rb_tree = [1, 2, 3]"
  by (simp add: demo_rb_tree_def)

definition demo_sp :: spheap where
  "demo_sp = \<lparr>spe_left = (\<lambda>_. 0)(2 := 1), spe_right = (\<lambda>_. 0)(2 := 5), sph_root = 2\<rparr>"

lemma demo_sp_holds: "sp_holds (\<lambda>a. a) 9 demo_sp [1, 2, 5]"
  unfolding sp_holds_def
  by (intro exI [of _ "Node (Node Leaf 1 Leaf) 2 (Node Leaf 5 Leaf)"]) (simp add: sp_tree_def demo_sp_def)

end
