(* ===== verification/Spec2Isabelle.thy ===== *)
theory Spec2Isabelle
  imports Iqueue Delivery Sample_Net Echo_Server Tree_Sets
begin

text \<open>
  A verification of kcpuv, a message library over UDP: the KCP automatic repeat request
  protocol in C (\<^verbatim>\<open>src/kcp\<close>), a C++ layer on it that sets up, runs and drops
  connections (\<^verbatim>\<open>src/src\<close>, public interface \<^verbatim>\<open>src/inc/kcpuv.h\<close>), and libuv
  for the sockets, of which the repository holds the headers; \<^verbatim>\<open>libuv/inc/tree.h\<close> is the one
  header with code. This theory holds the properties that span components; each names the part
  it is about.

  \<^bold>\<open>The program.\<close> An application calls \<^verbatim>\<open>kcpuv_send\<close>, \<^verbatim>\<open>kcpuv_run\<close> and \<^verbatim>\<open>kcpuv_recv\<close>. \<^verbatim>\<open>Network::run\<close> lets
  libuv report datagrams, which go by their conversation number to a \<^verbatim>\<open>Conn\<close> or, for the reserved number 1, to the
  handshake of a server; it then runs every connection and drops the expired ones. A \<^verbatim>\<open>Conn\<close> owns one KCP control
  block: it puts a header with its key before every message (\<^verbatim>\<open>send_kcp\<close>), gives datagrams to \<^verbatim>\<open>ikcp_input\<close>,
  calls \<^verbatim>\<open>ikcp_update\<close> on the clock, whose flush calls back \<^verbatim>\<open>send_udp\<close>, and takes messages with \<^verbatim>\<open>ikcp_recv\<close>.
  \<^verbatim>\<open>ConnClient\<close> and \<^verbatim>\<open>ConnServer\<close> add their side of the handshake. In the control block \<^verbatim>\<open>ikcp_send\<close> fills
  \<^verbatim>\<open>snd_queue\<close>, the flush moves segments to \<^verbatim>\<open>snd_buf\<close> and sends them until they are acknowledged, \<^verbatim>\<open>ikcp_input\<close>
  fills \<^verbatim>\<open>rcv_buf\<close>, from which segments in sequence move to \<^verbatim>\<open>rcv_queue\<close>, which \<^verbatim>\<open>ikcp_recv\<close> empties.

  \<^bold>\<open>Theories of the protocol\<close> (\<^verbatim>\<open>kcp/ikcp.c\<close>, \<^verbatim>\<open>kcp/ikcp.h\<close>; functions keep their names, record fields have the prefix
  \<open>k_\<close> for \<^verbatim>\<open>IKCPCB\<close> and \<open>s_\<close> for \<^verbatim>\<open>IKCPSEG\<close>).
  \<^item> Prelude: machine integers, generic lemmas. Ikcp_Types: constants, segment, control block. Ikcp_Codec: integer and
    header encoding in both byte orders, conversation accessors, \<^verbatim>\<open>_itimediff\<close> and its like; round trips.
  \<^item> Iqueue: the intrusive queue macros on a heap of pointers, the locale \<open>intrusive_queue\<close> for what they promise and its
    interpretation; it justifies that the other theories have lists for the four queues.
  \<^item> Window: sequence numbers modulo 2 to the 32, ordered segment lists, segments and datagrams as bytes.
  \<^item> Ikcp_Cb: create, release, settings. Ikcp_Rtt: \<^verbatim>\<open>ikcp_update_ack\<close>. Ikcp_Recv: \<^verbatim>\<open>ikcp_recv\<close>, \<^verbatim>\<open>ikcp_peeksize\<close>,
    \<^verbatim>\<open>ikcp_parse_data\<close>, the receiver's invariant \<open>rcv_inv\<close> and the stream a receiver holds. Ikcp_Send: \<^verbatim>\<open>ikcp_send\<close>, the
    effect of acknowledgements, the sender's window \<open>snd_win\<close>. Ikcp_Ack: the list of acknowledgements to send. Ikcp_Input:
    \<^verbatim>\<open>ikcp_input\<close>. Ikcp_Flush: \<^verbatim>\<open>ikcp_flush\<close>, with the reference \<open>flush_heads\<close>, \<open>flush_segs\<close> that it implements.
    Ikcp_Update: \<^verbatim>\<open>ikcp_update\<close>, \<^verbatim>\<open>ikcp_check\<close>.
  \<^item> Endpoint: two endpoints and a network that loses, duplicates, delays and reorders datagrams, as an inductive step
    relation; the invariant of its reachable states. No_Loss: a second invariant, that acknowledgements remove only what
    the peer has. Progress: the calls of an exchange of a flush and its answer. Exchange: the same as steps of a run, with
    the locale \<open>leads_to\<close> for arguments that a run can go on until a goal is reached. Delivery: its second interpretation, that
    everything sent can be delivered, in both directions. Sample_Run: a concrete run.

  \<^bold>\<open>Theories of the C++ layer\<close> (\<^verbatim>\<open>src/src\<close>, \<^verbatim>\<open>inc/kcpuv.h\<close>; \<open>c_\<close>, \<open>cc_\<close> and \<open>n_\<close> are the members of \<^verbatim>\<open>Conn\<close>, \<^verbatim>\<open>ConnClient\<close> and
  \<^verbatim>\<open>Network\<close>).
  \<^item> Hand_Shake: the structures of \<^verbatim>\<open>hand_shake.h\<close>, the checks of \<^verbatim>\<open>err.h\<close>, clock and random numbers, the environment \<open>env\<close>
    and the record \<open>io\<close> of what was asked of it. Std_Map: \<^verbatim>\<open>std::map\<close> as a sorted list, with the locale \<open>ordered_map\<close>.
  \<^item> Conn: \<^verbatim>\<open>conn.cpp\<close>; the locale \<open>recv_kcp_method\<close> is the contract of the virtual \<^verbatim>\<open>recv_kcp\<close> that \<^verbatim>\<open>Conn::run\<close> calls in its loop.
    Conn_Client, Conn_Server: the two classes, each with its interpretation of that locale.
  \<^item> Network: \<^verbatim>\<open>network.cpp\<close> and the public functions, over a store of objects. Network_Inv: the invariant of a server.
    Sample_Net: a concrete environment, server and client. Echo_Server: the program of \<^verbatim>\<open>test/test_echo_server.cpp\<close> on that interface.

  \<^bold>\<open>Theories of the tree macros\<close> (\<^verbatim>\<open>libuv/inc/tree.h\<close>; libuv's private headers instantiate them, no file of \<^verbatim>\<open>src/src\<close> does).
  \<^item> Tree_Order: comparisons, and the locale \<open>node_set\<close>, an ordered set of nodes. Tree_Sets interprets it twice.
  \<^item> Rb_Macros: every \<^verbatim>\<open>RB_\<close> macro and function on a heap of entry fields. Rb_Tree: trees and positions in the heap,
    rotations. Rb_Insert, Rb_Search, Rb_Walk, Rb_Remove: balance, order and each operation.
  \<^item> Splay_Macros, Splay_Tree, Splay_Ops: the same for the \<^verbatim>\<open>SPLAY_\<close> macros.

  \<^bold>\<open>What the properties show.\<close> End to end: the messages received are an initial part of the messages sent (C1); no fragment is lost on the
  way (C2), an idle sender has delivered everything (C3), and from every reachable state the run can go on until everything is delivered in both directions and
  read (C4): fragments are sent again, closed windows are probed, acknowledgements answered, messages read, in states
  that satisfy every invariant (C5). It is a possibility, since the model lets the network lose every datagram: no fairness is assumed.
  Receiving and parsing: C6 to C11. The connections: C12 to C19. Sending, flush and
  clock: C20 to C25. Fragments, acknowledgements, estimation: C26 to C30. The trees: C31 to C35. Queues, memory and settings:
  C36 to C40. C11, C18, C39 and C40 state behaviour that the code has and its authors cannot have wanted, as does the
  second half of C19. Some theorems without such a number are further facts of the same kind.

  \<^bold>\<open>Loops, fuel and bounds.\<close> Loops over a queue are structural recursion on the list. The loop of \<^verbatim>\<open>ikcp_input\<close> consumes 24 bytes
  per iteration. \<^verbatim>\<open>iqueue_foreach\<close> and the emptying of a queue have fuel, one more than the length of the queue being enough
  (C36, C37). \<^verbatim>\<open>Conn::run\<close> has \<open>recv_fuel\<close>, one more than the segments received: each message takes one, so the
  fuel is enough (C12, C16). \<^verbatim>\<open>new_conv\<close> draws until a number is free: its fuel is an argument, and \<open>fair_random\<close> says that so many draws have
  enough different values; it is a hypothesis where it is needed, with a generator that satisfies it in Sample_Net. \<^verbatim>\<open>connect\<close> gets the events of its
  calls of \<^verbatim>\<open>uv_run\<close> as a list, one entry per round, and is \<^term>\<open>None\<close> when they run out. The tree loops are partial functions,
  and are shown to return on every tree. Window arithmetic holds while windows stay below 2 to the 31;
  the invariants say where that is used.

  \<^bold>\<open>Parameters.\<close> \<^verbatim>\<open>malloc\<close>: whether it succeeds, and the arbitrary contents of fresh memory. \<open>env\<close>: the answers of \<^verbatim>\<open>random\<close>, of the
  clock and of libuv's calls. The events of libuv: any list. The comparison of a tree: any function; \<open>cmp_ok\<close> says that it
  compares keys. A wrong use of a pointer in the C++ layer has the value \<^term>\<open>None\<close>.

  \<^bold>\<open>Not modelled.\<close> \<^verbatim>\<open>log.cpp\<close> and the text of log messages (only \<^verbatim>\<open>ikcp_canlog\<close>'s test is here), since no state depends on
  them; \<^verbatim>\<open>ikcp_qprint\<close>; \<^verbatim>\<open>on_alloc_buffer\<close>, which only allocates; \<^verbatim>\<open>rand_seed\<close> and \<^verbatim>\<open>sleep_ms\<close>; \<^verbatim>\<open>platform.h\<close> and
  the include lists; libuv's declarations (\<^verbatim>\<open>uv.h\<close>, \<^verbatim>\<open>uv-unix.h\<close>, \<^verbatim>\<open>uv-win.h\<close>, \<^verbatim>\<open>uv-errno.h\<close>), which have no code; the client
  programs of the test directory, which only print what they receive. The widths are those of 64-bit Unix; the one place where a 32-bit \<^verbatim>\<open>long\<close> matters is \<open>long_of_u32\<close>.
  Addresses of pointers into libuv and of stack variables other than \<^verbatim>\<open>__node\<close> do not appear.
\<close>

unbundle bit_operations_syntax

section \<open>The protocol end to end\<close>

text \<open>
  C1: in every run of two endpoints over a network that may lose, duplicate, delay and reorder datagrams,
  the messages each application has received are the first messages the other has sent: complete,
  unchanged, in order, without gaps and without repetition.
\<close>

theorem end_to_end_delivery:
  assumes "sys_init conv s" "sys_step\<^sup>*\<^sup>* s t"
  shows "e_got (y_b t) = take (length (e_got (y_b t))) (e_sent (y_a t)) \<and>
    e_got (y_a t) = take (length (e_got (y_a t))) (e_sent (y_b t))"
  using sysi.reach_good [OF assms] by (auto simp: sys_inv_def ep_reads_def min_def)

lemma end_to_end_delivery_witness:
  "e_got (y_b demo_end) = take 1 (e_sent (y_a demo_end)) \<and> e_got (y_b demo_end) = [[65, 66, 67]]"
  using end_to_end_delivery [OF demo_init demo_run]
  by (simp add: demo_end_def demo_sys_def demo_a_def demo_b_def)

text \<open>
  C2: nothing is lost. In every reachable state, each fragment that has left a sender's queue is still in its send buffer, or the
  other side has received it: acknowledgements, however late or repeated, never remove a fragment that the peer does not have.
\<close>

theorem nothing_lost:
  assumes "sys_init conv s" "sys_step\<^sup>*\<^sup>* s t"
  shows "(\<forall>sn < k_snd_nxt (kcp_a t). in_flight (kcp_a t) sn \<or> received (kcp_b t) sn) \<and>
    (\<forall>sn < k_snd_nxt (kcp_b t). in_flight (kcp_b t) sn \<or> received (kcp_a t) sn)"
proof -
  note n = sys_no_lossD(4,5) [OF lossless.reach_good [OF assms]]
  show ?thesis
    using n(1) [unfolded no_loss_def covered_def, THEN conjunct1] n(2) [unfolded no_loss_def covered_def, THEN conjunct1]
    by (rule conjI)
qed

lemma nothing_lost_witness: "received (fst demo_reply) 0 \<and> \<not> in_flight demo_acked 0"
proof -
  have "ikcp_waitsnd demo_acked = 0" "k_snd_nxt demo_acked = 1" by (rule demo_steps)+
  moreover have "ep_own 7 (y_a demo_end)" using demo_inv(8) by (simp add: sys_inv_def)
  ultimately have "k_snd_buf demo_acked = []" "k_snd_nxt demo_acked = 1"
    using waitsnd_empty [of 7 "y_a demo_end"] by (simp_all add: demo_end_def demo_sys_def demo_a_def)
  then show ?thesis
    using nothing_lost [OF demo_init demo_run]
    by (simp add: demo_end_def demo_sys_def demo_a_def demo_b_def in_flight_def)
qed

text \<open>
  C3: when \<^verbatim>\<open>ikcp_waitsnd\<close> returns 0, everything sent has arrived: the messages the other application has not read yet lie, complete and in
  order, in the peer's \<^verbatim>\<open>rcv_queue\<close> and \<^verbatim>\<open>rcv_buf\<close>.
\<close>

theorem idle_sender_delivered:
  assumes "sys_init conv s" "sys_step\<^sup>*\<^sup>* s t" "ikcp_waitsnd (kcp_a t) = 0"
  shows "\<exists>rest. e_sent (y_a t) = e_got (y_b t) @ rest \<and>
    concat (map seg_bytes (k_rcv_queue (kcp_b t) @ k_rcv_buf (kcp_b t))) = concat rest"
proof -
  note n = lossless.reach_good [OF assms(1,2)]
  have "rcv_inv (kcp_b t)" using ep_ownD(1) [OF sys_no_lossD(2) [OF n]] by (simp add: kcp_ok_def)
  then show ?thesis by (rule idle_delivered [OF sys_no_lossD(1) [OF n] _ sys_no_lossD(3,4) [OF n] assms(3)])
qed

lemma idle_sender_delivered_witness:
  "\<exists>rest. demo_msgs = demo_msgs @ rest \<and> concat (map seg_bytes (k_rcv_queue (fst demo_reply) @ k_rcv_buf (fst demo_reply))) = concat rest"
proof -
  have "ikcp_waitsnd demo_acked = 0" by (rule demo_steps)
  then show ?thesis
    using idle_sender_delivered [OF demo_init demo_run]
    by (simp add: demo_end_def demo_sys_def demo_a_def demo_b_def)
qed

text \<open>
  C4: everything that was sent can be delivered, in both directions. From every reachable state, whatever was lost, whatever the timers and
  windows say, the run can go on until each application has read every message of the other and \<^verbatim>\<open>ikcp_waitsnd\<close> is 0 on
  both sides. \<open>fits_window\<close>: no message has more fragments than the peer's receive window (C11 shows why), the windows are open and
  fit the 16 bits of the header, and the receiver has moved what it can, as it has after every input and receive.
\<close>

theorem everything_delivered:
  assumes "sys_init conv s" "sys_step\<^sup>*\<^sup>* s t"
    and "fits_window (y_a t) (y_b t)" "fits_window (y_b t) (y_a t)"
  shows "\<exists>t'. sys_step\<^sup>*\<^sup>* t t' \<and>
    e_got (y_b t') = e_sent (y_a t) \<and> e_sent (y_a t') = e_sent (y_a t) \<and> ikcp_waitsnd (kcp_a t') = 0 \<and>
    e_got (y_a t') = e_sent (y_b t) \<and> e_sent (y_b t') = e_sent (y_b t) \<and> ikcp_waitsnd (kcp_b t') = 0"
proof -
  obtain t' where t: "calm t t'" "ikcp_waitsnd (kcp_a t') = 0" "ikcp_waitsnd (kcp_b t') = 0"
    "e_got (y_b t') = e_sent (y_a t)" "e_got (y_a t') = e_sent (y_b t)"
    by (rule both_delivered [OF lossless.reach_good shorts.reach_good]) (use assms in blast)+
  then show ?thesis by (intro exI [of _ t']) (simp add: calm_def keeps_def)
qed

lemma everything_delivered_witness:
  "\<exists>t'. sys_step\<^sup>*\<^sup>* demo_sys_queued t' \<and> e_got (y_b t') = demo_msgs \<and> e_got (y_a t') = [] \<and> ikcp_waitsnd (kcp_a t') = 0"
proof -
  have r: "sys_step\<^sup>*\<^sup>* demo_start demo_sys_queued"
    using demo_step_fast demo_step_send by (meson converse_rtranclp_into_rtranclp rtranclp.rtrancl_refl)
  have s: "kcp_a demo_sys_queued = demo_queued" "kcp_b demo_sys_queued = demo_new"
    "e_sent (y_a demo_sys_queued) = demo_msgs" "e_hist (y_a demo_sys_queued) = demo_stream"
    "e_sent (y_b demo_sys_queued) = []" "e_hist (y_b demo_sys_queued) = []"
    by (simp_all add: demo_sys_queued_def demo_sys_def demo_a_def demo_b_def)
  show ?thesis
    using everything_delivered [OF demo_init r] demo_new_fields demo_queued_fields
    unfolding fits_window_def s by (auto simp: rcv_drained_def)
qed

text \<open>
  Whatever is in flight can still arrive. From every reachable state, if the receiver's queue has room for the fragments below \<open>m\<close> that it misses,
  the run can go on so that they are all received, acknowledged and gone from the sender's buffer, whatever was lost
  before and whatever the timers say. (\<open>rcv_drained\<close>: the receiver has moved what it can, as it has after every input and receive.)
\<close>

theorem progress_possible:
  assumes "sys_init conv s" "sys_step\<^sup>*\<^sup>* s t" "length (e_hist (y_a t)) < 2 ^ 31" "rcv_drained (kcp_b t)"
    and "k_rcv_nxt (kcp_b t) < m" "m \<le> k_snd_nxt (kcp_a t)"
    and "unat (k_nrcv_que (kcp_b t)) + (unat m - unat (k_rcv_nxt (kcp_b t))) \<le> unat (k_rcv_wnd (kcp_b t))"
  shows "\<exists>t'. sys_step\<^sup>*\<^sup>* t t' \<and> m \<le> k_rcv_nxt (kcp_b t') \<and> (\<forall>sn < m. \<not> in_flight (kcp_a t') sn) \<and>
    e_sent (y_a t') = e_sent (y_a t)"
proof -
  have "ready conv m t" using lossless.reach_good [OF assms(1,2)] assms(3-7) by (simp add: ready_def)
  from deliver_up_to [OF this assms(5)] show ?thesis by (auto simp: quiet_def calm_def keeps_def)
qed

lemma progress_possible_witness:
  "\<exists>t'. sys_step\<^sup>*\<^sup>* demo_sys_flushed t' \<and> 1 \<le> k_rcv_nxt (kcp_b t') \<and> (\<forall>sn < 1. \<not> in_flight (kcp_a t') sn) \<and>
    e_sent (y_a t') = demo_msgs"
proof -
  have r: "sys_step\<^sup>*\<^sup>* demo_start demo_sys_flushed"
    using demo_step_fast demo_step_send demo_step_update
    by (meson converse_rtranclp_into_rtranclp rtranclp.rtrancl_refl)
  have s: "kcp_a demo_sys_flushed = fst demo_flushed" "kcp_b demo_sys_flushed = demo_new"
    "e_sent (y_a demo_sys_flushed) = demo_msgs" "length (e_hist (y_a demo_sys_flushed)) < 2 ^ 31"
    by (simp_all add: demo_sys_flushed_def demo_sys_def demo_a_def demo_b_def)
  show ?thesis
    using progress_possible [OF demo_init r s(4), of 1] demo_new_fields demo_flight(3)
    unfolding s by (simp add: rcv_drained_def)
qed

text \<open>
  C5: in every reachable state of the two endpoints each control block satisfies the sender's, the receiver's,
  the acknowledgement list's and the timer's invariant, and its segments fit its datagrams.
\<close>

theorem reachable_states_ok:
  assumes "sys_init conv s" "sys_step\<^sup>*\<^sup>* s t"
  shows "kcp_ok (e_kcp (y_a t)) \<and> kcp_ok (e_kcp (y_b t)) \<and>
    mtu_ok 1400 (e_kcp (y_a t)) \<and> mtu_ok 1400 (e_kcp (y_b t))"
  using sysi.reach_good [OF assms] by (simp add: sys_inv_def ep_own_def)

lemma reachable_states_ok_witness:
  "kcp_ok demo_acked \<and> mtu_ok 1400 (fst demo_reply) \<and> length (snd demo_reply) = 1"
  using reachable_states_ok [OF demo_init demo_run] demo_reply_one
  by (simp add: demo_end_def demo_sys_def demo_a_def demo_b_def)

section \<open>Input\<close>

text \<open>
  C6: whatever bytes arrive, \<^verbatim>\<open>ikcp_input\<close> keeps every invariant of the control block, returns one of
  its four codes, and records at most one acknowledgement per byte.
\<close>

theorem input_keeps_invariants:
  assumes "kcp_ok kcp" "unat (k_ackcount kcp) + length d < 2 ^ 29"
    and "ikcp_input mem kcp (Some d) = (r, kcp')"
  shows "kcp_ok kcp' \<and> unat (k_ackcount kcp') \<le> unat (k_ackcount kcp) + length d \<and>
    r \<in> {0, -1, -2, -3}"
  by (rule ikcp_input_ok [OF assms])

lemma input_keeps_invariants_witness:
  "kcp_ok demo_peer \<and> fst (ikcp_input demo_mem demo_new (Some demo_dgram)) \<in> {0, -1, -2, -3}"
proof -
  have "ikcp_input demo_mem demo_new (Some demo_dgram) =
      (fst (ikcp_input demo_mem demo_new (Some demo_dgram)), demo_peer)"
    by (simp add: demo_peer_def)
  from input_keeps_invariants [OF demo_ok(1) _ this] show ?thesis
    by (simp add: demo_dgram_length demo_new_acks [simplified])
qed

text \<open>
  C7: a datagram made of segments of this conversation is parsed completely: \<^verbatim>\<open>ikcp_input\<close>'s loop returns 0 and
  handles the segments one after the other, each with the header and the payload it was written with.
\<close>

theorem input_reads_datagram:
  assumes "\<forall>s \<in> set segs. wire_ok (k_conv kcp) s"
  shows "input_loop mem kcp (dgram segs) = (0, input_segs mem kcp segs)"
  by (rule input_loop_dgram [OF assms])

lemma input_reads_datagram_witness:
  "input_loop demo_mem demo_new (dgram [demo_seg\<lparr>s_conv := 7, s_cmd := 83\<rparr>, demo_seg\<lparr>s_conv := 7, s_cmd := 82\<rparr>]) =
     (0, input_segs demo_mem demo_new [demo_seg\<lparr>s_conv := 7, s_cmd := 83\<rparr>, demo_seg\<lparr>s_conv := 7, s_cmd := 82\<rparr>])"
proof (rule input_reads_datagram)
  have "k_conv demo_new = 7" by (simp add: demo_new_fields)
  then show "\<forall>s \<in> set [demo_seg\<lparr>s_conv := 7, s_cmd := 83\<rparr>, demo_seg\<lparr>s_conv := 7, s_cmd := 82\<rparr>].
      wire_ok (k_conv demo_new) s"
    by (simp add: wire_ok_def demo_seg_def ikcp_consts seg_frg_ok_def seg_ok_def)
qed

text \<open>
  C8: a datagram whose first segment belongs to another conversation, promises more payload than there is, or
  has an unknown command is refused with the matching code and changes nothing; one shorter than a
  header, or a null pointer, is ignored.
\<close>

theorem input_refuses:
  assumes "decode_hdr d = (h, rest)"
  shows "ikcp_input mem kcp None = (0, kcp) \<and>
    (length d < 24 \<longrightarrow> ikcp_input mem kcp (Some d) = (0, kcp)) \<and>
    (24 \<le> length d \<longrightarrow>
      (h_conv h \<noteq> k_conv kcp \<longrightarrow> ikcp_input mem kcp (Some d) = (-1, kcp)) \<and>
      (h_conv h = k_conv kcp \<longrightarrow> length d < 24 + unat (h_len h) \<longrightarrow>
        ikcp_input mem kcp (Some d) = (-2, kcp)) \<and>
      (h_conv h = k_conv kcp \<longrightarrow> 24 + unat (h_len h) \<le> length d \<longrightarrow> \<not> valid_cmd (h_cmd h) \<longrightarrow>
        ikcp_input mem kcp (Some d) = (-3, kcp)))"
proof -
  have l: "length rest < unat (h_len h) \<longleftrightarrow> length d < 24 + unat (h_len h)" if "24 \<le> length d"
    using snd_decode_hdr [of d] assms that by auto
  show ?thesis
    using l input_loop_step [OF _ assms, of mem kcp] by (simp add: ikcp_input_def)
qed

lemma input_refuses_witness:
  "ikcp_input demo_mem demo_new (Some (replicate 24 0)) = (-1, demo_new)"
proof -
  have h: "decode_hdr (replicate 24 0) =
      (\<lparr>h_conv = 0, h_cmd = 0, h_frg = 0, h_wnd = 0, h_ts = 0, h_sn = 0, h_una = 0, h_len = 0\<rparr>, [])"
    by code_simp
  have "k_conv demo_new = 7" by (simp add: demo_new_fields)
  then show ?thesis using input_refuses [OF h, of demo_mem demo_new] by simp
qed

text \<open>
  The length check of \<^verbatim>\<open>ikcp_input\<close> compares as \<^verbatim>\<open>long\<close>. With 64 bits it is exact for every length field;
  with 32 bits (the Windows libraries of the repository) every length of 2^31 or more reads as
  negative, and no datagram is refused for it.
\<close>

theorem long_length_check:
  "long_of_u32 64 x = int (unat x) \<and> (long_of_u32 32 x < 0 \<longleftrightarrow> 2 ^ 31 \<le> unat x)"
proof -
  have "long_of_u32 32 x = sint x" by (simp add: long_of_u32_def sint_uint)
  then show ?thesis using sint_neg_32 [of x] long_64 [of x] by simp
qed

section \<open>Receiving\<close>



text \<open>
  C10: a successful \<^verbatim>\<open>ikcp_recv\<close> with a buffer returns the number of bytes it wrote, which is at most the room the caller
  offered, and writes the payloads of the first message of the queue one after the other.
\<close>

theorem recv_fits_buffer:
  assumes "rcv_inv kcp" "length (concat (map seg_bytes (k_rcv_queue kcp))) < 2 ^ 31"
    and "ikcp_recv kcp True n = (r, out, kcp')" "0 \<le> r"
  shows "r = int (length out) \<and> r \<le> (if n < 0 then i32 (- n) else n) \<and>
    out = concat (map seg_bytes (first_msg (k_rcv_queue kcp)))"
  by (rule recv_size [OF assms])

lemma recv_fits_buffer_witness:
  "fst demo_read = int (length (fst (snd demo_read))) \<and> fst demo_read \<le> 10"
proof -
  have "ikcp_recv demo_peer True 10 = (fst demo_read, fst (snd demo_read), snd (snd demo_read))"
    by (simp add: demo_read_def)
  from recv_fits_buffer [OF _ _ this, THEN conjunct1] show ?thesis
    using demo_ok(9) demo_read_code by (simp add: kcp_ok_def demo_queue_bytes)
qed

text \<open>
  \<^verbatim>\<open>ikcp_recv\<close> fails in three ways, each without any effect: nothing in the queue (-1), a message that is not
  complete (-2), a buffer that is too small (-3).
\<close>

theorem recv_errors:
  "ikcp_recv kcp b n = (r, out, kcp') \<Longrightarrow> r < 0 \<Longrightarrow>
   kcp' = kcp \<and> out = [] \<and>
   r = (if k_rcv_queue kcp = [] then -1 else if ikcp_peeksize kcp < 0 then -2 else -3)"
  using peeksize_first_msg [of kcp] by (auto simp: ikcp_recv_eq Let_def split: if_splits)

lemma recv_errors_witness: "ikcp_recv demo_new True 10 = (-1, [], demo_new)"
proof -
  have q: "k_rcv_queue demo_new = []" by (simp add: demo_new_fields)
  then have "fst (ikcp_recv demo_new True 10) = -1" by (simp add: ikcp_recv_def)
  then show ?thesis
    using recv_errors [of demo_new True 10 "fst (ikcp_recv demo_new True 10)"
        "fst (snd (ikcp_recv demo_new True 10))" "snd (snd (ikcp_recv demo_new True 10))"] q
    by (simp add: prod_eq_iff)
qed

text \<open>
  Asking with a negative length looks without taking: the call returns what the receive with the same room would return,
  and the queue keeps its entries (the window may only let more in behind them).
\<close>

theorem recv_peek:
  assumes "ikcp_recv kcp True (- n) = (r, out, kcp')" "0 \<le> r" "0 < n" "n < 2 ^ 31"
  shows "fst (ikcp_recv kcp True n) = r \<and> fst (snd (ikcp_recv kcp True n)) = out \<and>
    (\<exists>more. k_rcv_queue kcp' = k_rcv_queue kcp @ more)"
  using peek_then_recv [OF assms order_refl] by blast

lemma recv_peek_witness:
  "fst (snd (ikcp_recv demo_peer True (- 10))) = [65, 66, 67] \<and> fst (snd (ikcp_recv demo_peer True 10)) = [65, 66, 67]"
proof -
  have q: "k_rcv_queue demo_peer \<noteq> []" using demo_queue_bytes by auto
  have p: "ikcp_peeksize demo_peer = 3" by (rule demo_steps)
  have i: "i32 10 = 10" by (rule i32_id) simp_all
  have f: "concat (map seg_bytes (first_msg (k_rcv_queue demo_peer))) = [65, 66, 67]" by (rule demo_steps)
  have "0 \<le> fst (ikcp_recv demo_peer True (- 10))" "fst (snd (ikcp_recv demo_peer True (- 10))) = [65, 66, 67]"
    using p peeksize_first_msg [of demo_peer] by (simp_all add: ikcp_recv_eq q i f Let_def)
  moreover obtain r out k where "ikcp_recv demo_peer True (- 10) = (r, out, k)" by (metis surj_pair)
  ultimately show ?thesis using recv_peek [of demo_peer 10 r out k] by simp
qed

text \<open>
  C11: a message of more fragments than the receive window never arrives: once its head is in the queue, every
  receive fails with -2, and no datagram whatever changes that. \<^verbatim>\<open>Conn::send_kcp\<close> accepts 64 KiB, 48 fragments of the
  default size, and the default window has 32 places.
\<close>

theorem oversized_message_stuck:
  assumes "rcv_stuck kcp"
  shows "ikcp_recv kcp b n = (-2, [], kcp) \<and> rcv_stuck (snd (ikcp_input mem kcp (Some d)))"
  using stuck_recv [OF assms] stuck_input [OF assms] by blast

lemma oversized_message_stuck_witness:
  "ikcp_recv (demo_new\<lparr>k_rcv_queue := [demo_seg\<lparr>s_frg := 47\<rparr>], k_nrcv_que := 1\<rparr>) True 100000 =
     (-2, [], demo_new\<lparr>k_rcv_queue := [demo_seg\<lparr>s_frg := 47\<rparr>], k_nrcv_que := 1\<rparr>) \<and>
   n_fragments 1376 65536 = 48"
proof -
  have "k_rcv_wnd demo_new = 32" by (simp add: demo_new_fields)
  then have "rcv_stuck (demo_new\<lparr>k_rcv_queue := [demo_seg\<lparr>s_frg := 47\<rparr>], k_nrcv_que := 1\<rparr>)"
    by (simp add: rcv_stuck_def)
  from oversized_message_stuck [OF this] show ?thesis by (simp add: n_fragments_def)
qed

section \<open>Connections\<close>





text \<open>
  C14: the server's answer takes a client that asked with the same number to the established state, with the server's conversation and
  key, and its first message is the acknowledgement with that key.
\<close>

theorem handshake_agrees:
  assumes "c_status c = CONV_REQ_CONN" "rq_n (cc_req_conn c) = cs_n s" "server_conn_ok reqs conv s"
    and "ev_create env (io_n io) = (True, True)" "\<forall>i. ev_alloc env (Suc (io_n io)) i \<noteq> None"
  shows "\<exists>c' io' kcp. client_on_recv_udp env (snd_conv_bytes (cs_snd_conv s)) addr c io = Some (c', io') \<and>
    c_status c' = CONV_ESTABLISHED \<and> c_conv c' = c_conv s \<and> c_key c' = c_key s \<and>
    c_kcp c' = Some kcp \<and> k_conv kcp = c_conv s \<and>
    concat (map s_data (k_snd_queue kcp)) = pack_header_bytes \<lparr>ph_key = c_key s\<rparr>"
proof -
  let ?hs = "cs_snd_conv s"
  have s: "c_conv s = conv" "?hs = \<lparr>sc_conv = CONV_SND_CONV, sc_n = cs_n s, sc_new_conv = conv, sc_key = c_key s\<rparr>"
    using assms(3) by (simp_all add: server_conn_ok_def)
  obtain k where k: "init_kcp env conv c io = (0, c\<lparr>c_kcp := Some k, c_conv := conv\<rparr>, asked io)"
    "k_conv k = conv" "unat (k_mss k) = 1376" "k_snd_queue k = []"
    using assms(4) by (simp add: init_kcp_def ikcp_create_def ikcp_nodelay_def Let_def ikcp_consts)
  let ?ack = "pack_header_bytes \<lparr>ph_key = c_key s\<rparr>"
  have n: "n_fragments 1376 (length ?ack) \<le> 255" by (simp add: n_fragments_def)
  have al: "\<forall>i. ev_alloc env (io_n (asked io)) i \<noteq> None" using assms(5) by simp
  have "\<exists>segs. ikcp_send (ev_alloc env (io_n (asked io))) k (Some ?ack) (int (length ?ack)) =
      (0, k\<lparr>k_snd_queue := k_snd_queue k @ segs, k_nsnd_que := k_nsnd_que k + word_of_nat (length segs)\<rparr>) \<and>
      concat (map s_data segs) = ?ack"
    by (rule ikcp_send_spec [OF k(3) _ _ al _ n]) (simp, simp, simp, blast)
  then obtain segs where g: "ikcp_send (ev_alloc env (io_n (asked io))) k (Some ?ack) (int (length ?ack)) =
      (0, k\<lparr>k_snd_queue := k_snd_queue k @ segs, k_nsnd_que := k_nsnd_que k + word_of_nat (length segs)\<rparr>)"
    "concat (map s_data segs) = ?ack" by blast
  show ?thesis
    using assms(1,2) g k s
    by (simp add: client_on_recv_udp_def on_recv_udp_snd_conv_def cast_bytes(2) [of _ "[]", simplified]
        get_conv_bytes(2) [of _ "[]", simplified] Let_def ack_conv_bytes_def send_kcp_raw_eq alive_def)
qed

lemma handshake_agrees_witness:
  "\<exists>c' io'. client_on_recv_udp demo_env (snd_conv_bytes (cs_snd_conv demo_server)) [9] demo_client demo_io = Some (c', io') \<and>
    c_status c' = CONV_ESTABLISHED \<and> c_conv c' = 5000 \<and> c_key c' = 6000"
proof -
  have "c_status demo_client = CONV_REQ_CONN" "rq_n (cc_req_conn demo_client) = cs_n demo_server"
    "c_conv demo_server = 5000" "c_key demo_server = 6000"
    by (simp_all add: demo_client_def demo_server_def server_new_def client_new_def conn.defs conn_client.defs conn_server.defs)
  then show ?thesis
    using handshake_agrees [OF _ _ demo_server_ok, of demo_client demo_env demo_io "[9]"]
    by (fastforce simp: demo_alloc_def)
qed

text \<open>
  C15: while it waits for the answer, a client ignores every datagram that is not a 16-byte answer to its own number.
\<close>

theorem client_ignores_strangers:
  assumes "c_status c = CONV_REQ_CONN"
    and "length d \<noteq> 16 \<or> ikcp_get_conv (Some d) \<noteq> (0, Some CONV_SND_CONV) \<or> sc_n (snd_conv_cast d) \<noteq> rq_n (cc_req_conn c)"
  shows "client_on_recv_udp env d addr c io = Some (c, io)"
  using assms
  by (auto simp: client_on_recv_udp_def on_recv_udp_snd_conv_def Let_def ikcp_get_conv_def split: if_splits)

lemma client_ignores_strangers_witness:
  "client_on_recv_udp demo_env (snd_conv_bytes \<lparr>sc_conv = CONV_SND_CONV, sc_n = 78, sc_new_conv = 5, sc_key = 6\<rparr>) [9]
     demo_client demo_io = Some (demo_client, demo_io)"
proof (rule client_ignores_strangers)
  let ?hs = "\<lparr>sc_conv = CONV_SND_CONV, sc_n = 78, sc_new_conv = 5, sc_key = 6\<rparr>"
  have n: "rq_n (cc_req_conn demo_client) = 77" and "c_status demo_client = CONV_REQ_CONN"
    by (simp_all add: demo_client_def client_new_def)
  then show "c_status demo_client = CONV_REQ_CONN" by simp
  have "snd_conv_cast (snd_conv_bytes ?hs) = ?hs" using cast_bytes(2) [of ?hs "[]"] by simp
  then show "length (snd_conv_bytes ?hs) \<noteq> 16 \<or> ikcp_get_conv (Some (snd_conv_bytes ?hs)) \<noteq> (0, Some CONV_SND_CONV) \<or>
      sc_n (snd_conv_cast (snd_conv_bytes ?hs)) \<noteq> rq_n (cc_req_conn demo_client)"
    by (simp add: n)
qed

text \<open>
  C16: \<^verbatim>\<open>ConnServer::run\<close> returns and passes on exactly the messages that start with the connection's key and have a payload, in the order \<^verbatim>\<open>ikcp_recv\<close>
  gives them, under the connection's conversation; but any message at all, authentic or not, ends the handshake.
\<close>

theorem server_run_delivers:
  assumes "c_kcp c = Some kcp" "k = fst (ikcp_update kcp (ucast tick))" "ms = drain (recv_fuel k) k"
  shows "\<exists>c' io'. server_run env tick q c io = Some (0, q @ delivered (c_key c) (c_conv c) ms, c', io') \<and>
    c_status c' = (if c_status c = CONV_SND_CONV \<and> ms \<noteq> [] then CONV_ESTABLISHED else c_status c)"
proof -
  have "status_after (length ms) (c_status c) =
      (if c_status c = CONV_SND_CONV \<and> ms \<noteq> [] then CONV_ESTABLISHED else c_status c)"
    by (simp add: status_after_def)
  then show ?thesis using server_run_spec [OF assms, of env q io] by metis
qed

lemma server_run_delivers_witness:
  "\<exists>c' io'. server_run demo_env 1234 [] (demo_server\<lparr>c_kcp := Some demo_peer\<rparr>) demo_io = Some (0, [], c', io') \<and>
    c_status c' = CONV_ESTABLISHED"
proof -
  obtain m where m: "drain (recv_fuel demo_late) demo_late = [m]" "delivered 6000 5000 [m] = []" "delivered 0 0 [m] = []"
    using demo_late_message [of 6000 5000] demo_late_message [of 0 0] by auto
  have k: "demo_late = fst (ikcp_update demo_peer (ucast (1234 :: u64)))" by (simp add: demo_late_def)
  from server_run_delivers [of "demo_server\<lparr>c_kcp := Some demo_peer\<rparr>" demo_peer, OF _ k m(1) [symmetric],
      of demo_env "[]" demo_io] m
  show ?thesis
    by (simp add: demo_server_def server_new_def conn_new_def conn.defs conn_server.defs)
qed

text \<open>
  The client passes on the same messages and its status does not change.
\<close>

theorem client_run_delivers:
  assumes "c_kcp c = Some kcp" "k = fst (ikcp_update kcp (ucast tick))" "ms = drain (recv_fuel k) k"
  shows "\<exists>c' io'. client_run env tick q c io =
      Some (int (length ms), q @ delivered (c_key c) (c_conv c) ms, c', io') \<and> c_status c' = c_status c"
  using client_recv.run_spec [OF assms] unfolding client_run_def by blast

lemma client_run_delivers_witness:
  "\<exists>c' io'. client_run demo_env 1234 [] (demo_client\<lparr>c_kcp := Some demo_peer\<rparr>) demo_io = Some (1, [], c', io') \<and>
    c_status c' = CONV_REQ_CONN"
proof -
  obtain m where m: "drain (recv_fuel demo_late) demo_late = [m]" "delivered 6000 5000 [m] = []" "delivered 0 0 [m] = []"
    using demo_late_message [of 6000 5000] demo_late_message [of 0 0] by auto
  have k: "demo_late = fst (ikcp_update demo_peer (ucast (1234 :: u64)))" by (simp add: demo_late_def)
  from client_run_delivers [of "demo_client\<lparr>c_kcp := Some demo_peer\<rparr>" demo_peer, OF _ k m(1) [symmetric],
      of demo_env "[]" demo_io] m
  show ?thesis
    by (simp add: demo_client_def client_new_def conn_new_def conn.defs conn_client.defs)
qed



text \<open>
  C18: when a client's connection expires, \<^verbatim>\<open>Network::run\<close> deletes the object but leaves libuv's handle pointing to it: the next
  datagram is handed to freed memory.
\<close>

theorem client_used_after_delete:
  assumes "n_udp_cb net = Some Cb_client" "n_udp_data net = Data_conn a" "n_map_conn net = [(obj_conv obj, a)]"
    and "n_heap net a = Some obj" "fst (obj_expired env obj io) = 0"
  shows "\<exists>net' io'. network_run fuel env [] net io = Some (net', io') \<and> n_map_conn net' = [] \<and>
    (\<forall>nread base addr io. 0 < nread \<longrightarrow> uv_step fuel env (Ev_recv nread base addr) net' io = None)"
  using assms
  by (simp add: network_run_def Let_def split_beta delete_def map_erase_def on_recv_udp_client_def)

lemma client_used_after_delete_witness:
  "\<exists>net' io'. network_run 0 demo_env [] (network_new\<lparr>n_udp_cb := Some Cb_client, n_udp_data := Data_conn 1,
      n_map_conn := [(0, 1)], n_heap := [1 \<mapsto> Client_obj demo_client]\<rparr>) demo_io = Some (net', io') \<and>
    uv_step 0 demo_env (Ev_recv 1 [7] [9]) net' io' = None"
proof -
  let ?net = "network_new\<lparr>n_udp_cb := Some Cb_client, n_udp_data := Data_conn 1, n_map_conn := [(0, 1)],
    n_heap := [1 \<mapsto> Client_obj demo_client]\<rparr>"
  have "c_expired_tick demo_client = 0" "c_conv demo_client = 0"
    by (simp_all add: demo_client_def client_new_def conn_new_def conn.defs conn_client.defs)
  moreover have "tick_at demo_env 0 = 1000000" by (simp add: tick_at_def)
  ultimately have "fst (obj_expired demo_env (Client_obj demo_client) demo_io) = 0" "obj_conv (Client_obj demo_client) = 0"
    by (simp_all add: expired_def Let_def demo_io_def get_conv_def)
  then obtain net' io' where "network_run 0 demo_env [] ?net demo_io = Some (net', io')"
    "\<forall>nread base addr io. 0 < nread \<longrightarrow> uv_step 0 demo_env (Ev_recv nread base addr) net' io = None"
    using client_used_after_delete [of ?net 1 "Client_obj demo_client" demo_env demo_io 0] by auto
  then show ?thesis by (intro exI [of _ net'] exI [of _ io']) simp
qed



text \<open>
  A client sends its request at most ten times, and again only more than a second after the last time.
\<close>

theorem request_repetition:
  assumes "req_conn_run env c io = (c', io')"
  shows "(if c_status c = CONV_REQ_CONN \<and> 0 < cc_req_conn_times c \<and> cc_next_req_conn_tick c < tick_at env (io_n io)
     then cc_req_conn_times c' = cc_req_conn_times c - 1 \<and> cc_next_req_conn_tick c' = tick_at env (io_n io) + 1000 \<and>
       (ev_uv env (Suc (io_n io)) < 0 \<or> io_out io' = io_out io @ [(c_addr c, req_conn_bytes (cc_req_conn c))])
     else c' = c \<and> io_out io' = io_out io)"
  using assms by (auto simp: req_conn_run_def send_udp_def Let_def split: if_splits)

lemma request_repetition_witness:
  "io_out (snd (req_conn_run demo_env demo_client demo_io)) = [([8], req_conn_bytes \<lparr>rq_conv = 1, rq_n = 77\<rparr>)]"
proof -
  have c: "c_status demo_client = CONV_REQ_CONN" "cc_req_conn_times demo_client = 10" "c_addr demo_client = [8]"
    "cc_next_req_conn_tick demo_client = 0" "cc_req_conn demo_client = \<lparr>rq_conv = 1, rq_n = 77\<rparr>"
    by (simp_all add: demo_client_def client_new_def conn_new_def conn.defs conn_client.defs conv_consts)
  have t: "tick_at demo_env 0 = 1000000" by (simp add: tick_at_def)
  show ?thesis
    using request_repetition [OF prod.collapse [symmetric], of demo_client demo_env demo_io] c t
    by (simp add: demo_io_def)
qed

section \<open>Flushing\<close>

text \<open>
  C20: no datagram a flush hands to the output callback is empty or longer than the MTU, so the output buffer, which is at least
  that long, is never overrun.
\<close>

theorem flush_datagrams_fit:
  assumes "kcp_ok kcp" "mtu_ok M kcp" "unat (k_ackcount kcp) < 2 ^ 31" "ikcp_flush kcp = (kcp', out)"
  shows "\<forall>d \<in> set out. d \<noteq> [] \<and> length d \<le> unat (k_mtu kcp) \<and> length d \<le> the (k_buffer kcp)"
proof (cases "k_updated kcp = 0")
  case True
  then show ?thesis using assms(4) by (simp add: ikcp_flush_def)
next
  case False
  obtain gss where g: "ikcp_flush kcp = (flush_kcp kcp, map dgram gss)"
    "\<forall>g \<in> set gss. g \<noteq> [] \<and> length (dgram g) \<le> M"
    by (rule flush_eq [OF assms(1,2) False assms(3)])
  have m: "M = unat (k_mtu kcp)" "M \<le> the (k_buffer kcp)"
    using mtu_ok_room [OF assms(2)] by simp_all
  have "out = map dgram gss" using g(1) assms(4) by simp
  then show ?thesis using g(2) order_trans [OF _ m(2)] by (simp only: m(1) set_map ball_simps dgram_eq_Nil) blast
qed

lemma flush_datagrams_fit_witness:
  "list_all (\<lambda>d. d \<noteq> [] \<and> length d \<le> 1400) (snd (ikcp_flush (demo_queued\<lparr>k_updated := 1\<rparr>)))"
proof -
  note k = demo_ready
  have "k_ackcount demo_queued = 0" by (rule demo_queued_fields)
  then show ?thesis
    using flush_datagrams_fit [OF k _ prod.collapse [symmetric]] k(2) by (auto simp: mtu_ok_def list_all_iff)
qed

text \<open>
  C21: a flush writes, in order and split into datagrams, the pending acknowledgements, the window probes that are
  due, and the segments in flight whose turn it is, as they are after the update of their timers; the control block
  it leaves is the declarative \<open>flush_kcp\<close>, and its invariants hold.
\<close>

theorem flush_refines:
  assumes "kcp_ok kcp" "mtu_ok M kcp" "k_updated kcp \<noteq> 0" "unat (k_ackcount kcp) < 2 ^ 31"
    and "ikcp_flush kcp = (kcp', out)"
  shows "concat out = dgram (flush_sent kcp) \<and> kcp' = flush_kcp kcp \<and>
    kcp_ok kcp' \<and> mtu_ok M kcp' \<and> k_ackcount kcp' = 0"
proof -
  have d: "concat (map dgram gss) = dgram (concat gss)" for gss
    by (induction gss) (simp_all add: dgram_def)
  obtain gss where "ikcp_flush kcp = (flush_kcp kcp, map dgram gss)" "concat gss = flush_sent kcp"
    by (rule flush_eq [OF assms(1-4)])
  then show ?thesis
    using assms(5) d [of gss] flush_kcp_ok [OF assms(1)] flush_kcp_mtu [OF assms(1,2)]
      flush_kcp_rcv(3) [OF assms(1)] by simp
qed

lemma flush_refines_witness:
  "concat (snd (ikcp_flush (demo_queued\<lparr>k_updated := 1\<rparr>))) = dgram (flush_sent (demo_queued\<lparr>k_updated := 1\<rparr>))"
proof -
  note k = demo_ready
  have "k_ackcount demo_queued = 0" by (rule demo_queued_fields)
  then show ?thesis using flush_refines [OF k _ _ prod.collapse [symmetric]] by simp
qed

text \<open>
  C22: a flush lets the numbers in flight grow only up to the smallest of the send window, the window the peer offers and, unless it is
  switched off, the congestion window.
\<close>

theorem flush_respects_window:
  assumes "kcp_ok kcp"
  shows "woff (k_snd_una kcp) (k_snd_nxt (flush_kcp kcp)) \<le>
      max (woff (k_snd_una kcp) (k_snd_nxt kcp))
        (min (unat (k_snd_wnd kcp)) (min (unat (k_rmt_wnd kcp))
          (if k_nocwnd kcp = 0 then unat (k_cwnd kcp) else unat (k_rmt_wnd kcp))))"
proof -
  have "unat (flush_window kcp) \<le> min (unat (k_snd_wnd kcp)) (min (unat (k_rmt_wnd kcp))
      (if k_nocwnd kcp = 0 then unat (k_cwnd kcp) else unat (k_rmt_wnd kcp)))"
    using flush_window_le [of kcp] by simp
  from max.mono [OF order_refl this] show ?thesis
    using flush_kcp_window(1) [OF assms] order_trans by blast
qed

lemma flush_respects_window_witness: "woff (k_snd_una demo_new) (k_snd_nxt (flush_kcp demo_new)) \<le> 32"
proof -
  have "k_snd_wnd demo_new = 32" "k_snd_una demo_new = 0" "k_snd_nxt demo_new = 0"
    by (simp_all add: demo_new_fields)
  then show ?thesis using flush_respects_window [OF demo_ok(1)] by simp
qed



section \<open>The clock\<close>

text \<open>
  C24: \<^verbatim>\<open>ikcp_update\<close> flushes when the flush time has come (or the clock jumped by ten seconds), and
  then sets the next one into the future, at most one interval ahead.
\<close>

theorem update_schedule:
  assumes "settings_ok kcp" "update_clock kcp current = (kcp', f)"
  shows "k_updated kcp' \<noteq> 0 \<and> k_current kcp' = current \<and>
    (f \<longleftrightarrow> k_updated kcp = 0 \<or> 0 \<le> flush_slap kcp current) \<and>
    (f \<longrightarrow> 0 < itimediff (k_ts_flush kcp') current \<and>
           itimediff (k_ts_flush kcp') current \<le> int (unat (k_interval kcp)))"
proof -
  have k: "kcp' = fst (update_clock kcp current)" and f: "f = snd (update_clock kcp current)"
    using assms(2) by simp_all
  have c: "k_current kcp' = current"
    unfolding k by (subst update_clock_frame) simp
  have i: "f \<longleftrightarrow> k_updated kcp = 0 \<or> 0 \<le> flush_slap kcp current"
    unfolding f using update_clock_flush [of kcp current] by blast
  have "f \<Longrightarrow> update_clock kcp current = (kcp', True)" using assms(2) by simp
  then show ?thesis
    using c i update_clock_updated [of kcp current, folded k] update_next_flush [OF assms(1)] by blast
qed

lemma update_schedule_witness:
  "snd (update_clock demo_new 1000) \<and> 0 < itimediff (k_ts_flush (fst (update_clock demo_new 1000))) 1000"
proof -
  have i: "k_interval demo_new = 100" "k_updated demo_new = 0" by (simp_all add: demo_new_fields)
  then show ?thesis
    using update_schedule [OF _ prod.collapse [symmetric], of demo_new 1000] by (simp add: settings_ok_def)
qed

text \<open>
  C25: the time \<^verbatim>\<open>ikcp_check\<close> returns is now when a flush or a resend is due; otherwise it lies at most one interval ahead,
  not after any resend, and \<^verbatim>\<open>ikcp_update\<close> would not flush at any moment before it.
\<close>

theorem check_promise:
  assumes "settings_ok kcp" "k_updated kcp \<noteq> 0"
  shows "if 0 \<le> flush_slap kcp current \<or> packet_due kcp current then ikcp_check kcp current = current
    else \<exists>d. ikcp_check kcp current = current + d \<and> 0 < unat d \<and> unat d \<le> unat (k_interval kcp) \<and>
      (\<forall>s \<in> set (k_snd_buf kcp). int (unat d) \<le> itimediff (s_resendts s) current) \<and>
      (\<forall>e. unat e < unat d \<longrightarrow> \<not> snd (update_clock kcp (current + e)))"
proof (cases "0 \<le> flush_slap kcp current \<or> packet_due kcp current")
  case True
  then show ?thesis using ikcp_check_due by simp
next
  case False
  then have f: "flush_slap kcp current < 0" and p: "\<not> packet_due kcp current" by simp_all
  obtain d where d: "ikcp_check kcp current = current + d" "0 < unat d" "unat d \<le> unat (k_interval kcp)"
    "int (unat d) \<le> - flush_slap kcp current"
    "\<forall>s \<in> set (k_snd_buf kcp). int (unat d) \<le> itimediff (s_resendts s) current"
    by (rule ikcp_check_wait [OF assms(2) f p assms(1)])
  have "\<not> snd (update_clock kcp (current + e))" if "unat e < unat d" for e
    by (rule no_flush_before [OF assms(2) f]) (use that d(4) in linarith)
  with d(1-3,5) have "\<exists>d. ikcp_check kcp current = current + d \<and> 0 < unat d \<and> unat d \<le> unat (k_interval kcp) \<and>
      (\<forall>s \<in> set (k_snd_buf kcp). int (unat d) \<le> itimediff (s_resendts s) current) \<and>
      (\<forall>e. unat e < unat d \<longrightarrow> \<not> snd (update_clock kcp (current + e)))"
    by blast
  then show ?thesis by (simp only: False if_False)
qed

lemma check_promise_witness:
  "ikcp_check (demo_new\<lparr>k_updated := 1, k_ts_flush := 1040\<rparr>) 1040 = 1040"
proof -
  have "k_interval demo_new = 100" by (simp add: demo_new_fields)
  then show ?thesis
    using check_promise [of "demo_new\<lparr>k_updated := 1, k_ts_flush := 1040\<rparr>" 1040]
    by (simp add: settings_ok_def flush_slap_def)
qed

section \<open>Bytes\<close>

text \<open>
  The 24 bytes \<^verbatim>\<open>ikcp_encode_seg\<close> writes are read back by the decoding steps of \<^verbatim>\<open>ikcp_input\<close> as the segment's fields (the
  command, fragment and window cut to the width of their field), and the rest of the datagram follows.
\<close>

theorem header_roundtrip:
  "length (ikcp_encode_seg seg) = 24 \<and>
   decode_hdr (ikcp_encode_seg seg @ rest) =
     (\<lparr>h_conv = s_conv seg, h_cmd = ucast (s_cmd seg), h_frg = ucast (s_frg seg), h_wnd = ucast (s_wnd seg),
       h_ts = s_ts seg, h_sn = s_sn seg, h_una = s_una seg, h_len = s_len seg\<rparr>, rest)"
  by (simp add: decode_encode_seg hdr_of_seg_def)

text \<open>
  The big-endian branch of the encoders and decoders produces and reads the same bytes as the little-endian one.
\<close>

theorem byte_orders_agree:
  "ikcp_encode16u_big w = ikcp_encode16u w \<and> ikcp_encode32u_big l = ikcp_encode32u l \<and>
   (2 \<le> length p \<longrightarrow> ikcp_decode16u_big p = ikcp_decode16u p) \<and>
   (4 \<le> length p \<longrightarrow> ikcp_decode32u_big p = ikcp_decode32u p)"
  by (simp add: encode16u_big_eq encode32u_big_eq decode16u_big_eq decode32u_big_eq)

lemma byte_orders_agree_witness: "fst (ikcp_decode32u_big [1, 2, 3, 4]) = 0x04030201"
proof -
  have "fst (ikcp_decode32u [1, 2, 3, 4]) = 0x04030201" by code_simp
  then show ?thesis using byte_orders_agree [of 0 0 "[1, 2, 3, 4]"] by simp
qed

text \<open>
  \<^verbatim>\<open>ikcp_get_conv\<close> reads what \<^verbatim>\<open>ikcp_set_conv\<close> wrote, which changes the first four bytes only.
\<close>

theorem conv_roundtrip:
  assumes "4 \<le> length d"
  shows "\<exists>d'. ikcp_set_conv (Some d) conv = (0, Some d') \<and> ikcp_get_conv (Some d') = (0, Some conv) \<and>
    length d' = length d \<and> drop 4 d' = drop 4 d"
  using assms
  by (simp add: ikcp_set_conv_def ikcp_get_conv_def c32.dec_enc c32.enc_length c32.drop_enc)

lemma conv_roundtrip_witness: "ikcp_get_conv (snd (ikcp_set_conv (Some [0, 0, 0, 0, 9]) 77)) = (0, Some 77)"
  using conv_roundtrip [of "[0, 0, 0, 0, 9]" 77] by auto

section \<open>Sending\<close>

text \<open>
  C26: \<^verbatim>\<open>ikcp_send\<close> cuts a message into the least number of fragments that fit the segment size, at most 255; their
  payloads are the message again, their numbers count down to 0, and they go to the end of the queue.
\<close>

theorem send_fragments_message:
  assumes "unat (k_mss kcp) = M" "0 < M" "M < 2 ^ 31" "\<forall>i. alloc i \<noteq> None"
    and "length b < 2 ^ 31" "n_fragments M (length b) \<le> 255"
  shows "\<exists>segs. ikcp_send alloc kcp (Some b) (int (length b)) =
      (0, kcp\<lparr>k_snd_queue := k_snd_queue kcp @ segs,
              k_nsnd_que := k_nsnd_que kcp + word_of_nat (length segs)\<rparr>) \<and>
    length segs = n_fragments M (length b) \<and> concat (map s_data segs) = b \<and>
    map s_frg segs = map word_of_nat (rev [0..<length segs]) \<and>
    (\<forall>s \<in> set segs. seg_ok s \<and> unat (s_len s) \<le> M)"
  by (rule ikcp_send_spec [OF assms]) blast

lemma send_fragments_message_witness:
  "\<exists>segs. snd (ikcp_send demo_alloc (demo_new\<lparr>k_mss := 2\<rparr>) (Some [1, 2, 3]) 3) =
      demo_new\<lparr>k_mss := 2, k_snd_queue := segs, k_nsnd_que := 2\<rparr> \<and>
    concat (map s_data segs) = [1, 2, 3] \<and> map s_frg segs = [1, 0]"
proof -
  have q: "k_snd_queue demo_new = []" "k_nsnd_que demo_new = 0" by (simp_all add: demo_new_fields)
  have r: "rev [0..<2] = [Suc 0, 0]" by (simp add: upt_rec)
  have n: "n_fragments 2 (length [1, 2, 3 :: u8]) = 2" by (simp add: n_fragments_def)
  obtain segs where s: "ikcp_send demo_alloc (demo_new\<lparr>k_mss := 2\<rparr>) (Some [1, 2, 3]) (int (length [1, 2, 3 :: u8])) =
      (0, demo_new\<lparr>k_mss := 2, k_snd_queue := segs, k_nsnd_que := word_of_nat (length segs)\<rparr>)"
    "length segs = 2" "concat (map s_data segs) = [1, 2, 3]"
    "map s_frg segs = map word_of_nat (rev [0..<length segs])"
    using send_fragments_message [of "demo_new\<lparr>k_mss := 2\<rparr>" 2 demo_alloc "[1, 2, 3]"] n
    by (auto simp: demo_alloc_def q)
  then show ?thesis by (intro exI [of _ segs]) (simp add: r)
qed

text \<open>
  A negative length is refused with -1 and a message that would need more than 255 fragments with -2, and
  the control block is unchanged.
\<close>

theorem send_errors:
  assumes "unat (k_mss kcp) = M" "0 < M" "M < 2 ^ 31"
  shows "ikcp_send alloc kcp buffer (- int (Suc n)) = (-1, kcp) \<and>
    (n < 2 ^ 31 \<longrightarrow> 255 < n_fragments M n \<longrightarrow> ikcp_send alloc kcp buffer (int n) = (-2, kcp))"
  using ikcp_send_too_long [OF assms] by (simp add: ikcp_send_def)

lemma send_errors_witness:
  "ikcp_send demo_alloc demo_new None 400000 = (-2, demo_new)"
proof -
  have "unat (k_mss demo_new) = 1376" by (simp add: demo_new_fields)
  from send_errors [OF this, of demo_alloc None 400000] show ?thesis
    by (simp add: n_fragments_def)
qed

text \<open>
  C27: a cumulative acknowledgement \<^verbatim>\<open>una\<close> inside the window removes exactly the segments before \<^verbatim>\<open>una\<close> from \<^verbatim>\<open>snd_buf\<close>,
  and after \<^verbatim>\<open>ikcp_shrink_buf\<close> the sender's invariant holds again.
\<close>

theorem una_removes_acknowledged:
  assumes "snd_inv kcp" "woff (k_snd_una kcp) una \<le> woff (k_snd_una kcp) (k_snd_nxt kcp)"
  shows "k_snd_buf (ikcp_parse_una kcp una) =
      filter (\<lambda>s. woff (k_snd_una kcp) una \<le> woff (k_snd_una kcp) (s_sn s)) (k_snd_buf kcp) \<and>
    snd_inv (ikcp_shrink_buf (ikcp_parse_una kcp una))"
  using assms parse_una_filter shrink_buf_inv parse_una_win by (auto simp: snd_inv_def)

lemma una_removes_acknowledged_witness: "k_snd_buf (ikcp_parse_una (fst demo_flushed) 1) = []"
proof -
  have "s_sn s = 0" if "s \<in> set (k_snd_buf (fst demo_flushed))" for s
    using that demo_flight(1) by (cases "k_snd_buf (fst demo_flushed)") auto
  then show ?thesis
    using una_removes_acknowledged [of "fst demo_flushed" 1] demo_ok(7) demo_flight(2,3)
    by (auto simp: kcp_ok_def woff_def filter_empty_conv)
qed

text \<open>
  C28: the acknowledgement of a segment in flight removes that segment and no other, counts one skip for each segment
  before it (for the fast retransmission), and after \<^verbatim>\<open>ikcp_shrink_buf\<close> the sender's invariant holds.
\<close>

theorem ack_removes_segment:
  assumes "snd_inv kcp" "k_snd_buf kcp = xs @ s # ys"
  shows "k_snd_buf (ikcp_parse_ack kcp (s_sn s)) =
      map (\<lambda>t. t\<lparr>s_fastack := s_fastack t + 1\<rparr>) xs @ ys \<and>
    snd_inv (ikcp_shrink_buf (ikcp_parse_ack kcp (s_sn s)))"
proof -
  have win: "snd_win kcp" using assms(1) by (simp add: snd_inv_def)
  have d: "distinct (map s_sn (k_snd_buf kcp))"
    using snd_winD(1) [OF win] by (rule ordered_distinct_sn)
  then have n: "\<forall>t \<in> set xs. s_sn t \<noteq> s_sn s" using assms(2) by (auto intro: rev_image_eqI dest: sym)
  have "k_snd_buf (ikcp_parse_ack kcp (s_sn s)) = map bump xs @ ys"
    using parse_ack_buf [OF win, of s "s_sn s"] n assms(2) by (simp add: takeWhile_append dropWhile_append)
  then show ?thesis
    using shrink_buf_inv [OF parse_ack_win [OF win]] by (simp add: bump_def [abs_def])
qed

lemma ack_removes_segment_witness: "k_snd_buf (ikcp_parse_ack (fst demo_flushed) 0) = []"
proof -
  obtain s where s: "k_snd_buf (fst demo_flushed) = [] @ s # []" "s_sn s = 0"
    using demo_flight(1) by (cases "k_snd_buf (fst demo_flushed)") auto
  show ?thesis using ack_removes_segment [OF _ s(1)] demo_ok(7) s(2) by (simp add: kcp_ok_def)
qed

text \<open>
  C29: the growing flat array of \<^verbatim>\<open>ikcp_ack_push\<close> is a list of pairs: pushing appends a pair, reading by index reads the
  list, and the array always has room for what is counted.
\<close>

theorem ack_list_refinement:
  assumes "ack_inv kcp" "unat (k_ackcount kcp) < 2 ^ 29"
  shows "acks (ikcp_ack_push mem kcp sn ts) = acks kcp @ [(sn, ts)] \<and>
    ack_inv (ikcp_ack_push mem kcp sn ts) \<and> length (acks kcp) = unat (k_ackcount kcp) \<and>
    (\<forall>i < unat (k_ackcount kcp). ikcp_ack_get kcp i = acks kcp ! i)"
  using ack_push_acks [OF assms] by (simp add: acks_def)

lemma ack_list_refinement_witness:
  "acks (ikcp_ack_push (demo_mem 0) demo_new 5 6) = [(5, 6)]"
proof -
  have "acks demo_new = []" by (simp add: acks_def demo_new_acks [simplified])
  then show ?thesis
    using ack_list_refinement [of demo_new "demo_mem 0" 5 6] demo_ok(1) demo_new_acks
    by (simp add: kcp_ok_def)
qed

section \<open>Round trip times\<close>



text \<open>
  Whatever the measured time, even with overflow in the estimator, the timeout stays between its lower limit and 60 seconds.
\<close>

theorem rto_clamped:
  "k_rx_minrto kcp \<in> {30, 100} \<Longrightarrow>
   k_rx_minrto kcp \<le> k_rx_rto (ikcp_update_ack kcp rtt) \<and> k_rx_rto (ikcp_update_ack kcp rtt) \<le> 60000"
  by (rule update_ack_rto)

lemma rto_clamped_witness: "k_rx_rto (ikcp_update_ack demo_new 1000000000) \<le> 60000"
proof -
  have "k_rx_minrto demo_new = 100" by (simp add: demo_new_fields)
  then show ?thesis using rto_clamped [of demo_new 1000000000] by simp
qed

section \<open>Congestion window\<close>

text \<open>
  The congestion window grows by at most one segment per datagram of acknowledgements and never past the window the peer offers.
\<close>

theorem cwnd_growth:
  "k_cwnd kcp \<le> k_cwnd (grow_cwnd kcp) \<and>
   k_cwnd (grow_cwnd kcp) \<le> imax (k_cwnd kcp) (k_rmt_wnd kcp) \<and>
   unat (k_cwnd (grow_cwnd kcp)) \<le> Suc (unat (k_cwnd kcp))"
  by (rule grow_cwnd_bounds)

text \<open>
  After a flush the congestion window is at least one segment; a timeout sets it to one, a loss of either kind leaves a
  threshold of at least two, and without losses neither changes.
\<close>

theorem cwnd_after_flush:
  "1 \<le> k_cwnd (flush_cwnd w r l n kcp) \<and>
   (l \<longrightarrow> k_cwnd (flush_cwnd w r l n kcp) = 1) \<and>
   (l \<or> n \<noteq> 0 \<longrightarrow> IKCP_THRESH_MIN \<le> k_ssthresh (flush_cwnd w r l n kcp)) \<and>
   (\<not> l \<and> n = 0 \<and> k_cwnd kcp \<noteq> 0 \<longrightarrow> k_cwnd (flush_cwnd w r l n kcp) = k_cwnd kcp \<and>
      k_ssthresh (flush_cwnd w r l n kcp) = k_ssthresh kcp)"
  by (auto simp: flush_cwnd_bounds)

lemma cwnd_after_flush_witness:
  "k_cwnd (flush_cwnd 8 2 True 0 demo_new) = 1 \<and> 2 \<le> k_ssthresh (flush_cwnd 8 2 True 0 demo_new)"
  using cwnd_after_flush [of 8 2 True 0 demo_new] by (simp add: IKCP_THRESH_MIN_def)

section \<open>Trees\<close>

text \<open>
  C31: \<^verbatim>\<open>RB_INSERT\<close> on a red-black tree with ordered keys returns. When a node has the key of the new one it gives that node and changes nothing;
  otherwise it gives \<^verbatim>\<open>NULL\<close> and leaves a red-black tree (links both ways, no two reds in a row, equal black heights, black root) whose nodes in
  order are those of before with the new one in its place, and whose height is at most twice the logarithm of its size, as the comment in the file says.
\<close>

theorem rb_insert_spec:
  assumes "rb_tree key h t" "cmp_ok cmp key" "e \<noteq> 0" "e \<notin> set (nodes t)"
  shows "if \<exists>x\<in>set (nodes t). key x = key e
    then \<exists>x\<in>set (nodes t). key x = key e \<and> RB_INSERT cmp e h = Some (x, h)
    else \<exists>h' t'. RB_INSERT cmp e h = Some (0, h') \<and> rb_tree key h' t' \<and> nodes t' = insort_key key e (nodes t)
           \<and> 2 ^ height t' \<le> (length (nodes t) + 2) ^ 2"
proof (cases "\<exists>x\<in>set (nodes t). key x = key e")
  case False
  with rb_insert_result [OF assms] obtain h' t' where t': "RB_INSERT cmp e h = Some (0, h')" "rb_tree key h' t'"
    "nodes t' = insort_key key e (nodes t)"
    by auto
  have "length (nodes t') + 1 = length (nodes t) + 2" by (simp add: t'(3))
  then have "2 ^ height t' \<le> (length (nodes t) + 2) ^ 2"
    using rb_tree_height [OF t'(2)] by metis
  then show ?thesis using False t' by auto
qed (use rb_insert_result [OF assms] in simp)

lemma rb_insert_spec_witness:
  "\<exists>h' t'. RB_INSERT (key_cmp (\<lambda>a. a)) 4 demo_rb = Some (0, h') \<and> rb_tree (\<lambda>a. a) h' t' \<and> nodes t' = [1, 2, 3, 4]"
  using rb_insert_spec [OF demo_rb_ok key_cmp_ok, of 4] by (simp add: demo_rb_nodes) blast

text \<open>
  C32: \<^verbatim>\<open>RB_REMOVE\<close> of a node of a red-black tree returns that node and leaves a red-black tree with all other nodes in their order.
\<close>

theorem rb_remove_spec:
  assumes "rb_tree key h t" "a \<in> set (nodes t)"
  shows "\<exists>h' t'. RB_REMOVE a h = Some (a, h') \<and> rb_tree key h' t' \<and> nodes t' = remove1 a (nodes t)
    \<and> RB_FOREACH h' = Some (remove1 a (nodes t))"
  using rb_remove_result [OF assms] rb_foreach_result by metis

lemma rb_remove_spec_witness:
  "\<exists>h'. RB_REMOVE 2 demo_rb = Some (2, h') \<and> RB_FOREACH h' = Some [1, 3]"
  using rb_remove_spec [OF demo_rb_ok, of 2] by (auto simp: demo_rb_nodes)

text \<open>
  C33: on a red-black tree every search and walk returns: \<^verbatim>\<open>RB_FIND\<close> gives the node with the key or \<^verbatim>\<open>NULL\<close>, \<^verbatim>\<open>RB_NFIND\<close> the first node whose
  key is not smaller, \<^verbatim>\<open>RB_MINMAX\<close> the first or the last node, \<^verbatim>\<open>RB_FOREACH\<close> and its reverse visit every node in order, and
  \<^verbatim>\<open>RB_FOREACH_SAFE\<close> with a body that removes its node empties the tree.
\<close>

theorem rb_walk_spec:
  assumes "rb_tree key h t" "cmp_ok cmp key"
  shows "RB_FIND cmp e h = Some (found (List.find (\<lambda>x. key x = key e) (nodes t)))
    \<and> RB_NFIND cmp e h = Some (found (List.find (\<lambda>x. key e \<le> key x) (nodes t)))
    \<and> RB_MINMAX RB_NEGINF h = Some (next_of (nodes t)) \<and> RB_MINMAX RB_INF h = Some (next_of (rev (nodes t)))
    \<and> RB_FOREACH h = Some (nodes t) \<and> RB_FOREACH_REVERSE h = Some (rev (nodes t))
    \<and> (\<exists>h'. RB_FOREACH_SAFE remove_body h = Some h' \<and> RB_EMPTY h')"
  using rb_find_result [OF assms] rb_nfind_result [OF assms] rb_minmax_result [OF assms(1)]
    rb_foreach_result [OF assms(1)] rb_foreach_reverse_result [OF assms(1)] rb_remove_all [OF assms(1)]
  by (simp add: RB_NEGINF_def RB_INF_def)

lemma rb_walk_spec_witness:
  "RB_FIND (key_cmp (\<lambda>a. a)) 3 demo_rb = Some 3 \<and> RB_NFIND (key_cmp (\<lambda>a. a)) 3 demo_rb = Some 3
   \<and> RB_FOREACH demo_rb = Some [1, 2, 3]"
  using rb_walk_spec [OF demo_rb_ok key_cmp_ok, of 3] by (simp add: demo_rb_nodes found_def)

text \<open>
  C34: on a splay tree, inserting a node with a new key, finding it and removing it all return; the node found and the node removed are the one
  inserted, after the insertion the nodes are in order with the new one, and after the removal \<^verbatim>\<open>SPLAY_FOREACH\<close> visits the nodes of the
  beginning, in order, however the splaying has moved them.
\<close>

theorem splay_insert_find_remove:
  assumes "sp_holds key node h xs" "e \<noteq> 0" "e \<noteq> node" "key e \<notin> key ` set xs"
  shows "\<exists>h1 h2 h3 h4. SPLAY_INSERT (key_cmp key) node e h = Some (0, h1) \<and> sp_holds key node h1 (insort_key key e xs)
    \<and> SPLAY_FIND (key_cmp key) node e h1 = Some (e, h2)
    \<and> SPLAY_REMOVE (key_cmp key) node e h2 = Some (e, h3) \<and> sp_holds key node h3 xs
    \<and> SPLAY_FOREACH (key_cmp key) node h3 = Some (xs, h4)"
proof -
  have u: "e \<noteq> 0 \<and> e \<noteq> node" using assms by simp
  obtain h1 where 1: "SPLAY_INSERT (key_cmp key) node e h = Some (0, h1)" "sp_holds key node h1 (insort_key key e xs)"
    using sp_set.insert_new [OF assms(1) u assms(4)] by blast
  obtain h2 where 2: "SPLAY_FIND (key_cmp key) node e h1 = Some (e, h2)" "sp_holds key node h2 (insort_key key e xs)"
    using sp_set.insert_then_find [OF assms(1) u assms(4) 1(1)] by blast
  obtain h3 where 3: "SPLAY_REMOVE (key_cmp key) node e h2 = Some (e, h3)" "sp_holds key node h3 xs"
    using sp_set.remove_inserted [OF 2(2) assms(4)] by blast
  then show ?thesis using 1 2 sp_holds_foreach by blast
qed

lemma splay_insert_find_remove_witness:
  "\<exists>h1. SPLAY_INSERT (key_cmp (\<lambda>a. a)) 9 4 demo_sp = Some (0, h1) \<and> sp_holds (\<lambda>a. a) 9 h1 [1, 2, 4, 5]"
  using splay_insert_find_remove [OF demo_sp_holds, of 4] by (simp add: insort_key.simps) blast

text \<open>
  C35: the red-black tree and the splay tree agree: after the same nodes (with different keys) are inserted into an empty tree of
  each kind, both loops over all nodes visit them sorted by key.
\<close>

theorem trees_agree:
  assumes "distinct (map key es)" "\<forall>e\<in>set es. e \<noteq> 0 \<and> e \<noteq> node" "node \<noteq> 0"
  shows "\<exists>h h'. insert_nodes (RB_INSERT (key_cmp key)) es (RB_INIT g) = Some h \<and> insert_nodes (SPLAY_INSERT (key_cmp key) node) es (SPLAY_INIT g') = Some h'
    \<and> RB_FOREACH h = Some (sort_key key es)
    \<and> map_option fst (SPLAY_FOREACH (key_cmp key) node h') = Some (sort_key key es)"
proof -
  have "\<forall>e\<in>set es. e \<noteq> 0" using assms(2) by blast
  then obtain h where h: "insert_nodes (RB_INSERT (key_cmp key)) es (RB_INIT g) = Some h" "rb_holds key h (sort_key key es)"
    using rb_set.insert_all_sorts [OF rb_holds_init [of key g], of es] assms(1) fold_insort_sort [OF assms(1)] by auto
  obtain h' where h': "insert_nodes (SPLAY_INSERT (key_cmp key) node) es (SPLAY_INIT g') = Some h'" "sp_holds key node h' (sort_key key es)"
    using sp_set.insert_all_sorts [OF sp_holds_init [OF assms(3), of key g'] assms(2,1)] fold_insort_sort [OF assms(1)]
    by auto
  then show ?thesis using h rb_holds_foreach sp_holds_foreach [OF h'(2)] by auto
qed

lemma trees_agree_witness:
  "\<exists>h. insert_nodes (RB_INSERT (key_cmp (\<lambda>a. a))) [5, 2, 7] (RB_INIT demo_rb) = Some h \<and> RB_FOREACH h = Some [2, 5, 7]"
  using trees_agree [of "\<lambda>a. a" "[5, 2, 7]" 9 demo_rb demo_sp] by auto

section \<open>Memory\<close>

text \<open>
  C36: on the heap, moving the first entry \<open>k\<close> times from one intrusive queue to another takes the first \<open>k\<close> nodes off the one and appends them in order to
  the other, and walking the second then visits its nodes and those, and ends.
\<close>

theorem queue_move:
  assumes "qlist h p xs" "qlist h q ys" "set (p # xs) \<inter> set (q # ys) = {}" "k \<le> length xs"
  shows "qlist ((iqueue_move_first p q ^^ k) h) p (drop k xs) \<and>
    iqueue_foreach_entry (Suc (length ys + k)) ((iqueue_move_first p q ^^ k) h) q = Some (ys @ take k xs)"
proof -
  have m: "iqueue_move_first p q = (\<lambda>h. IQUEUE_ADD_TAIL (q_next h p) q (IQUEUE_DEL (q_next h p) h))"
    by (simp add: iqueue_move_first_def fun_eq_iff Let_def)
  note k = iq.move_many [OF assms, folded m]
  have "length (ys @ take k xs) < Suc (length ys + k)" using assms(4) by simp
  with iqueue_foreach_qlist [OF conjunct2 [OF k] this] k show ?thesis by blast
qed

lemma queue_move_witness: "iqueue_foreach_entry 3 ((iqueue_move_first 1 2 ^^ 2) demo_heap) 2 = Some [3, 4]"
  using queue_move [OF demo_heap_lists, of 2] by (simp add: numeral_3_eq_3)

text \<open>
  C37: \<^verbatim>\<open>iqueue_splice_init\<close> puts all nodes of one queue before those of another, and \<^verbatim>\<open>ikcp_release\<close>'s loop deletes every node of a queue
  exactly once, in order, and ends with the queue empty.
\<close>

theorem queue_splice_drain:
  assumes "qlist h p xs" "qlist h q ys" "set (p # xs) \<inter> set (q # ys) = {}"
  shows "\<exists>h'. iqueue_drain (Suc (length xs + length ys)) q (iqueue_splice_init p q h) = Some (xs @ ys, h') \<and> qlist h' q []"
  using iqueue_drain_qlist [OF qlist_splice [OF assms], of "Suc (length xs + length ys)"]
  by (simp del: iqueue_drain.simps)

lemma queue_splice_drain_witness:
  "\<exists>h'. iqueue_drain 4 2 (iqueue_splice_init 1 2 demo_heap) = Some ([3, 4, 5], h')"
proof -
  have "Suc (length [3 :: addr, 4, 5] + length ([] :: addr list)) = 4" by simp
  then show ?thesis using queue_splice_drain [OF demo_heap_lists] by (simp only: append_Nil2) fastforce
qed



section \<open>Settings\<close>

text \<open>
  \<^verbatim>\<open>ikcp_setmtu\<close> refuses less than 50 bytes and a failed allocation without any effect; otherwise the segments it allows fit the new
  MTU and the new buffer holds a datagram, provided the segments already queued are no larger.
\<close>

theorem setmtu_establishes:
  assumes "mtu < 2 ^ 30" "\<forall>s \<in> set (k_snd_buf kcp) \<union> set (k_snd_queue kcp). int (unat (s_len s)) + 24 \<le> mtu"
  shows "if mtu < 50 then ikcp_setmtu ok kcp mtu = (-1, kcp)
    else if \<not> ok then ikcp_setmtu ok kcp mtu = (-2, kcp)
    else fst (ikcp_setmtu ok kcp mtu) = 0 \<and> mtu_ok (nat mtu) (snd (ikcp_setmtu ok kcp mtu))"
proof -
  have "mtu_ok (nat mtu) (snd (ikcp_setmtu True kcp mtu))" if m: "\<not> mtu < 50"
  proof -
    have w: "word_of_int mtu = (word_of_nat (nat mtu) :: u32)" using m by simp
    have u: "unat (word_of_int mtu :: u32) = nat mtu"
      unfolding w by (rule word_of_nat_eq_32) (use assms(1) m in simp)
    have s: "unat ((word_of_int mtu :: u32) - 24) = nat mtu - 24"
      using m u by (simp add: unat_diff_32 del: word_of_int_minus)
    have b: "unat (((word_of_int mtu :: u32) + 24) * 3) = (nat mtu + 24) * 3"
    proof -
      have "(word_of_int mtu + 24) * 3 = (word_of_nat ((nat mtu + 24) * 3) :: u32)"
        using m by simp
      moreover have "(nat mtu + 24) * 3 < 4294967296" using assms(1) by simp
      ultimately show ?thesis by (simp only: word_of_nat_eq_32)
    qed
    have l: "unat (s_len s) + 24 \<le> nat mtu" if "s \<in> set (k_snd_buf kcp) \<union> set (k_snd_queue kcp)" for s
    proof -
      have "int (unat (s_len s)) + 24 \<le> mtu" using assms(2) that by blast
      then show ?thesis by linarith
    qed
    have "50 \<le> nat mtu" using m by linarith
    moreover have "nat mtu < 2 ^ 30" using assms(1) by (simp add: nat_less_iff)
    ultimately
    show ?thesis
      using m assms(1) u s b l by (simp add: ikcp_setmtu_def mtu_ok_def IKCP_OVERHEAD_def)
  qed
  then show ?thesis by (auto simp: ikcp_setmtu_def IKCP_OVERHEAD_def)
qed

lemma setmtu_establishes_witness: "mtu_ok 576 (snd (ikcp_setmtu True demo_new 576))"
proof -
  have "k_snd_buf demo_new = []" "k_snd_queue demo_new = []" by (simp_all add: demo_new_fields)
  then show ?thesis using setmtu_establishes [of 576 demo_new True] by simp
qed


text \<open>
  Whatever the arguments, the flush interval the settings leave is between 10 and 5000 ms, the lower limit of the timeout is 30 or 100 ms, and a
  negative argument leaves its setting alone.
\<close>

theorem nodelay_settings:
  assumes "settings_ok kcp" "k_rx_minrto kcp \<in> {30, 100}" "ikcp_nodelay kcp nd iv rs nc = (r, kcp')"
  shows "r = 0 \<and> settings_ok kcp' \<and> settings_ok (snd (ikcp_interval kcp iv)) \<and> k_rx_minrto kcp' \<in> {30, 100} \<and>
    (nd < 0 \<and> iv < 0 \<and> rs < 0 \<and> nc < 0 \<longrightarrow> kcp' = kcp)"
proof -
  have k: "k_interval kcp' = (if iv \<ge> 0 then word_of_int (clamp_interval iv) else k_interval kcp)"
    "k_rx_minrto kcp' = (if nd > 0 then 30 else if nd = 0 then 100 else k_rx_minrto kcp)" "r = 0"
    using assms(3) by (auto simp: ikcp_nodelay_def Let_def IKCP_RTO_NDL_def IKCP_RTO_MIN_def)
  have "10 \<le> unat (word_of_int (clamp_interval iv) :: u32) \<and> unat (word_of_int (clamp_interval iv) :: u32) \<le> 5000"
    by (auto simp: clamp_interval_def unat_word_of_int_32)
  then have s: "settings_ok kcp'" "settings_ok (snd (ikcp_interval kcp iv))"
    using assms(1) by (simp_all add: settings_ok_def k(1) ikcp_interval_def)
  have "nd < 0 \<and> iv < 0 \<and> rs < 0 \<and> nc < 0 \<Longrightarrow> kcp' = kcp" using assms(3) by (simp add: ikcp_nodelay_def)
  then show ?thesis using s k assms(2) by auto
qed

lemma nodelay_settings_witness: "settings_ok demo_fast"
proof -
  have "k_interval demo_new = 100" "k_rx_minrto demo_new = 100" by (simp_all add: demo_new_fields)
  then show ?thesis
    using nodelay_settings [OF _ _ prod.collapse [symmetric], of demo_new 1 10 2 1]
    by (simp add: settings_ok_def [of demo_new] demo_fast_def)
qed



end
